(* ===== verification/Prelude.thy ===== *)
theory Prelude
  imports
    "HOL-Library.Word"
    "HOL-Library.List_Lexorder"
    "HOL-Library.Product_Lexorder"
    "HOL-Library.Option_ord"
    "HOL-Library.Char_ord"
    "HOL-Library.Multiset"
begin

text \<open>
  Shared vocabulary of the development: Rust's machine integers and \<open>Ordering\<close>, byte strings and
  the ASCII predicates of \<open>u8\<close>, results that can also be a panic, and the contract that every
  hand-written \<open>Ord\<close> implementation of the sources has to meet (locale \<open>keyed_cmp\<close>).

  \<^item> \<open>u64\<close> is a 64-bit word; comparison on words is unsigned, as in Rust.
  \<^item> a byte string (\<open>&[u8]\<close> or an ASCII \<open>&str\<close>) is a \<open>string\<close>, that is a list of 8-bit characters.
  \<^item> \<open>'e fault + 'a\<close> is a Rust \<open>Result\<close> whose computation can panic: \<open>Inl (Err e)\<close>, \<open>Inl Panic\<close> or
    \<open>Inr x\<close>.
  The lexicographic orders on lists, pairs and options that the imported library theories declare are
  the derived \<open>Ord\<close> instances of Rust slices, tuples and \<open>Option\<close>.
\<close>

unbundle bit_operations_syntax

section \<open>Integers\<close>

type_synonym u64 = "64 word"

abbreviation u64_MAX :: u64 where
  "u64_MAX \<equiv> 18446744073709551615"

definition checked_mul :: "u64 \<Rightarrow> u64 \<Rightarrow> u64 option" where
  "checked_mul x y = (if unat x * unat y < 2 ^ 64 then Some (x * y) else None)"

definition checked_add :: "u64 \<Rightarrow> u64 \<Rightarrow> u64 option" where
  "checked_add x y = (if unat x + unat y < 2 ^ 64 then Some (x + y) else None)"

section \<open>Orderings\<close>

datatype ordering = LT | EQ | GT

fun rev_ordering :: "ordering \<Rightarrow> ordering" where
  "rev_ordering LT = GT"
| "rev_ordering EQ = EQ"
| "rev_ordering GT = LT"

text \<open>The \<open>cmp\<close> of a type whose \<open>Ord\<close> is the library order.\<close>

definition cmp_of :: "'a::linorder \<Rightarrow> 'a \<Rightarrow> ordering" where
  "cmp_of x y = (if x < y then LT else if x = y then EQ else GT)"

definition then_with :: "ordering \<Rightarrow> ordering \<Rightarrow> ordering" where
  "then_with o1 o2 = (case o1 of EQ \<Rightarrow> o2 | _ \<Rightarrow> o1)"

section \<open>Results with panics\<close>

datatype 'e fault = Err 'e | Panic

type_synonym ('e, 'a) res = "'e fault + 'a"

abbreviation is_ok :: "('e, 'a) res \<Rightarrow> bool" where
  "is_ok r \<equiv> \<not> isl r"

definition bind_res :: "('e, 'a) res \<Rightarrow> ('a \<Rightarrow> ('e, 'b) res) \<Rightarrow> ('e, 'b) res" where
  "bind_res r f = (case r of Inl e \<Rightarrow> Inl e | Inr x \<Rightarrow> f x)"

definition or_panic :: "'a option \<Rightarrow> ('e, 'a) res" where
  "or_panic x = (case x of None \<Rightarrow> Inl Panic | Some y \<Rightarrow> Inr y)"

text \<open>The result is not a panic, and a value it returns satisfies the postcondition.\<close>

definition ensures :: "('e, 'a) res \<Rightarrow> ('a \<Rightarrow> bool) \<Rightarrow> bool" where
  "ensures r Q \<longleftrightarrow> (case r of Inl (Err _) \<Rightarrow> True | Inl Panic \<Rightarrow> False | Inr x \<Rightarrow> Q x)"

section \<open>Bytes\<close>

definition byte_val :: "char \<Rightarrow> nat" where
  "byte_val c = of_char c"

definition is_ascii_digit :: "char \<Rightarrow> bool" where
  "is_ascii_digit c \<longleftrightarrow> 48 \<le> byte_val c \<and> byte_val c \<le> 57"

definition is_ascii_lowercase :: "char \<Rightarrow> bool" where
  "is_ascii_lowercase c \<longleftrightarrow> 97 \<le> byte_val c \<and> byte_val c \<le> 122"

definition is_ascii_uppercase :: "char \<Rightarrow> bool" where
  "is_ascii_uppercase c \<longleftrightarrow> 65 \<le> byte_val c \<and> byte_val c \<le> 90"

definition is_ascii_alphanumeric :: "char \<Rightarrow> bool" where
  "is_ascii_alphanumeric c \<longleftrightarrow> is_ascii_digit c \<or> is_ascii_lowercase c \<or> is_ascii_uppercase c"

text \<open>\<open>u8::is_ascii_whitespace\<close>: space, tab, line feed, form feed, carriage return.\<close>

definition is_ascii_whitespace :: "char \<Rightarrow> bool" where
  "is_ascii_whitespace c \<longleftrightarrow> byte_val c \<in> {32, 9, 10, 12, 13}"

definition to_ascii_lowercase :: "char \<Rightarrow> char" where
  "to_ascii_lowercase c = (if is_ascii_uppercase c then char_of (byte_val c + 32) else c)"

definition to_ascii_uppercase :: "char \<Rightarrow> char" where
  "to_ascii_uppercase c = (if is_ascii_lowercase c then char_of (byte_val c - 32) else c)"

definition eq_ignore_ascii_case :: "char \<Rightarrow> char \<Rightarrow> bool" where
  "eq_ignore_ascii_case a b \<longleftrightarrow> to_ascii_lowercase a = to_ascii_lowercase b"

text \<open>\<open>str::split\<close> on an ASCII separator.\<close>

fun split_on :: "char \<Rightarrow> string \<Rightarrow> string list" where
  "split_on c [] = [[]]"
| "split_on c (x # xs) =
     (if x = c then [] # split_on c xs
      else case split_on c xs of [] \<Rightarrow> [[x]] | part # parts \<Rightarrow> (x # part) # parts)"

section \<open>Decimal numerals\<close>

text \<open>The \<open>Display\<close> of an unsigned integer.\<close>

definition digit_char :: "nat \<Rightarrow> char" where
  "digit_char d = char_of (48 + d)"

fun show_nat :: "nat \<Rightarrow> string" where
  "show_nat n = (if n < 10 then [digit_char n] else show_nat (n div 10) @ [digit_char (n mod 10)])"

declare show_nat.simps [simp del]

definition show_u64 :: "u64 \<Rightarrow> string" where
  "show_u64 w = show_nat (unat w)"

section \<open>Generic lemmas\<close>

named_theorems cmp_simps "comparison results"
named_theorems byte_defs "the ASCII predicates, unfolded"

lemmas [byte_defs] =
  byte_val_def is_ascii_digit_def is_ascii_lowercase_def is_ascii_uppercase_def
  is_ascii_alphanumeric_def is_ascii_whitespace_def to_ascii_lowercase_def
  to_ascii_uppercase_def eq_ignore_ascii_case_def

lemma rev_rev_ordering [simp]: "rev_ordering (rev_ordering r) = r"
  by (cases r) simp_all

lemma cmp_of_refl [simp]: "cmp_of x x = EQ"
  by (simp add: cmp_of_def)

lemma cmp_of_EQ_iff [simp]: "cmp_of x y = EQ \<longleftrightarrow> x = y"
  and cmp_of_LT_iff [simp]: "cmp_of x y = LT \<longleftrightarrow> x < y"
  and cmp_of_GT_iff [simp]: "cmp_of x y = GT \<longleftrightarrow> y < x"
  by (auto simp: cmp_of_def)

lemma cmp_of_iff_sym [simp]:
  "EQ = cmp_of x y \<longleftrightarrow> x = y" "LT = cmp_of x y \<longleftrightarrow> x < y" "GT = cmp_of x y \<longleftrightarrow> y < x"
  by (auto simp: cmp_of_def)

lemma cmp_of_less [simp]: "x < y \<Longrightarrow> cmp_of x y = LT" "y < x \<Longrightarrow> cmp_of x y = GT"
  by simp_all

lemma cmp_of_rev: "cmp_of y x = rev_ordering (cmp_of x y)"
  by (auto simp: cmp_of_def)

lemma then_with_simps [simp]:
  "then_with EQ r = r" "then_with LT r = LT" "then_with GT r = GT"
  by (simp_all add: then_with_def)

lemma then_with_EQ [simp]: "then_with r EQ = r"
  by (cases r) simp_all

lemma then_with_assoc: "then_with (then_with r1 r2) r3 = then_with r1 (then_with r2 r3)"
  by (cases r1) simp_all

lemma case_then_with [simp]:
  "(case r of LT \<Rightarrow> LT | EQ \<Rightarrow> r' | GT \<Rightarrow> GT) = then_with r r'"
  by (cases r) simp_all

text \<open>Lexicographic comparison, as \<open>then_with\<close> chains compute it.\<close>

lemma cmp_of_Pair [cmp_simps]:
  "cmp_of (a, b) (c, d) = then_with (cmp_of a c) (cmp_of b d)"
  by (auto simp: cmp_of_def then_with_def less_prod_def less_le_not_le)

lemma cmp_of_Cons [cmp_simps]:
  "cmp_of (x # xs) (y # ys) = then_with (cmp_of x y) (cmp_of xs ys)"
  by (auto simp: cmp_of_def then_with_def)

lemma cmp_of_Nil [cmp_simps]:
  "cmp_of [] (y # ys) = LT" "cmp_of (y # ys) [] = GT"
  by (auto simp: cmp_of_def)

lemma cmp_of_unat: "cmp_of (unat x) (unat y) = cmp_of x y"
  by (simp add: cmp_of_def word_less_nat_alt word_unat_eq_iff)

lemma unat_u64_succ: "n < u64_MAX \<Longrightarrow> unat (n + 1) = unat n + 1"
  by (simp add: unat_word_ariths word_less_nat_alt)

lemma u64_less_succ [simp]: "n < u64_MAX \<Longrightarrow> n < n + 1"
  by (simp add: word_less_nat_alt unat_u64_succ)

lemma u64_less_succ_iff: "n < u64_MAX \<Longrightarrow> m < n + 1 \<longleftrightarrow> m \<le> n"
  by (auto simp: word_less_nat_alt word_le_nat_alt unat_u64_succ)

lemma cmp_of_digits:
  "r < m \<Longrightarrow> s < m \<Longrightarrow> cmp_of (x * m + r) (y * m + s) = then_with (cmp_of x y) (cmp_of r s)"
  for r s x y m :: nat
proof (cases "cmp_of x y")
  case LT
  assume "r < m"
  from LT have "Suc x * m \<le> y * m" by (intro mult_le_mono1) simp
  with \<open>r < m\<close> LT show ?thesis by simp
next
  case GT
  assume "s < m"
  from GT have "Suc y * m \<le> x * m" by (intro mult_le_mono1) simp
  with \<open>s < m\<close> GT show ?thesis by simp
next
  case EQ
  then have "x = y" by simp
  then show ?thesis by (simp add: cmp_of_def)
qed

lemma checked_add_code [code]:
  "checked_add x y = (if x \<le> x + y then Some (x + y) else None)"
proof -
  have "x \<le> x + y \<longleftrightarrow> unat x + unat y < 2 ^ LENGTH(64)"
    by (rule no_olen_add_nat)
  then show ?thesis by (simp add: checked_add_def)
qed

lemma checked_mul_code [code]:
  "checked_mul x y = (if x = 0 \<or> x * y div x = y then Some (x * y) else None)"
proof -
  have "unat x * unat y < 2 ^ 64 \<longleftrightarrow> x * y div x = y" if "x \<noteq> 0"
  proof
    assume "unat x * unat y < 2 ^ 64"
    then have "unat x * unat y < 2 ^ LENGTH(64)" by simp
    then have "unat (x * y) = unat x * unat y" by (rule unat_mult_lem [THEN iffD1])
    then show "x * y div x = y" using that
      by (simp add: word_unat_eq_iff [of _ y] unat_div_distrib unat_eq_0)
  next
    assume "x * y div x = y"
    then have "unat (x * y) div unat x = unat y" by (simp flip: unat_div_distrib)
    then have "unat x * unat y \<le> unat (x * y)" by (metis div_times_less_eq_dividend mult.commute)
    also have "\<dots> < 2 ^ 64" using unsigned_less [of "x * y"] by simp
    finally show "unat x * unat y < 2 ^ 64" .
  qed
  then show ?thesis by (cases "x = 0") (auto simp: checked_mul_def)
qed
lemma bind_res_simps [simp]:
  "bind_res (Inl e) f = Inl e" "bind_res (Inr x) f = f x"
  by (simp_all add: bind_res_def)

lemma bind_res_eq_Inr_iff: "bind_res r f = Inr y \<longleftrightarrow> (\<exists>x. r = Inr x \<and> f x = Inr y)"
  by (cases r) simp_all

lemma ensures_simps [simp]:
  "ensures (Inl (Err e)) Q" "\<not> ensures (Inl Panic) Q" "ensures (Inr x) Q \<longleftrightarrow> Q x"
  by (simp_all add: ensures_def)

lemma ensures_bind:
  "ensures r Q \<Longrightarrow> (\<And>x. r = Inr x \<Longrightarrow> Q x \<Longrightarrow> ensures (f x) R) \<Longrightarrow> ensures (bind_res r f) R"
  by (cases r rule: sum.exhaust) (auto simp: ensures_def bind_res_def split: fault.splits)

lemma ensures_mono: "ensures r Q \<Longrightarrow> (\<And>x. r = Inr x \<Longrightarrow> Q x \<Longrightarrow> R x) \<Longrightarrow> ensures r R"
  by (auto simp: ensures_def split: sum.splits fault.splits)

lemma ensures_Inr: "ensures r Q \<Longrightarrow> r = Inr x \<Longrightarrow> Q x"
  by simp

lemma ensures_no_panic: "ensures r Q \<Longrightarrow> r \<noteq> Inl Panic"
  by auto

lemma or_panic_simps [simp]: "or_panic None = Inl Panic" "or_panic (Some x) = Inr x"
  by (simp_all add: or_panic_def)

section \<open>The contract of a comparison function\<close>

text \<open>
  A Rust \<open>Ord\<close> implementation has to be a total order. The hand-written ones of the sources are
  shown to be so by exhibiting a key in a linearly ordered type that they compare: the contract
  \<open>keyed_cmp\<close> is that the function, on the values that satisfy the type's invariant \<open>ok\<close>, is
  comparison of keys. Reflexivity, symmetry and transitivity, and that equal values compare alike
  with everything else, follow once and for all.
\<close>

locale keyed_cmp =
  fixes cmp :: "'a \<Rightarrow> 'a \<Rightarrow> ordering"
    and key :: "'a \<Rightarrow> 'k::linorder"
    and ok :: "'a \<Rightarrow> bool"
  assumes cmp_key: "ok x \<Longrightarrow> ok y \<Longrightarrow> cmp x y = cmp_of (key x) (key y)"
begin

lemma cmp_refl: "ok x \<Longrightarrow> cmp x x = EQ"
  by (simp add: cmp_key)

lemma cmp_sym: "ok x \<Longrightarrow> ok y \<Longrightarrow> cmp y x = rev_ordering (cmp x y)"
  using cmp_of_rev [of "key y" "key x"] by (simp add: cmp_key)

lemma cmp_trans:
  "ok x \<Longrightarrow> ok y \<Longrightarrow> ok z \<Longrightarrow> cmp x y \<noteq> GT \<Longrightarrow> cmp y z \<noteq> GT \<Longrightarrow> cmp x z \<noteq> GT"
  by (auto simp: cmp_key)

lemma cmp_less_trans:
  "ok x \<Longrightarrow> ok y \<Longrightarrow> ok z \<Longrightarrow> cmp x y = LT \<Longrightarrow> cmp y z \<noteq> GT \<Longrightarrow> cmp x z = LT"
  by (auto simp: cmp_key)

lemma cmp_eq_cong:
  "ok x \<Longrightarrow> ok y \<Longrightarrow> ok z \<Longrightarrow> cmp x y = EQ \<Longrightarrow> cmp x z = cmp y z"
  by (simp add: cmp_key)

end

lemma bind_res_cong [fundef_cong]:
  "r = r' \<Longrightarrow> (\<And>x. r' = Inr x \<Longrightarrow> f x = g x) \<Longrightarrow> bind_res r f = bind_res r' g"
  by (cases r') simp_all

lemma pred_option_code [code]:
  "pred_option P None \<longleftrightarrow> True" "pred_option P (Some x) \<longleftrightarrow> P x"
  by simp_all

end
