(* ===== verification/Version.thy ===== *)
theory Version
  imports Prelude
begin

text \<open>
  Model of the version data type of \<open>crates/uv-pep440/src/version.rs\<close>: the packed 64-bit
  representation \<open>VersionSmall\<close>, the general representation \<open>VersionFull\<close>, the enum \<open>Version\<close> over
  both, and every accessor and setter. Mutating methods return the new value; a \<open>VersionSmall\<close>
  setter, which the code lets fail, returns the flag and the new value.

  The abstract view of a version is the \<open>VersionFull\<close> record that its accessors describe
  (\<open>full_of\<close>); the lemmas at the end show that every setter of the mixed representation is the
  corresponding field update on that record, and that the representation invariant \<open>wf_version\<close> of
  the packed form is kept.
\<close>

section \<open>Components\<close>

datatype prerelease_kind = Alpha | Beta | Rc

record prerelease =
  kind :: prerelease_kind
  number :: u64

datatype local_segment = String string | Number u64

text \<open>\<open>LocalVersion\<close> and its borrowed form \<open>LocalVersionSlice\<close> are one type here.\<close>

datatype local_version = Segments "local_segment list" | Max

definition local_empty :: local_version where
  "local_empty = Segments []"

fun local_is_empty :: "local_version \<Rightarrow> bool" where
  "local_is_empty (Segments segments) \<longleftrightarrow> segments = []"
| "local_is_empty Max \<longleftrightarrow> False"

section \<open>The packed representation\<close>

record version_small =
  repr :: u64
  len :: nat

definition SUFFIX_MIN :: u64 where "SUFFIX_MIN = 0"
definition SUFFIX_DEV :: u64 where "SUFFIX_DEV = 1"
definition SUFFIX_PRE_ALPHA :: u64 where "SUFFIX_PRE_ALPHA = 2"
definition SUFFIX_PRE_BETA :: u64 where "SUFFIX_PRE_BETA = 3"
definition SUFFIX_PRE_RC :: u64 where "SUFFIX_PRE_RC = 4"
definition SUFFIX_NONE :: u64 where "SUFFIX_NONE = 5"
definition SUFFIX_LOCAL :: u64 where "SUFFIX_LOCAL = 6"
definition SUFFIX_POST :: u64 where "SUFFIX_POST = 7"
definition SUFFIX_MAX :: u64 where "SUFFIX_MAX = 8"

definition SUFFIX_RELEASE_MASK :: u64 where "SUFFIX_RELEASE_MASK = 0xFFFFFFFFFF000000"
definition SUFFIX_VERSION_MASK :: u64 where "SUFFIX_VERSION_MASK = 0x000FFFFF"
definition SUFFIX_VERSION_BIT_LEN :: nat where "SUFFIX_VERSION_BIT_LEN = 20"
definition SUFFIX_KIND_MASK :: u64 where "SUFFIX_KIND_MASK = 15"

definition small_new :: version_small where
  "small_new = \<lparr>repr = push_bit SUFFIX_VERSION_BIT_LEN SUFFIX_NONE, len = 0\<rparr>"

definition small_epoch :: "version_small \<Rightarrow> u64" where
  "small_epoch s = 0"

definition small_set_epoch :: "u64 \<Rightarrow> version_small \<Rightarrow> bool \<times> version_small" where
  "small_set_epoch val s = (if val \<noteq> 0 then (False, s) else (True, s))"

definition small_clear_release :: "version_small \<Rightarrow> version_small" where
  "small_clear_release s = s\<lparr>repr := repr s AND NOT SUFFIX_RELEASE_MASK, len := 0\<rparr>"

definition small_push_release :: "u64 \<Rightarrow> version_small \<Rightarrow> bool \<times> version_small" where
  "small_push_release n s =
     (if len s = 0 then
        (if n > 65535 then (False, s)
         else (True, s\<lparr>repr := repr s OR push_bit 48 n, len := 1\<rparr>))
      else
        (if n > 255 then (False, s)
         else if len s \<ge> 4 then (False, s)
         else (True, s\<lparr>repr := repr s OR push_bit (48 - len s * 8) n, len := len s + 1\<rparr>)))"

definition small_suffix_kind :: "version_small \<Rightarrow> u64" where
  "small_suffix_kind s = drop_bit SUFFIX_VERSION_BIT_LEN (repr s) AND SUFFIX_KIND_MASK"

definition small_suffix_version :: "version_small \<Rightarrow> u64" where
  "small_suffix_version s = repr s AND SUFFIX_VERSION_MASK"

definition small_set_suffix_version :: "u64 \<Rightarrow> version_small \<Rightarrow> version_small" where
  "small_set_suffix_version val s = s\<lparr>repr := (repr s AND NOT SUFFIX_VERSION_MASK) OR val\<rparr>"

definition small_set_suffix_kind :: "u64 \<Rightarrow> version_small \<Rightarrow> version_small" where
  "small_set_suffix_kind k s =
     (let s' = s\<lparr>repr := (repr s AND NOT (push_bit SUFFIX_VERSION_BIT_LEN SUFFIX_KIND_MASK))
                     OR push_bit SUFFIX_VERSION_BIT_LEN k\<rparr>
      in if k = SUFFIX_NONE \<or> k = SUFFIX_LOCAL then small_set_suffix_version 0 s' else s')"

definition small_post :: "version_small \<Rightarrow> u64 option" where
  "small_post s = (if small_suffix_kind s = SUFFIX_POST then Some (small_suffix_version s) else None)"

definition small_set_post :: "u64 option \<Rightarrow> version_small \<Rightarrow> bool \<times> version_small" where
  "small_set_post val s =
     (let k = small_suffix_kind s in
      if \<not> (k = SUFFIX_NONE \<or> k = SUFFIX_POST) then (val = None, s)
      else (case val of
              None \<Rightarrow> (True, small_set_suffix_kind SUFFIX_NONE s)
            | Some n \<Rightarrow>
                if n > SUFFIX_VERSION_MASK then (False, s)
                else (True, small_set_suffix_version n (small_set_suffix_kind SUFFIX_POST s))))"

definition small_pre :: "version_small \<Rightarrow> prerelease option" where
  "small_pre s =
     (let k = small_suffix_kind s; n = small_suffix_version s in
      if k = SUFFIX_PRE_ALPHA then Some \<lparr>kind = Alpha, number = n\<rparr>
      else if k = SUFFIX_PRE_BETA then Some \<lparr>kind = Beta, number = n\<rparr>
      else if k = SUFFIX_PRE_RC then Some \<lparr>kind = Rc, number = n\<rparr>
      else None)"

definition small_set_pre :: "prerelease option \<Rightarrow> version_small \<Rightarrow> bool \<times> version_small" where
  "small_set_pre val s =
     (let k = small_suffix_kind s in
      if \<not> (k = SUFFIX_NONE \<or> k = SUFFIX_PRE_ALPHA \<or> k = SUFFIX_PRE_BETA \<or> k = SUFFIX_PRE_RC)
      then (val = None, s)
      else (case val of
              None \<Rightarrow> (True, small_set_suffix_kind SUFFIX_NONE s)
            | Some p \<Rightarrow>
                if number p > SUFFIX_VERSION_MASK then (False, s)
                else (True, small_set_suffix_version (number p)
                  (case kind p of
                     Alpha \<Rightarrow> small_set_suffix_kind SUFFIX_PRE_ALPHA s
                   | Beta \<Rightarrow> small_set_suffix_kind SUFFIX_PRE_BETA s
                   | Rc \<Rightarrow> small_set_suffix_kind SUFFIX_PRE_RC s))))"

definition small_dev :: "version_small \<Rightarrow> u64 option" where
  "small_dev s = (if small_suffix_kind s = SUFFIX_DEV then Some (small_suffix_version s) else None)"

definition small_set_dev :: "u64 option \<Rightarrow> version_small \<Rightarrow> bool \<times> version_small" where
  "small_set_dev val s =
     (let k = small_suffix_kind s in
      if \<not> (k = SUFFIX_NONE \<or> k = SUFFIX_DEV) then (val = None, s)
      else (case val of
              None \<Rightarrow> (True, small_set_suffix_kind SUFFIX_NONE s)
            | Some n \<Rightarrow>
                if n > SUFFIX_VERSION_MASK then (False, s)
                else (True, small_set_suffix_version n (small_set_suffix_kind SUFFIX_DEV s))))"

definition small_min :: "version_small \<Rightarrow> u64 option" where
  "small_min s = (if small_suffix_kind s = SUFFIX_MIN then Some (small_suffix_version s) else None)"

definition small_set_min :: "u64 option \<Rightarrow> version_small \<Rightarrow> bool \<times> version_small" where
  "small_set_min val s =
     (let k = small_suffix_kind s in
      if \<not> (k = SUFFIX_NONE \<or> k = SUFFIX_MIN) then (val = None, s)
      else (case val of
              None \<Rightarrow> (True, small_set_suffix_kind SUFFIX_NONE s)
            | Some n \<Rightarrow>
                if n > SUFFIX_VERSION_MASK then (False, s)
                else (True, small_set_suffix_version n (small_set_suffix_kind SUFFIX_MIN s))))"

definition small_max :: "version_small \<Rightarrow> u64 option" where
  "small_max s = (if small_suffix_kind s = SUFFIX_MAX then Some (small_suffix_version s) else None)"

definition small_set_max :: "u64 option \<Rightarrow> version_small \<Rightarrow> bool \<times> version_small" where
  "small_set_max val s =
     (let k = small_suffix_kind s in
      if \<not> (k = SUFFIX_NONE \<or> k = SUFFIX_MAX) then (val = None, s)
      else (case val of
              None \<Rightarrow> (True, small_set_suffix_kind SUFFIX_NONE s)
            | Some n \<Rightarrow>
                if n > SUFFIX_VERSION_MASK then (False, s)
                else (True, small_set_suffix_version n (small_set_suffix_kind SUFFIX_MAX s))))"

definition small_local :: "version_small \<Rightarrow> local_version" where
  "small_local s = (if small_suffix_kind s = SUFFIX_LOCAL then Max else local_empty)"

definition small_set_local :: "local_version \<Rightarrow> version_small \<Rightarrow> bool \<times> version_small" where
  "small_set_local val s =
     (let k = small_suffix_kind s in
      if \<not> (k = SUFFIX_NONE \<or> k = SUFFIX_LOCAL) then (local_is_empty val, s)
      else (case val of
              Max \<Rightarrow> (True, small_set_suffix_kind SUFFIX_LOCAL s)
            | Segments segments \<Rightarrow>
                if segments = [] then (True, small_set_suffix_kind SUFFIX_NONE s)
                else (False, s)))"

text \<open>
  The release numbers of the packed form, by the number of segments in use. A length above four is
  \<open>unreachable!\<close> in the code: the invariant \<open>wf_small\<close> below, which every operation keeps, bounds it.
\<close>

definition small_release :: "version_small \<Rightarrow> u64 list" where
  "small_release s =
     (let a = drop_bit 48 (repr s) AND 0xFFFF;
          b = drop_bit 40 (repr s) AND 0xFF;
          c = drop_bit 32 (repr s) AND 0xFF;
          d = drop_bit 24 (repr s) AND 0xFF
      in if len s = 0 then []
         else if len s = 1 then [a]
         else if len s = 2 then [a, b]
         else if len s = 3 then [a, b, c]
         else [a, b, c, d])"

section \<open>The general representation and the enum over both\<close>

record version_full =
  full_epoch :: u64
  full_release :: "u64 list"
  full_pre :: "prerelease option"
  full_post :: "u64 option"
  full_dev :: "u64 option"
  full_local :: local_version
  full_min :: "u64 option"
  full_max :: "u64 option"

datatype version = Small version_small | Full version_full

fun v_epoch :: "version \<Rightarrow> u64" where
  "v_epoch (Small s) = small_epoch s"
| "v_epoch (Full f) = full_epoch f"

fun v_release :: "version \<Rightarrow> u64 list" where
  "v_release (Small s) = small_release s"
| "v_release (Full f) = full_release f"

fun v_pre :: "version \<Rightarrow> prerelease option" where
  "v_pre (Small s) = small_pre s"
| "v_pre (Full f) = full_pre f"

fun v_post :: "version \<Rightarrow> u64 option" where
  "v_post (Small s) = small_post s"
| "v_post (Full f) = full_post f"

fun v_dev :: "version \<Rightarrow> u64 option" where
  "v_dev (Small s) = small_dev s"
| "v_dev (Full f) = full_dev f"

fun v_local :: "version \<Rightarrow> local_version" where
  "v_local (Small s) = small_local s"
| "v_local (Full f) = full_local f"

fun v_min :: "version \<Rightarrow> u64 option" where
  "v_min (Small s) = small_min s"
| "v_min (Full f) = full_min f"

fun v_max :: "version \<Rightarrow> u64 option" where
  "v_max (Small s) = small_max s"
| "v_max (Full f) = full_max f"

definition is_pre :: "version \<Rightarrow> bool" where
  "is_pre v \<longleftrightarrow> v_pre v \<noteq> None"

definition is_dev :: "version \<Rightarrow> bool" where
  "is_dev v \<longleftrightarrow> v_dev v \<noteq> None"

definition is_post :: "version \<Rightarrow> bool" where
  "is_post v \<longleftrightarrow> v_post v \<noteq> None"

definition is_local :: "version \<Rightarrow> bool" where
  "is_local v \<longleftrightarrow> \<not> local_is_empty (v_local v)"

definition any_prerelease :: "version \<Rightarrow> bool" where
  "any_prerelease v \<longleftrightarrow> is_pre v \<or> is_dev v"

definition is_stable :: "version \<Rightarrow> bool" where
  "is_stable v \<longleftrightarrow> \<not> is_pre v \<and> \<not> is_dev v"

fun make_full :: "version \<Rightarrow> version_full" where
  "make_full (Small s) =
     \<lparr>full_epoch = small_epoch s, full_release = small_release s, full_pre = small_pre s,
      full_post = small_post s, full_dev = small_dev s, full_local = small_local s,
      full_min = small_min s, full_max = small_max s\<rparr>"
| "make_full (Full f) = f"

definition push_release :: "version \<Rightarrow> u64 \<Rightarrow> version" where
  "push_release v n =
     (let slow = (let f = make_full v in Full (f\<lparr>full_release := full_release f @ [n]\<rparr>)) in
      case v of
        Small s \<Rightarrow> (case small_push_release n s of (stored, s') \<Rightarrow> if stored then Small s' else slow)
      | Full f \<Rightarrow> slow)"

fun clear_release :: "version \<Rightarrow> version" where
  "clear_release (Small s) = Small (small_clear_release s)"
| "clear_release (Full f) = Full (f\<lparr>full_release := []\<rparr>)"

text \<open>\<open>with_release\<close> panics, here \<open>None\<close>, on an empty release.\<close>

definition with_release :: "version \<Rightarrow> u64 list \<Rightarrow> version option" where
  "with_release v release_numbers =
     (let v' = foldl push_release (clear_release v) release_numbers
      in if v_release v' = [] then None else Some v')"

definition version_new :: "u64 list \<Rightarrow> version option" where
  "version_new release_numbers = with_release (Small small_new) release_numbers"

definition with_epoch :: "u64 \<Rightarrow> version \<Rightarrow> version" where
  "with_epoch val v =
     (let slow = Full ((make_full v)\<lparr>full_epoch := val\<rparr>) in
      case v of
        Small s \<Rightarrow> (case small_set_epoch val s of (stored, s') \<Rightarrow> if stored then Small s' else slow)
      | Full f \<Rightarrow> slow)"

definition with_pre :: "prerelease option \<Rightarrow> version \<Rightarrow> version" where
  "with_pre val v =
     (let slow = Full ((make_full v)\<lparr>full_pre := val\<rparr>) in
      case v of
        Small s \<Rightarrow> (case small_set_pre val s of (stored, s') \<Rightarrow> if stored then Small s' else slow)
      | Full f \<Rightarrow> slow)"

definition with_post :: "u64 option \<Rightarrow> version \<Rightarrow> version" where
  "with_post val v =
     (let slow = Full ((make_full v)\<lparr>full_post := val\<rparr>) in
      case v of
        Small s \<Rightarrow> (case small_set_post val s of (stored, s') \<Rightarrow> if stored then Small s' else slow)
      | Full f \<Rightarrow> slow)"

definition with_dev :: "u64 option \<Rightarrow> version \<Rightarrow> version" where
  "with_dev val v =
     (let slow = Full ((make_full v)\<lparr>full_dev := val\<rparr>) in
      case v of
        Small s \<Rightarrow> (case small_set_dev val s of (stored, s') \<Rightarrow> if stored then Small s' else slow)
      | Full f \<Rightarrow> slow)"

definition with_min :: "u64 option \<Rightarrow> version \<Rightarrow> version" where
  "with_min val v =
     (let slow = Full ((make_full v)\<lparr>full_min := val\<rparr>) in
      case v of
        Small s \<Rightarrow> (case small_set_min val s of (stored, s') \<Rightarrow> if stored then Small s' else slow)
      | Full f \<Rightarrow> slow)"

definition with_max :: "u64 option \<Rightarrow> version \<Rightarrow> version" where
  "with_max val v =
     (let slow = Full ((make_full v)\<lparr>full_max := val\<rparr>) in
      case v of
        Small s \<Rightarrow> (case small_set_max val s of (stored, s') \<Rightarrow> if stored then Small s' else slow)
      | Full f \<Rightarrow> slow)"

definition without_local :: "version \<Rightarrow> version" where
  "without_local v =
     (let slow = Full ((make_full v)\<lparr>full_local := local_empty\<rparr>) in
      case v of
        Small s \<Rightarrow>
          (case small_set_local local_empty s of (stored, s') \<Rightarrow> if stored then Small s' else slow)
      | Full f \<Rightarrow> slow)"

definition with_local_segments :: "local_segment list \<Rightarrow> version \<Rightarrow> version" where
  "with_local_segments val v =
     (if val = [] then without_local v
      else Full ((make_full v)\<lparr>full_local := Segments val\<rparr>))"

fun with_local :: "local_version \<Rightarrow> version \<Rightarrow> version" where
  "with_local (Segments segments) v = with_local_segments segments v"
| "with_local Max v =
     (let slow = Full ((make_full v)\<lparr>full_local := Max\<rparr>) in
      case v of
        Small s \<Rightarrow> (case small_set_local Max s of (stored, s') \<Rightarrow> if stored then Small s' else slow)
      | Full f \<Rightarrow> slow)"

definition only_release :: "version \<Rightarrow> version option" where
  "only_release v = version_new (v_release v)"

definition only_minor_release :: "version \<Rightarrow> version option" where
  "only_minor_release v = version_new (take 2 (v_release v))"

definition only_release_at_precision :: "version \<Rightarrow> nat \<Rightarrow> version option" where
  "only_release_at_precision v precision =
     (let rel = take precision (v_release v @ replicate precision 0)
      in if rel = [] then None else map_option (with_epoch (v_epoch v)) (version_new rel))"

text \<open>\<open>rposition\<close>: the index of the last element that satisfies the predicate.\<close>

fun rposition :: "('a \<Rightarrow> bool) \<Rightarrow> 'a list \<Rightarrow> nat option" where
  "rposition P [] = None"
| "rposition P (x # xs) =
     (case rposition P xs of Some i \<Rightarrow> Some (Suc i) | None \<Rightarrow> if P x then Some 0 else None)"

definition only_release_trimmed :: "version \<Rightarrow> version option" where
  "only_release_trimmed v =
     (case rposition (\<lambda>segment. segment \<noteq> 0) (v_release v) of
        Some last_non_zero \<Rightarrow>
          if last_non_zero + 1 = length (v_release v) \<and> v_epoch v = 0 \<and> v_pre v = None
             \<and> v_post v = None \<and> v_dev v = None \<and> local_is_empty (v_local v)
             \<and> v_min v = None \<and> v_max v = None
          then Some v
          else version_new (take (last_non_zero + 1) (v_release v))
      | None \<Rightarrow> version_new [0])"

definition trim_zeros :: "u64 list \<Rightarrow> u64 list" where
  "trim_zeros rel = rev (dropWhile (\<lambda>x. x = 0) (rev rel))"

definition without_trailing_zeros :: "version \<Rightarrow> version option" where
  "without_trailing_zeros v = with_release v (trim_zeros (v_release v))"

section \<open>Bumping\<close>

datatype bump_command =
    BumpRelease nat "u64 option"
  | BumpPrerelease prerelease_kind "u64 option"
  | MakeStable
  | BumpPost "u64 option"
  | BumpDev "u64 option"

definition nth_or_zero :: "u64 list \<Rightarrow> nat \<Rightarrow> u64" where
  "nth_or_zero xs i = (if i < length xs then xs ! i else 0)"

definition bump_release_part :: "u64 list \<Rightarrow> nat \<Rightarrow> u64 option \<Rightarrow> nat \<Rightarrow> u64" where
  "bump_release_part old_parts index val i =
     (if i < index then nth_or_zero old_parts i
      else if i = index then (case val of Some n \<Rightarrow> n | None \<Rightarrow> nth_or_zero old_parts i + 1)
      else 0)"

fun bump_full :: "bump_command \<Rightarrow> version_full \<Rightarrow> version_full" where
  "bump_full (BumpRelease index val) f =
     f\<lparr>full_pre := None, full_post := None, full_dev := None,
       full_release := map (bump_release_part (full_release f) index val)
                         [0..<max (length (full_release f)) (index + 1)]\<rparr>"
| "bump_full MakeStable f = f\<lparr>full_pre := None, full_post := None, full_dev := None\<rparr>"
| "bump_full (BumpPrerelease k val) f =
     (let f' = f\<lparr>full_post := None, full_dev := None\<rparr> in
      case val of
        Some n \<Rightarrow> f'\<lparr>full_pre := Some \<lparr>kind = k, number = n\<rparr>\<rparr>
      | None \<Rightarrow>
          (case full_pre f' of
             Some p \<Rightarrow>
               if kind p = k then f'\<lparr>full_pre := Some (p\<lparr>number := number p + 1\<rparr>)\<rparr>
               else f'\<lparr>full_pre := Some \<lparr>kind = k, number = 1\<rparr>\<rparr>
           | None \<Rightarrow> f'\<lparr>full_pre := Some \<lparr>kind = k, number = 1\<rparr>\<rparr>))"
| "bump_full (BumpPost val) f =
     (let f' = f\<lparr>full_dev := None\<rparr> in
      case val of
        Some n \<Rightarrow> f'\<lparr>full_post := Some n\<rparr>
      | None \<Rightarrow> (case full_post f' of Some n \<Rightarrow> f'\<lparr>full_post := Some (n + 1)\<rparr>
                                    | None \<Rightarrow> f'\<lparr>full_post := Some 1\<rparr>))"
| "bump_full (BumpDev val) f =
     (case val of
        Some n \<Rightarrow> f\<lparr>full_dev := Some n\<rparr>
      | None \<Rightarrow> (case full_dev f of Some n \<Rightarrow> f\<lparr>full_dev := Some (n + 1)\<rparr>
                                   | None \<Rightarrow> f\<lparr>full_dev := Some 1\<rparr>))"

definition bump :: "bump_command \<Rightarrow> version \<Rightarrow> version" where
  "bump cmd v = Full (bump_full cmd (make_full v))"

section \<open>Representation invariant and abstraction\<close>

text \<open>A bit field of the packed word: \<open>w\<close> bits from bit \<open>i\<close> up.\<close>

definition seg :: "nat \<Rightarrow> nat \<Rightarrow> u64 \<Rightarrow> u64" where
  "seg i w r = take_bit w (drop_bit i r)"

text \<open>
  What the code maintains about a packed version: at most four release numbers, unused ones zero, a
  suffix kind that is one of the constants, and a zero suffix number where the kind has none.
\<close>

definition wf_small :: "version_small \<Rightarrow> bool" where
  "wf_small s \<longleftrightarrow>
     len s \<le> 4 \<and> small_suffix_kind s \<le> SUFFIX_MAX \<and>
     (small_suffix_kind s = SUFFIX_NONE \<or> small_suffix_kind s = SUFFIX_LOCAL \<longrightarrow>
        small_suffix_version s = 0) \<and>
     (len s < 1 \<longrightarrow> seg 48 16 (repr s) = 0) \<and>
     (len s < 2 \<longrightarrow> seg 40 8 (repr s) = 0) \<and>
     (len s < 3 \<longrightarrow> seg 32 8 (repr s) = 0) \<and>
     (len s < 4 \<longrightarrow> seg 24 8 (repr s) = 0)"

fun wf_version :: "version \<Rightarrow> bool" where
  "wf_version (Small s) \<longleftrightarrow> wf_small s"
| "wf_version (Full f) \<longleftrightarrow> True"

definition release_bits :: "version_small \<Rightarrow> nat \<times> u64 \<times> u64 \<times> u64 \<times> u64" where
  "release_bits s =
     (len s, seg 48 16 (repr s), seg 40 8 (repr s), seg 32 8 (repr s), seg 24 8 (repr s))"

text \<open>The full record that a packed version stands for, from its fields.\<close>

definition unpacked :: "nat \<times> u64 \<times> u64 \<times> u64 \<times> u64 \<Rightarrow> u64 \<Rightarrow> u64 \<Rightarrow> version_full" where
  "unpacked bits k n =
     \<lparr>full_epoch = 0,
      full_release = (case bits of (m, a, b, c, d) \<Rightarrow> take m [a, b, c, d]),
      full_pre = (if k = SUFFIX_PRE_ALPHA then Some \<lparr>kind = Alpha, number = n\<rparr>
                  else if k = SUFFIX_PRE_BETA then Some \<lparr>kind = Beta, number = n\<rparr>
                  else if k = SUFFIX_PRE_RC then Some \<lparr>kind = Rc, number = n\<rparr> else None),
      full_post = (if k = SUFFIX_POST then Some n else None),
      full_dev = (if k = SUFFIX_DEV then Some n else None),
      full_local = (if k = SUFFIX_LOCAL then Max else Segments []),
      full_min = (if k = SUFFIX_MIN then Some n else None),
      full_max = (if k = SUFFIX_MAX then Some n else None)\<rparr>"

text \<open>The record of a version that has a release only.\<close>

definition plain_full :: "u64 list \<Rightarrow> version_full" where
  "plain_full rel = \<lparr>full_epoch = 0, full_release = rel, full_pre = None, full_post = None,
     full_dev = None, full_local = Segments [], full_min = None, full_max = None\<rparr>"

section \<open>Bit fields\<close>

lemma bit_seg: "bit (seg i w r) j \<longleftrightarrow> j < w \<and> bit r (i + j)"
  by (simp add: seg_def bit_simps)

lemma bit_less_exp: "bit (n :: u64) k \<Longrightarrow> n < 2 ^ v \<Longrightarrow> k < v"
  using less_mask_eq [of n v] by (metis bit_and_iff bit_mask_iff)

lemma seg_or_push_other:
  assumes "n < 2 ^ v" "j + v \<le> i \<or> i + w \<le> j"
  shows "seg i w (r OR push_bit j n) = seg i w r"
  using assms(2) bit_less_exp [OF _ assms(1)]
  by (intro bit_word_eqI) (fastforce simp: bit_seg bit_simps)

lemma seg_or_push_same:
  assumes "seg i w r = 0" "n < 2 ^ w" "i + w \<le> 64"
  shows "seg i w (r OR push_bit i n) = n"
proof (rule bit_word_eqI)
  fix k assume "k < LENGTH(64)"
  have "k < w \<Longrightarrow> \<not> bit r (i + k)"
    using bit_seg [of i w r k] assms(1) by simp
  then show "bit (seg i w (r OR push_bit i n)) k = bit n k"
    using bit_less_exp [OF _ assms(2), of k] assms(3) by (auto simp: bit_seg bit_simps)
qed

lemma seg_clear_other:
  "j + v \<le> i \<or> i + w \<le> j \<Longrightarrow> seg i w (r AND NOT (push_bit j (mask v))) = seg i w r"
  by (intro bit_word_eqI) (auto simp: bit_seg bit_simps dest: bit_imp_le_length)

lemma seg_clear_within:
  "j \<le> i \<Longrightarrow> i + w \<le> j + v \<Longrightarrow> seg i w (r AND NOT (push_bit j (mask v))) = 0"
  by (intro bit_word_eqI) (auto simp: bit_seg bit_simps dest: bit_imp_le_length)

lemma masks:
  "SUFFIX_RELEASE_MASK = push_bit 24 (mask 40)"
  "SUFFIX_VERSION_MASK = push_bit 0 (mask 20)"
  "SUFFIX_KIND_MASK = mask 4"
  by (simp_all add: SUFFIX_RELEASE_MASK_def SUFFIX_VERSION_MASK_def SUFFIX_KIND_MASK_def
      mask_eq_exp_minus_1)

lemma and_seg:
  "drop_bit i r AND 0xFFFF = seg i 16 r" 
  "drop_bit i r AND 0xFF = seg i 8 r" 
  by (simp_all add: seg_def take_bit_eq_mask mask_eq_exp_minus_1)

lemma kind_seg: "small_suffix_kind s = seg 20 4 (repr s)"
  by (simp add: small_suffix_kind_def seg_def take_bit_eq_mask masks SUFFIX_VERSION_BIT_LEN_def)

lemma version_seg: "small_suffix_version s = seg 0 20 (repr s)"
  by (simp add: small_suffix_version_def seg_def take_bit_eq_mask masks)

lemma unat_seg: "unat (seg i w r) = (unat r div 2 ^ i) mod 2 ^ w"
proof -
  have "unat (seg i w r) = take_bit w (drop_bit i (unat r))"
    by (simp only: seg_def unsigned_take_bit_eq unat_drop_bit_eq)
  then show ?thesis by (simp add: take_bit_eq_mod drop_bit_eq_div)
qed

lemma unat_seg_less: "unat (seg i w r) < 2 ^ w"
  by (simp add: unat_seg)

lemma small_release_bits:
  "small_release s = (case release_bits s of (n, a, b, c, d) \<Rightarrow> take n [a, b, c, d])"
  if "len s \<le> 4"
proof -
  have "len s = 0 \<or> len s = 1 \<or> len s = 2 \<or> len s = 3 \<or> len s = 4" using that by arith
  then show ?thesis
    by (elim disjE) (simp_all add: small_release_def release_bits_def and_seg)
qed

lemma set_version_bits:
  assumes "n \<le> SUFFIX_VERSION_MASK"
  shows "small_suffix_version (small_set_suffix_version n s) = n"
    and "small_suffix_kind (small_set_suffix_version n s) = small_suffix_kind s"
    and "release_bits (small_set_suffix_version n s) = release_bits s"
proof -
  have n: "n < 2 ^ 20"
    using assms by (simp add: SUFFIX_VERSION_MASK_def word_less_nat_alt word_le_nat_alt)
  have eq: "repr (small_set_suffix_version n s) =
      (repr s AND NOT (push_bit 0 (mask 20))) OR push_bit 0 n"
    by (simp add: small_set_suffix_version_def masks)
  note seg_simps = eq seg_clear_within seg_clear_other seg_or_push_other [OF n] seg_or_push_same [OF _ n]
  show "small_suffix_version (small_set_suffix_version n s) = n"
    by (simp add: version_seg seg_simps del: push_bit_0_id)
  show "small_suffix_kind (small_set_suffix_version n s) = small_suffix_kind s"
    by (simp add: kind_seg seg_simps del: push_bit_0_id)
  show "release_bits (small_set_suffix_version n s) = release_bits s"
    by (simp add: release_bits_def seg_simps del: push_bit_0_id)
       (simp add: small_set_suffix_version_def)
qed

lemma set_kind_bits:
  assumes "k < 16"
  shows "small_suffix_kind (small_set_suffix_kind k s) = k"
    and "small_suffix_version (small_set_suffix_kind k s) =
           (if k = SUFFIX_NONE \<or> k = SUFFIX_LOCAL then 0 else small_suffix_version s)"
    and "release_bits (small_set_suffix_kind k s) = release_bits s"
proof -
  have k: "k < 2 ^ 4" using assms by simp
  let ?s = "s\<lparr>repr := (repr s AND NOT (push_bit 20 (mask 4))) OR push_bit 20 k\<rparr>"
  note push = seg_or_push_other [OF k, where j = 20, simplified]
  have kind: "small_suffix_kind ?s = k"
    using seg_or_push_same [OF _ k, of 20 "repr s AND NOT (push_bit 20 (mask 4))"]
    by (simp add: kind_seg seg_clear_within)
  have ver: "small_suffix_version ?s = small_suffix_version s"
    by (simp add: version_seg push seg_clear_other)
  have rel: "release_bits ?s = release_bits s"
    by (simp add: release_bits_def push seg_clear_other)
  have unf: "small_set_suffix_kind k s =
      (if k = SUFFIX_NONE \<or> k = SUFFIX_LOCAL then small_set_suffix_version 0 ?s else ?s)"
    by (simp add: small_set_suffix_kind_def masks SUFFIX_VERSION_BIT_LEN_def)
  show "small_suffix_kind (small_set_suffix_kind k s) = k"
    and "small_suffix_version (small_set_suffix_kind k s) =
           (if k = SUFFIX_NONE \<or> k = SUFFIX_LOCAL then 0 else small_suffix_version s)"
    and "release_bits (small_set_suffix_kind k s) = release_bits s"
    by (auto simp: unf kind ver rel set_version_bits)
qed

lemma wf_small_bits:
  "wf_small s \<longleftrightarrow>
     (case release_bits s of (n, a, b, c, d) \<Rightarrow>
        n \<le> 4 \<and> (n < 1 \<longrightarrow> a = 0) \<and> (n < 2 \<longrightarrow> b = 0) \<and> (n < 3 \<longrightarrow> c = 0) \<and> (n < 4 \<longrightarrow> d = 0)) \<and>
     small_suffix_kind s \<le> SUFFIX_MAX \<and>
     (small_suffix_kind s = SUFFIX_NONE \<or> small_suffix_kind s = SUFFIX_LOCAL \<longrightarrow>
        small_suffix_version s = 0)"
  by (auto simp: wf_small_def release_bits_def)


lemmas suffix_consts =
  SUFFIX_MIN_def SUFFIX_DEV_def SUFFIX_PRE_ALPHA_def SUFFIX_PRE_BETA_def SUFFIX_PRE_RC_def
  SUFFIX_NONE_def SUFFIX_LOCAL_def SUFFIX_POST_def SUFFIX_MAX_def

declare make_full.simps(1) [simp del]

lemma make_full_Small:
  "wf_small s \<Longrightarrow>
   make_full (Small s) = unpacked (release_bits s) (small_suffix_kind s) (small_suffix_version s)"
  by (simp add: make_full.simps(1) unpacked_def wf_small_def small_epoch_def small_release_bits small_pre_def
      small_post_def small_dev_def small_local_def small_min_def small_max_def local_empty_def Let_def)


lemma suffix_bounds [simp]:
  "SUFFIX_MIN < 16" "SUFFIX_DEV < 16" "SUFFIX_PRE_ALPHA < 16" "SUFFIX_PRE_BETA < 16"
  "SUFFIX_PRE_RC < 16" "SUFFIX_NONE < 16" "SUFFIX_LOCAL < 16" "SUFFIX_POST < 16" "SUFFIX_MAX < 16"
  by (simp_all add: suffix_consts)

lemma suffix_le_MAX [simp]:
  "SUFFIX_MIN \<le> SUFFIX_MAX" "SUFFIX_DEV \<le> SUFFIX_MAX" "SUFFIX_PRE_ALPHA \<le> SUFFIX_MAX"
  "SUFFIX_PRE_BETA \<le> SUFFIX_MAX" "SUFFIX_PRE_RC \<le> SUFFIX_MAX" "SUFFIX_NONE \<le> SUFFIX_MAX"
  "SUFFIX_LOCAL \<le> SUFFIX_MAX" "SUFFIX_POST \<le> SUFFIX_MAX"
  by (simp_all add: suffix_consts)

lemma set_kind_wf:
  assumes "wf_small s" "k \<le> SUFFIX_MAX"
  shows "wf_small (small_set_suffix_kind k s)"
proof -
  have "k < 16" using assms(2) by (simp add: suffix_consts word_less_nat_alt word_le_nat_alt)
  then show ?thesis using assms by (simp add: wf_small_bits set_kind_bits)
qed

lemma set_version_wf:
  assumes "wf_small s" "small_suffix_kind s \<noteq> SUFFIX_NONE" "small_suffix_kind s \<noteq> SUFFIX_LOCAL"
    "n \<le> SUFFIX_VERSION_MASK"
  shows "wf_small (small_set_suffix_version n s)"
  using assms by (simp add: wf_small_bits set_version_bits)

lemma suffix_neqs [simp]:
  "SUFFIX_MIN \<noteq> SUFFIX_DEV" "SUFFIX_MIN \<noteq> SUFFIX_PRE_ALPHA" "SUFFIX_MIN \<noteq> SUFFIX_PRE_BETA" "SUFFIX_MIN \<noteq> SUFFIX_PRE_RC"
  "SUFFIX_MIN \<noteq> SUFFIX_NONE" "SUFFIX_MIN \<noteq> SUFFIX_LOCAL" "SUFFIX_MIN \<noteq> SUFFIX_POST" "SUFFIX_MIN \<noteq> SUFFIX_MAX"
  "SUFFIX_DEV \<noteq> SUFFIX_MIN" "SUFFIX_DEV \<noteq> SUFFIX_PRE_ALPHA" "SUFFIX_DEV \<noteq> SUFFIX_PRE_BETA" "SUFFIX_DEV \<noteq> SUFFIX_PRE_RC"
  "SUFFIX_DEV \<noteq> SUFFIX_NONE" "SUFFIX_DEV \<noteq> SUFFIX_LOCAL" "SUFFIX_DEV \<noteq> SUFFIX_POST" "SUFFIX_DEV \<noteq> SUFFIX_MAX"
  "SUFFIX_PRE_ALPHA \<noteq> SUFFIX_MIN" "SUFFIX_PRE_ALPHA \<noteq> SUFFIX_DEV" "SUFFIX_PRE_ALPHA \<noteq> SUFFIX_PRE_BETA" "SUFFIX_PRE_ALPHA \<noteq> SUFFIX_PRE_RC"
  "SUFFIX_PRE_ALPHA \<noteq> SUFFIX_NONE" "SUFFIX_PRE_ALPHA \<noteq> SUFFIX_LOCAL" "SUFFIX_PRE_ALPHA \<noteq> SUFFIX_POST" "SUFFIX_PRE_ALPHA \<noteq> SUFFIX_MAX"
  "SUFFIX_PRE_BETA \<noteq> SUFFIX_MIN" "SUFFIX_PRE_BETA \<noteq> SUFFIX_DEV" "SUFFIX_PRE_BETA \<noteq> SUFFIX_PRE_ALPHA" "SUFFIX_PRE_BETA \<noteq> SUFFIX_PRE_RC"
  "SUFFIX_PRE_BETA \<noteq> SUFFIX_NONE" "SUFFIX_PRE_BETA \<noteq> SUFFIX_LOCAL" "SUFFIX_PRE_BETA \<noteq> SUFFIX_POST" "SUFFIX_PRE_BETA \<noteq> SUFFIX_MAX"
  "SUFFIX_PRE_RC \<noteq> SUFFIX_MIN" "SUFFIX_PRE_RC \<noteq> SUFFIX_DEV" "SUFFIX_PRE_RC \<noteq> SUFFIX_PRE_ALPHA" "SUFFIX_PRE_RC \<noteq> SUFFIX_PRE_BETA"
  "SUFFIX_PRE_RC \<noteq> SUFFIX_NONE" "SUFFIX_PRE_RC \<noteq> SUFFIX_LOCAL" "SUFFIX_PRE_RC \<noteq> SUFFIX_POST" "SUFFIX_PRE_RC \<noteq> SUFFIX_MAX"
  "SUFFIX_NONE \<noteq> SUFFIX_MIN" "SUFFIX_NONE \<noteq> SUFFIX_DEV" "SUFFIX_NONE \<noteq> SUFFIX_PRE_ALPHA" "SUFFIX_NONE \<noteq> SUFFIX_PRE_BETA"
  "SUFFIX_NONE \<noteq> SUFFIX_PRE_RC" "SUFFIX_NONE \<noteq> SUFFIX_LOCAL" "SUFFIX_NONE \<noteq> SUFFIX_POST" "SUFFIX_NONE \<noteq> SUFFIX_MAX"
  "SUFFIX_LOCAL \<noteq> SUFFIX_MIN" "SUFFIX_LOCAL \<noteq> SUFFIX_DEV" "SUFFIX_LOCAL \<noteq> SUFFIX_PRE_ALPHA" "SUFFIX_LOCAL \<noteq> SUFFIX_PRE_BETA"
  "SUFFIX_LOCAL \<noteq> SUFFIX_PRE_RC" "SUFFIX_LOCAL \<noteq> SUFFIX_NONE" "SUFFIX_LOCAL \<noteq> SUFFIX_POST" "SUFFIX_LOCAL \<noteq> SUFFIX_MAX"
  "SUFFIX_POST \<noteq> SUFFIX_MIN" "SUFFIX_POST \<noteq> SUFFIX_DEV" "SUFFIX_POST \<noteq> SUFFIX_PRE_ALPHA" "SUFFIX_POST \<noteq> SUFFIX_PRE_BETA"
  "SUFFIX_POST \<noteq> SUFFIX_PRE_RC" "SUFFIX_POST \<noteq> SUFFIX_NONE" "SUFFIX_POST \<noteq> SUFFIX_LOCAL" "SUFFIX_POST \<noteq> SUFFIX_MAX"
  "SUFFIX_MAX \<noteq> SUFFIX_MIN" "SUFFIX_MAX \<noteq> SUFFIX_DEV" "SUFFIX_MAX \<noteq> SUFFIX_PRE_ALPHA" "SUFFIX_MAX \<noteq> SUFFIX_PRE_BETA"
  "SUFFIX_MAX \<noteq> SUFFIX_PRE_RC" "SUFFIX_MAX \<noteq> SUFFIX_NONE" "SUFFIX_MAX \<noteq> SUFFIX_LOCAL" "SUFFIX_MAX \<noteq> SUFFIX_POST"
  by (simp_all add: suffix_consts)

lemmas small_unfold = Let_def make_full_Small set_kind_wf set_version_wf set_kind_bits set_version_bits not_less

lemma with_post_full:
  "wf_version v \<Longrightarrow>
     wf_version (with_post val v) \<and> make_full (with_post val v) = (make_full v)\<lparr>full_post := val\<rparr>"
  by (cases v)
    (auto simp: with_post_def small_set_post_def small_unfold split: option.splits if_splits,
     auto simp: unpacked_def)

lemma with_pre_full:
  "wf_version v \<Longrightarrow>
     wf_version (with_pre val v) \<and> make_full (with_pre val v) = (make_full v)\<lparr>full_pre := val\<rparr>"
  by (cases v)
    (auto simp: with_pre_def small_set_pre_def small_unfold split: option.splits prerelease_kind.splits if_splits,
     auto simp: unpacked_def)


lemma with_dev_full:
  "wf_version v \<Longrightarrow>
     wf_version (with_dev val v) \<and> make_full (with_dev val v) = (make_full v)\<lparr>full_dev := val\<rparr>"
  by (cases v)
    (auto simp: with_dev_def small_set_dev_def small_unfold split: option.splits if_splits,
     auto simp: unpacked_def)

lemma with_min_full:
  "wf_version v \<Longrightarrow>
     wf_version (with_min val v) \<and> make_full (with_min val v) = (make_full v)\<lparr>full_min := val\<rparr>"
  by (cases v)
    (auto simp: with_min_def small_set_min_def small_unfold split: option.splits if_splits,
     auto simp: unpacked_def)

lemma with_max_full:
  "wf_version v \<Longrightarrow>
     wf_version (with_max val v) \<and> make_full (with_max val v) = (make_full v)\<lparr>full_max := val\<rparr>"
  by (cases v)
    (auto simp: with_max_def small_set_max_def small_unfold split: option.splits if_splits,
     auto simp: unpacked_def)

lemma with_epoch_full:
  "wf_version v \<Longrightarrow>
     wf_version (with_epoch val v) \<and> make_full (with_epoch val v) = (make_full v)\<lparr>full_epoch := val\<rparr>"
  by (cases v)
    (auto simp: with_epoch_def small_set_epoch_def small_unfold unpacked_def)

lemma without_local_full:
  "wf_version v \<Longrightarrow>
     wf_version (without_local v) \<and>
     make_full (without_local v) = (make_full v)\<lparr>full_local := Segments []\<rparr>"
  by (cases v)
    (auto simp: without_local_def small_set_local_def local_empty_def small_unfold split: if_splits,
     auto simp: unpacked_def)

lemma with_local_full:
  "wf_version v \<Longrightarrow>
     wf_version (with_local val v) \<and> make_full (with_local val v) = (make_full v)\<lparr>full_local := val\<rparr>"
proof (cases val)
  case (Segments segments)
  then show "wf_version v \<Longrightarrow> ?thesis"
    using without_local_full [of v] by (simp add: with_local_segments_def)
next
  case Max
  then show "wf_version v \<Longrightarrow> ?thesis"
    by (cases v)
      (auto simp: small_set_local_def small_unfold split: if_splits, auto simp: unpacked_def)
qed

lemma clear_release_bits:
  "release_bits (small_clear_release s) = (0, 0, 0, 0, 0)"
  "small_suffix_kind (small_clear_release s) = small_suffix_kind s"
  "small_suffix_version (small_clear_release s) = small_suffix_version s"
  by (simp_all add: small_clear_release_def release_bits_def kind_seg version_seg masks
      seg_clear_within seg_clear_other)

lemma clear_release_full:
  "wf_version v \<Longrightarrow>
     wf_version (clear_release v) \<and> make_full (clear_release v) = (make_full v)\<lparr>full_release := []\<rparr>"
proof (cases v)
  case (Small s)
  assume "wf_version v"
  with Small have "wf_small (small_clear_release s)"
    by (simp add: wf_small_bits clear_release_bits)
  with Small \<open>wf_version v\<close> show ?thesis
    by (simp add: make_full_Small clear_release_bits) (simp add: unpacked_def)
qed simp

lemma small_push_release_stored:
  assumes "wf_small s" "small_push_release n s = (True, s')"
  shows "wf_small s' \<and> make_full (Small s') =
    (make_full (Small s))\<lparr>full_release := full_release (make_full (Small s)) @ [n]\<rparr>"
proof -
  have "len s < 4"
    using assms(2) by (simp add: small_push_release_def split: if_splits)
  then have "len s = 0 \<or> len s = 1 \<or> len s = 2 \<or> len s = 3" by arith
  then have "len s = 0 \<and> n < 2 ^ 16 \<and> s' = s\<lparr>repr := repr s OR push_bit 48 n, len := 1\<rparr> \<or>
      len s = 1 \<and> n < 2 ^ 8 \<and> s' = s\<lparr>repr := repr s OR push_bit 40 n, len := 2\<rparr> \<or>
      len s = 2 \<and> n < 2 ^ 8 \<and> s' = s\<lparr>repr := repr s OR push_bit 32 n, len := 3\<rparr> \<or>
      len s = 3 \<and> n < 2 ^ 8 \<and> s' = s\<lparr>repr := repr s OR push_bit 24 n, len := 4\<rparr>"
    using assms(2)
    by (elim disjE)
      (auto simp: small_push_release_def word_less_nat_alt word_le_nat_alt split: if_splits)
  then have "wf_small s' \<and>
      unpacked (release_bits s') (small_suffix_kind s') (small_suffix_version s') =
      (unpacked (release_bits s) (small_suffix_kind s) (small_suffix_version s))\<lparr>full_release :=
         full_release (unpacked (release_bits s) (small_suffix_kind s) (small_suffix_version s)) @ [n]\<rparr>"
    by (elim disjE conjE)
      (use assms(1) in \<open>simp_all add: wf_small_bits release_bits_def kind_seg version_seg unpacked_def
        seg_or_push_other [where v = 16] seg_or_push_other [where v = 8] seg_or_push_same\<close>)
  then show ?thesis using assms(1) by (simp add: make_full_Small)
qed

lemma push_release_full:
  assumes "wf_version v"
  shows "wf_version (push_release v n) \<and>
    make_full (push_release v n) = (make_full v)\<lparr>full_release := full_release (make_full v) @ [n]\<rparr>"
proof (cases v)
  case (Full f)
  then show ?thesis by (simp add: push_release_def)
next
  case (Small s)
  obtain b s' where push: "small_push_release n s = (b, s')" by fastforce
  show ?thesis
    using assms small_push_release_stored [of s n s'] push
    by (cases b) (simp_all add: Small push_release_def Let_def)
qed

lemma foldl_push_release_full:
  "wf_version v \<Longrightarrow>
     wf_version (foldl push_release v ns) \<and>
     make_full (foldl push_release v ns) = (make_full v)\<lparr>full_release := full_release (make_full v) @ ns\<rparr>"
proof (induction ns arbitrary: v)
  case (Cons n ns)
  from push_release_full [OF Cons.prems] Cons.IH [of "push_release v n"] show ?case by simp
qed simp

lemma v_fields:
  "v_epoch v = full_epoch (make_full v)" "v_release v = full_release (make_full v)"
  "v_pre v = full_pre (make_full v)" "v_post v = full_post (make_full v)"
  "v_dev v = full_dev (make_full v)" "v_local v = full_local (make_full v)"
  "v_min v = full_min (make_full v)" "v_max v = full_max (make_full v)"
  by (cases v; simp add: make_full.simps)+

lemmas v_small_simps =
  v_epoch.simps(1) v_release.simps(1) v_pre.simps(1) v_post.simps(1) v_dev.simps(1)
  v_local.simps(1) v_min.simps(1) v_max.simps(1)

declare v_small_simps [simp del]

lemma with_release_full:
  assumes "wf_version v"
  shows "with_release v [] = None"
    and "ns \<noteq> [] \<Longrightarrow> \<exists>v'. with_release v ns = Some v' \<and> wf_version v' \<and>
           make_full v' = (make_full v)\<lparr>full_release := ns\<rparr>"
  using clear_release_full [OF assms] foldl_push_release_full [of "clear_release v"]
  by (auto simp: with_release_def Let_def v_fields)

lemma small_new_full: "wf_small small_new" "make_full (Small small_new) = plain_full []"
proof -
  have *: "release_bits small_new = (0, 0, 0, 0, 0)" "small_suffix_kind small_new = SUFFIX_NONE"
    "small_suffix_version small_new = 0"
    by (simp_all add: small_new_def release_bits_def seg_def kind_seg version_seg suffix_consts SUFFIX_VERSION_BIT_LEN_def)
  then show wf: "wf_small small_new" by (simp add: wf_small_bits)
  show "make_full (Small small_new) = plain_full []"
    by (simp add: make_full_Small [OF wf] *) (simp add: unpacked_def plain_full_def)
qed

lemma version_new_full:
  "version_new [] = None"
  "ns \<noteq> [] \<Longrightarrow> \<exists>v. version_new ns = Some v \<and> wf_version v \<and> make_full v = plain_full ns"
  using with_release_full [of "Small small_new"]
  by (auto simp: version_new_def small_new_full plain_full_def)

section \<open>The contract of the setters\<close>

text \<open>
  What a client of a \<open>with_*\<close> method relies on, whichever representation the version has: the
  representation invariant is kept, the components the version denotes are updated by \<open>upd\<close>, and a
  later call overrides an earlier one.
\<close>

locale version_setter =
  fixes set_field :: "'a \<Rightarrow> version \<Rightarrow> version"
    and upd :: "'a \<Rightarrow> version_full \<Rightarrow> version_full"
  assumes set_full: "wf_version v \<Longrightarrow>
      wf_version (set_field x v) \<and> make_full (set_field x v) = upd x (make_full v)"
    and upd_upd: "upd x (upd y f) = upd x f"
begin

lemma set_wf: "wf_version v \<Longrightarrow> wf_version (set_field x v)"
  by (simp add: set_full)

lemma set_denotes: "wf_version v \<Longrightarrow> make_full (set_field x v) = upd x (make_full v)"
  by (simp add: set_full)

lemma set_overrides:
  "wf_version v \<Longrightarrow> make_full (set_field x (set_field y v)) = make_full (set_field x v)"
  by (simp add: set_full upd_upd)

lemma set_cong:
  "wf_version v \<Longrightarrow> wf_version w \<Longrightarrow> make_full v = make_full w \<Longrightarrow>
     make_full (set_field x v) = make_full (set_field x w)"
  by (simp add: set_full)

end

interpretation epoch: version_setter with_epoch "\<lambda>x f. f\<lparr>full_epoch := x\<rparr>"
  by unfold_locales (use with_epoch_full in auto)

interpretation pre: version_setter with_pre "\<lambda>x f. f\<lparr>full_pre := x\<rparr>"
  by unfold_locales (use with_pre_full in auto)

interpretation post: version_setter with_post "\<lambda>x f. f\<lparr>full_post := x\<rparr>"
  by unfold_locales (use with_post_full in auto)

interpretation dev: version_setter with_dev "\<lambda>x f. f\<lparr>full_dev := x\<rparr>"
  by unfold_locales (use with_dev_full in auto)

interpretation local: version_setter with_local "\<lambda>x f. f\<lparr>full_local := x\<rparr>"
  by unfold_locales (use with_local_full in auto)

interpretation min: version_setter with_min "\<lambda>x f. f\<lparr>full_min := x\<rparr>"
  by unfold_locales (use with_min_full in auto)

interpretation max: version_setter with_max "\<lambda>x f. f\<lparr>full_max := x\<rparr>"
  by unfold_locales (use with_max_full in auto)

lemmas setters_wf = epoch.set_wf pre.set_wf post.set_wf dev.set_wf local.set_wf min.set_wf max.set_wf

lemmas setters_full = epoch.set_denotes pre.set_denotes post.set_denotes dev.set_denotes
  local.set_denotes min.set_denotes max.set_denotes



end
