(* ===== verification/VersionOrder.thy ===== *)
theory VersionOrder
  imports Version
begin

text \<open>
  Model of the comparison of versions in \<open>crates/uv-pep440/src/version.rs\<close>: the orders on local
  version segments, \<open>compare_release\<close>, \<open>sortable_tuple\<close>, the slow comparison \<open>cmp_slow\<close>, and
  \<open>Ord for Version\<close>, which compares two packed versions by their 64-bit words and everything else
  slowly; also \<open>Hash for Version\<close> and \<open>without_post_and_dev_eq\<close>.

  The abstract specification of the order is a key in a linear order (\<open>version_key\<close>). The
  comparison implements it, in all four combinations of representations, for versions whose internal
  \<open>max\<close> marker, if any, has the number 0, which is the only one the crate uses (\<open>ok_version\<close>).
\<close>

section \<open>Local versions\<close>

fun local_segment_cmp :: "local_segment \<Rightarrow> local_segment \<Rightarrow> ordering" where
  "local_segment_cmp (Number n1) (Number n2) = cmp_of n1 n2"
| "local_segment_cmp (String s1) (String s2) = cmp_of s1 s2"
| "local_segment_cmp (Number _) (String _) = GT"
| "local_segment_cmp (String _) (Number _) = LT"

text \<open>The linear order that this comparison defines.\<close>

instantiation local_segment :: linorder
begin

definition less_eq_local_segment :: "local_segment \<Rightarrow> local_segment \<Rightarrow> bool" where
  "less_eq_local_segment x y \<longleftrightarrow> local_segment_cmp x y \<noteq> GT"

definition less_local_segment :: "local_segment \<Rightarrow> local_segment \<Rightarrow> bool" where
  "less_local_segment x y \<longleftrightarrow> local_segment_cmp x y = LT"

instance
proof
  fix x y z :: local_segment
  show "x < y \<longleftrightarrow> x \<le> y \<and> \<not> y \<le> x"
    by (cases x; cases y) (auto simp: less_eq_local_segment_def less_local_segment_def)
  show "x \<le> x" by (cases x) (auto simp: less_eq_local_segment_def)
  show "x \<le> y \<Longrightarrow> y \<le> z \<Longrightarrow> x \<le> z"
    by (cases x; cases y; cases z) (auto simp: less_eq_local_segment_def)
  show "x \<le> y \<Longrightarrow> y \<le> x \<Longrightarrow> x = y"
    by (cases x; cases y) (auto simp: less_eq_local_segment_def)
  show "x \<le> y \<or> y \<le> x"
    by (cases x; cases y) (auto simp: less_eq_local_segment_def)
qed

end

fun local_version_cmp :: "local_version \<Rightarrow> local_version \<Rightarrow> ordering" where
  "local_version_cmp (Segments lv1) (Segments lv2) = cmp_of lv1 lv2"
| "local_version_cmp (Segments _) Max = LT"
| "local_version_cmp Max (Segments _) = GT"
| "local_version_cmp Max Max = EQ"

instantiation local_version :: linorder
begin

definition less_eq_local_version :: "local_version \<Rightarrow> local_version \<Rightarrow> bool" where
  "less_eq_local_version x y \<longleftrightarrow> local_version_cmp x y \<noteq> GT"

definition less_local_version :: "local_version \<Rightarrow> local_version \<Rightarrow> bool" where
  "less_local_version x y \<longleftrightarrow> local_version_cmp x y = LT"

instance
proof
  fix x y z :: local_version
  show "x < y \<longleftrightarrow> x \<le> y \<and> \<not> y \<le> x"
    by (cases x; cases y) (auto simp: less_eq_local_version_def less_local_version_def)
  show "x \<le> x" by (cases x) (auto simp: less_eq_local_version_def)
  show "x \<le> y \<Longrightarrow> y \<le> z \<Longrightarrow> x \<le> z"
    by (cases x; cases y; cases z) (auto simp: less_eq_local_version_def)
  show "x \<le> y \<Longrightarrow> y \<le> x \<Longrightarrow> x = y"
    by (cases x; cases y) (auto simp: less_eq_local_version_def)
  show "x \<le> y \<or> y \<le> x"
    by (cases x; cases y) (auto simp: less_eq_local_version_def)
qed

end

section \<open>Comparing versions\<close>

text \<open>The padded iteration of \<open>compare_release\<close>.\<close>

fun compare_padded :: "(u64 \<times> u64) list \<Rightarrow> ordering" where
  "compare_padded [] = EQ"
| "compare_padded ((this, other) # rest) =
     (case cmp_of this other of LT \<Rightarrow> LT | EQ \<Rightarrow> compare_padded rest | GT \<Rightarrow> GT)"

definition zero_padded :: "nat \<Rightarrow> u64 list \<Rightarrow> u64 list" where
  "zero_padded n xs = take n (xs @ replicate n 0)"

definition compare_release :: "u64 list \<Rightarrow> u64 list \<Rightarrow> ordering" where
  "compare_release this other =
     (if length this = length other then cmp_of this other
      else let n = max (length this) (length other)
           in compare_padded (zip (zero_padded n this) (zero_padded n other)))"

type_synonym sort_tuple = "u64 \<times> u64 \<times> u64 option \<times> u64 \<times> local_version"

definition unwrap_or :: "'a option \<Rightarrow> 'a \<Rightarrow> 'a" where
  "unwrap_or x d = (case x of Some y \<Rightarrow> y | None \<Rightarrow> d)"

definition sortable_tuple_with :: "version \<Rightarrow> u64 option \<Rightarrow> u64 option \<Rightarrow> sort_tuple" where
  "sortable_tuple_with v post0 dev =
     (let post = (if v_max v \<noteq> None then Some u64_MAX else post0) in
      case v_min v of
        Some n \<Rightarrow> (0, 0, post, n, v_local v)
      | None \<Rightarrow>
          (case v_pre v of
             Some p \<Rightarrow>
               (case kind p of
                  Alpha \<Rightarrow> (2, number p, post, unwrap_or dev u64_MAX, v_local v)
                | Beta \<Rightarrow> (3, number p, post, unwrap_or dev u64_MAX, v_local v)
                | Rc \<Rightarrow> (4, number p, post, unwrap_or dev u64_MAX, v_local v))
           | None \<Rightarrow>
               (case (post, dev) of
                  (None, Some n) \<Rightarrow> (1, 0, None, n, v_local v)
                | (None, None) \<Rightarrow> (5, 0, None, 0, v_local v)
                | (Some n, _) \<Rightarrow> (6, 0, Some n, unwrap_or dev u64_MAX, v_local v))))"

definition sortable_tuple :: "version \<Rightarrow> sort_tuple" where
  "sortable_tuple v = sortable_tuple_with v (v_post v) (v_dev v)"

definition cmp_slow :: "version \<Rightarrow> version \<Rightarrow> ordering" where
  "cmp_slow v w =
     (case cmp_of (v_epoch v) (v_epoch w) of
        LT \<Rightarrow> LT
      | GT \<Rightarrow> GT
      | EQ \<Rightarrow>
          (case compare_release (v_release v) (v_release w) of
             LT \<Rightarrow> LT
           | GT \<Rightarrow> GT
           | EQ \<Rightarrow> cmp_of (sortable_tuple v) (sortable_tuple w)))"

fun version_cmp :: "version \<Rightarrow> version \<Rightarrow> ordering" where
  "version_cmp (Small small1) (Small small2) = cmp_of (repr small1) (repr small2)"
| "version_cmp v w = cmp_slow v w"

definition version_eq :: "version \<Rightarrow> version \<Rightarrow> bool" where
  "version_eq v w \<longleftrightarrow> version_cmp v w = EQ"

definition version_less :: "version \<Rightarrow> version \<Rightarrow> bool" where
  "version_less v w \<longleftrightarrow> version_cmp v w = LT"

definition version_le :: "version \<Rightarrow> version \<Rightarrow> bool" where
  "version_le v w \<longleftrightarrow> version_cmp v w \<noteq> GT"

definition without_post_and_dev_eq_slow :: "version \<Rightarrow> version \<Rightarrow> bool" where
  "without_post_and_dev_eq_slow v w \<longleftrightarrow>
     v_epoch v = v_epoch w \<and> compare_release (v_release v) (v_release w) = EQ \<and>
     sortable_tuple_with v None None = sortable_tuple w"

fun without_post_and_dev_eq :: "version \<Rightarrow> version \<Rightarrow> bool" where
  "without_post_and_dev_eq (Small small) (Small other) \<longleftrightarrow>
     repr (snd (small_set_dev None (snd (small_set_post None small)))) = repr other"
| "without_post_and_dev_eq v w \<longleftrightarrow> without_post_and_dev_eq_slow v w"

text \<open>What \<open>Hash for Version\<close> feeds to the hasher, in order.\<close>

definition version_hash ::
  "version \<Rightarrow> u64 \<times> u64 list \<times> prerelease option \<times> u64 option \<times> u64 option \<times> local_version"
where
  "version_hash v =
     (v_epoch v, dropWhile (\<lambda>x. x = 0) (rev (v_release v)), v_pre v, v_dev v, v_post v, v_local v)"

section \<open>The key that versions are compared by\<close>

definition version_key :: "version \<Rightarrow> u64 \<times> u64 list \<times> sort_tuple" where
  "version_key v = (v_epoch v, trim_zeros (v_release v), sortable_tuple v)"

text \<open>The versions that the crate builds: packed ones are well-formed, a \<open>max\<close> marker has number 0.\<close>

definition ok_version :: "version \<Rightarrow> bool" where
  "ok_version v \<longleftrightarrow> wf_version v \<and> (v_max v = None \<or> v_max v = Some 0)"

text \<open>
  The values a version of the public API can have: no internal sentinel and no number at the limit,
  which the parser rejects.
\<close>

definition public_version :: "version \<Rightarrow> bool" where
  "public_version v \<longleftrightarrow>
     wf_version v \<and> v_release v \<noteq> [] \<and> v_min v = None \<and> v_max v = None \<and> v_local v \<noteq> Max \<and>
     v_epoch v < u64_MAX \<and> list_all (\<lambda>n. n < u64_MAX) (v_release v) \<and>
     pred_option (\<lambda>p. number p < u64_MAX) (v_pre v) \<and>
     pred_option (\<lambda>n. n < u64_MAX) (v_post v) \<and> pred_option (\<lambda>n. n < u64_MAX) (v_dev v)"

text \<open>The sort tuple of a packed version, from its suffix kind and number.\<close>

definition packed_tuple :: "u64 \<Rightarrow> u64 \<Rightarrow> sort_tuple" where
  "packed_tuple k n =
     (if k = SUFFIX_MIN then (0, 0, None, n, Segments [])
      else if k = SUFFIX_DEV then (1, 0, None, n, Segments [])
      else if k = SUFFIX_PRE_ALPHA then (2, n, None, u64_MAX, Segments [])
      else if k = SUFFIX_PRE_BETA then (3, n, None, u64_MAX, Segments [])
      else if k = SUFFIX_PRE_RC then (4, n, None, u64_MAX, Segments [])
      else if k = SUFFIX_NONE then (5, 0, None, 0, Segments [])
      else if k = SUFFIX_LOCAL then (5, 0, None, 0, Max)
      else if k = SUFFIX_POST then (6, 0, Some n, u64_MAX, Segments [])
      else (6, 0, Some u64_MAX, u64_MAX, Segments []))"

section \<open>The slow comparison compares keys\<close>

lemma trim_zeros_Nil [simp]: "trim_zeros [] = []"
  by (simp add: trim_zeros_def)

lemma trim_zeros_Cons [simp]:
  "trim_zeros (x # xs) = (if trim_zeros xs = [] \<and> x = 0 then [] else x # trim_zeros xs)"
  by (auto simp: trim_zeros_def dropWhile_append)

lemma trim_zeros_replicate [simp]: "trim_zeros (replicate n 0) = []"
  by (induction n) auto

lemma trim_zeros_append_replicate: "trim_zeros (xs @ replicate n 0) = trim_zeros xs"
  by (induction xs) auto

lemma trim_zeros_padded: "length xs \<le> n \<Longrightarrow> trim_zeros (zero_padded n xs) = trim_zeros xs"
  by (simp add: zero_padded_def trim_zeros_append_replicate)

lemma cmp_of_trim_zeros:
  "length xs = length ys \<Longrightarrow> cmp_of (trim_zeros xs) (trim_zeros ys) = cmp_of xs ys"
proof (induction xs ys rule: list_induct2)
  case (Cons x xs y ys)
  show ?case
    using Cons.IH 
    by (cases "trim_zeros xs"; cases "trim_zeros ys"; cases "cmp_of x y")
       (auto simp: cmp_simps)
qed simp

lemma compare_padded_cmp:
  "length xs = length ys \<Longrightarrow> compare_padded (zip xs ys) = cmp_of xs ys"
  by (induction xs ys rule: list_induct2) (auto simp: cmp_simps)

lemma compare_release_key: "compare_release xs ys = cmp_of (trim_zeros xs) (trim_zeros ys)"
proof -
  define n where "n = max (length xs) (length ys)"
  have "length (zero_padded n xs) = n" "length (zero_padded n ys) = n"
    by (auto simp: zero_padded_def n_def)
  then have "compare_padded (zip (zero_padded n xs) (zero_padded n ys)) =
      cmp_of (trim_zeros (zero_padded n xs)) (trim_zeros (zero_padded n ys))"
    by (simp add: compare_padded_cmp cmp_of_trim_zeros)
  then show ?thesis
    by (simp add: compare_release_def Let_def cmp_of_trim_zeros trim_zeros_padded n_def)
qed

lemma cmp_slow_key: "cmp_slow v w = cmp_of (version_key v) (version_key w)"
  by (simp add: cmp_slow_def version_key_def cmp_simps compare_release_key)


lemma cmp_repr:
  "cmp_of r r' =
     cmp_of (seg 48 16 r, seg 40 8 r, seg 32 8 r, seg 24 8 r, seg 20 4 r, seg 0 20 r)
            (seg 48 16 r', seg 40 8 r', seg 32 8 r', seg 24 8 r', seg 20 4 r', seg 0 20 r')"
proof -
  have step: "n div 2 ^ (i + w) * 2 ^ w + n div 2 ^ i mod 2 ^ w = n div 2 ^ i" for n i w :: nat
    by (metis div_mult2_eq div_mult_mod_eq power_add)
  have split: "unat r = ((((unat (seg 48 16 r) * 2 ^ 8 + unat (seg 40 8 r)) * 2 ^ 8
      + unat (seg 32 8 r)) * 2 ^ 8 + unat (seg 24 8 r)) * 2 ^ 4 + unat (seg 20 4 r)) * 2 ^ 20
      + unat (seg 0 20 r)" for r :: u64
  proof -
    have "unat r < 2 ^ 64" using unsigned_less [of r] by simp
    then have "unat r div 2 ^ 48 mod 2 ^ 16 = unat r div 2 ^ 48" by simp
    then show ?thesis
      using step [of "unat r" 40 8] step [of "unat r" 32 8] step [of "unat r" 24 8]
        step [of "unat r" 20 4] step [of "unat r" 0 20]
      unfolding unat_seg by simp
  qed
  show ?thesis
    by (subst cmp_of_unat [symmetric], subst (1 2) split)
       (simp only: cmp_of_digits unat_seg_less cmp_of_unat cmp_simps then_with_assoc)
qed

lemma suffix_kind_cases:
  "k \<le> SUFFIX_MAX \<Longrightarrow> k \<in> {SUFFIX_MIN, SUFFIX_DEV, SUFFIX_PRE_ALPHA, SUFFIX_PRE_BETA, SUFFIX_PRE_RC,
     SUFFIX_NONE, SUFFIX_LOCAL, SUFFIX_POST, SUFFIX_MAX}"
proof -
  assume "k \<le> SUFFIX_MAX"
  then have "unat k \<le> 8" by (simp add: suffix_consts word_le_nat_alt)
  then have "unat k \<in> {0, 1, 2, 3, 4, 5, 6, 7, 8}" by auto
  then show ?thesis by (simp add: suffix_consts word_unat_eq_iff)
qed



lemma sortable_tuple_Small:
  assumes "wf_small s"
  shows "sortable_tuple (Small s) = packed_tuple (small_suffix_kind s) (small_suffix_version s)"
proof -
  from assms have "small_suffix_kind s \<le> SUFFIX_MAX" by (simp add: wf_small_def)
  from suffix_kind_cases [OF this] show ?thesis
    by (auto simp: sortable_tuple_def sortable_tuple_with_def v_fields make_full_Small assms
        unpacked_def packed_tuple_def unwrap_or_def)
qed

lemma cmp_local_simps [cmp_simps]:
  "cmp_of (Segments l1) (Segments l2) = cmp_of l1 l2"
  "cmp_of (Segments l1) Max = LT" "cmp_of Max (Segments l1) = GT"
  by (auto simp: cmp_of_def less_local_version_def)

lemma cmp_option_simps [cmp_simps]:
  "cmp_of (Some x) (Some y) = cmp_of x y" "cmp_of None (Some y) = LT" "cmp_of (Some y) None = GT"
  by (auto simp: cmp_of_def)

lemma packed_tuple_simps:
  "packed_tuple SUFFIX_MIN n = (0, 0, None, n, Segments [])"
  "packed_tuple SUFFIX_DEV n = (1, 0, None, n, Segments [])"
  "packed_tuple SUFFIX_PRE_ALPHA n = (2, n, None, u64_MAX, Segments [])"
  "packed_tuple SUFFIX_PRE_BETA n = (3, n, None, u64_MAX, Segments [])"
  "packed_tuple SUFFIX_PRE_RC n = (4, n, None, u64_MAX, Segments [])"
  "packed_tuple SUFFIX_NONE n = (5, 0, None, 0, Segments [])"
  "packed_tuple SUFFIX_LOCAL n = (5, 0, None, 0, Max)"
  "packed_tuple SUFFIX_POST n = (6, 0, Some n, u64_MAX, Segments [])"
  "packed_tuple SUFFIX_MAX n = (6, 0, Some u64_MAX, u64_MAX, Segments [])"
  by (simp_all add: packed_tuple_def)

lemma cmp_packed_tuple:
  assumes "k \<le> SUFFIX_MAX" "k' \<le> SUFFIX_MAX" "n < u64_MAX" "n' < u64_MAX"
    and "k \<in> {SUFFIX_NONE, SUFFIX_LOCAL, SUFFIX_MAX} \<longrightarrow> n = 0"
    and "k' \<in> {SUFFIX_NONE, SUFFIX_LOCAL, SUFFIX_MAX} \<longrightarrow> n' = 0"
  shows "cmp_of (packed_tuple k n) (packed_tuple k' n') = cmp_of (k, n) (k', n')"
proof -
  have less: "packed_tuple k n < packed_tuple k' n'"
    if "k < k'" "k \<le> SUFFIX_MAX" "k' \<le> SUFFIX_MAX" "n < u64_MAX" for k k' n n' :: u64
    using suffix_kind_cases [OF that(2)] suffix_kind_cases [OF that(3)] that(1,4)
    unfolding insert_iff empty_iff
    by (elim disjE; simp add: packed_tuple_simps; simp add: suffix_consts less_local_version_def)
  have same: "cmp_of (packed_tuple k n) (packed_tuple k n') = cmp_of n n'"
    if "k \<in> {SUFFIX_NONE, SUFFIX_LOCAL, SUFFIX_MAX} \<longrightarrow> n = 0 \<and> n' = 0" "k \<le> SUFFIX_MAX" for k n n'
    using suffix_kind_cases [OF that(2)] that(1)
    unfolding insert_iff empty_iff
    by (elim disjE; simp add: packed_tuple_simps cmp_simps)
  show ?thesis
  proof (cases "cmp_of k k'")
    case LT
    with less [of k k' n n'] assms show ?thesis by (simp add: cmp_of_Pair)
  next
    case GT
    with less [of k' k n' n] assms show ?thesis by (simp add: cmp_of_Pair)
  next
    case EQ
    with same [of k n n'] assms show ?thesis by (simp add: cmp_of_Pair)
  qed
qed

lemma release_Small_padded:
  assumes "wf_small s"
  shows "trim_zeros (v_release (Small s)) =
    trim_zeros [seg 48 16 (repr s), seg 40 8 (repr s), seg 32 8 (repr s), seg 24 8 (repr s)]"
proof -
  from assms have "len s = 0 \<or> len s = 1 \<or> len s = 2 \<or> len s = 3 \<or> len s = 4"
    unfolding wf_small_def by linarith
  with assms show ?thesis
    by (elim disjE) (simp_all add: wf_small_def small_release_def and_seg v_small_simps)
qed

lemma ok_small_suffix:
  assumes "ok_version (Small s)"
  shows "small_suffix_kind s \<le> SUFFIX_MAX" "small_suffix_version s < u64_MAX"
    "small_suffix_kind s \<in> {SUFFIX_NONE, SUFFIX_LOCAL, SUFFIX_MAX} \<longrightarrow> small_suffix_version s = 0"
proof -
  show "small_suffix_kind s \<le> SUFFIX_MAX"
    using assms by (simp add: ok_version_def wf_small_def)
  show "small_suffix_version s < u64_MAX"
    using unat_seg_less [of 0 20 "repr s"] by (simp add: version_seg word_less_nat_alt)
  have "small_suffix_kind s = SUFFIX_NONE \<or> small_suffix_kind s = SUFFIX_LOCAL \<longrightarrow>
      small_suffix_version s = 0"
    using assms by (simp add: ok_version_def wf_small_def)
  moreover have "small_suffix_kind s = SUFFIX_MAX \<longrightarrow> small_suffix_version s = 0"
    using assms by (simp add: ok_version_def small_max_def v_small_simps split: if_splits)
  ultimately show "small_suffix_kind s \<in> {SUFFIX_NONE, SUFFIX_LOCAL, SUFFIX_MAX} \<longrightarrow>
      small_suffix_version s = 0" by blast
qed

lemma small_cmp_slow:
  assumes "ok_version (Small s)" "ok_version (Small t)"
  shows "cmp_of (repr s) (repr t) = cmp_slow (Small s) (Small t)"
proof -
  let ?rel = "\<lambda>u. [seg 48 16 (repr u), seg 40 8 (repr u), seg 32 8 (repr u), seg 24 8 (repr u)]"
  from assms have wf: "wf_small s" "wf_small t" by (simp_all add: ok_version_def)
  have "cmp_of (packed_tuple (small_suffix_kind s) (small_suffix_version s))
      (packed_tuple (small_suffix_kind t) (small_suffix_version t)) =
      cmp_of (small_suffix_kind s, small_suffix_version s) (small_suffix_kind t, small_suffix_version t)"
    by (intro cmp_packed_tuple ok_small_suffix assms)
  then have "cmp_slow (Small s) (Small t) = then_with (cmp_of (?rel s) (?rel t))
      (cmp_of (small_suffix_kind s, small_suffix_version s) (small_suffix_kind t, small_suffix_version t))"
    by (simp add: cmp_slow_key version_key_def cmp_of_Pair release_Small_padded wf
        cmp_of_trim_zeros sortable_tuple_Small small_epoch_def v_epoch.simps
        del: trim_zeros_Cons)
  also have "\<dots> = cmp_of (repr s) (repr t)"
    by (subst cmp_repr) (simp add: cmp_simps kind_seg version_seg then_with_assoc)
  finally show ?thesis ..
qed

lemma version_cmp_key:
  assumes "ok_version v" "ok_version w"
  shows "version_cmp v w = cmp_of (version_key v) (version_key w)"
  using assms small_cmp_slow
  by (cases v; cases w) (simp_all add: cmp_slow_key [symmetric])

interpretation vcmp: keyed_cmp version_cmp version_key ok_version
  by unfold_locales (rule version_cmp_key)


lemma version_order_keys:
  assumes "ok_version v" "ok_version w"
  shows "version_eq v w \<longleftrightarrow> version_key v = version_key w"
    and "version_less v w \<longleftrightarrow> version_key v < version_key w"
    and "version_le v w \<longleftrightarrow> version_key v \<le> version_key w"
  by (auto simp: version_eq_def version_less_def version_le_def version_cmp_key [OF assms])

lemma public_ok: "public_version v \<Longrightarrow> ok_version v"
  by (simp add: public_version_def ok_version_def)

lemma sortable_tuple_inject:
  assumes "public_version v" "public_version w" "sortable_tuple v = sortable_tuple w"
  shows "v_pre v = v_pre w \<and> v_post v = v_post w \<and> v_dev v = v_dev w \<and> v_local v = v_local w"
proof (cases "v_pre v"; cases "v_pre w")
qed (use assms in \<open>auto simp: sortable_tuple_def sortable_tuple_with_def public_version_def unwrap_or_def Let_def
      split: option.splits prerelease_kind.splits\<close>)

lemma version_eq_hash:
  assumes "public_version v" "public_version w" "version_eq v w"
  shows "version_hash v = version_hash w"
proof -
  have "version_key v = version_key w"
    using assms by (simp add: version_eq_def version_cmp_key public_ok)
  moreover have "dropWhile (\<lambda>x. x = 0) (rev xs) = rev (trim_zeros xs)" for xs :: "u64 list"
    by (simp add: trim_zeros_def)
  ultimately show ?thesis
    using sortable_tuple_inject [OF assms(1,2)] by (simp add: version_hash_def version_key_def)
qed

lemma set_post_dev_None:
  assumes "ok_version (Small s)"
  defines "t \<equiv> snd (small_set_dev None (snd (small_set_post None s)))"
  shows "ok_version (Small t) \<and> make_full (Small t) = (make_full (Small s))\<lparr>full_post := None, full_dev := None\<rparr>"
proof -
  have "with_post None (Small s) = Small (snd (small_set_post None s))"
    by (simp add: with_post_def small_set_post_def Let_def)
  moreover have "with_dev None (Small u) = Small (snd (small_set_dev None u))" for u
    by (simp add: with_dev_def small_set_dev_def Let_def)
  ultimately have t: "with_dev None (with_post None (Small s)) = Small t"
    by (simp add: t_def)
  with assms show ?thesis
    using with_post_full [of "Small s" None] with_dev_full [of "with_post None (Small s)" None]
    by (simp add: ok_version_def v_fields)
qed

lemma without_post_and_dev_eq_slow_eq:
  assumes "ok_version v" "ok_version w"
  shows "without_post_and_dev_eq v w \<longleftrightarrow> without_post_and_dev_eq_slow v w"
proof (cases "\<exists>s t. v = Small s \<and> w = Small t")
  case True
  then obtain s t where v: "v = Small s" and w: "w = Small t" by blast
  define b where "b = snd (small_set_dev None (snd (small_set_post None s)))"
  have b: "ok_version (Small b)"
    "make_full (Small b) = (make_full (Small s))\<lparr>full_post := None, full_dev := None\<rparr>"
    using set_post_dev_None [of s] assms(1) v b_def by auto
  then have same: "v_epoch (Small b) = v_epoch (Small s)" "v_release (Small b) = v_release (Small s)"
    "v_pre (Small b) = v_pre (Small s)" "v_post (Small b) = None" "v_dev (Small b) = None"
    "v_local (Small b) = v_local (Small s)" "v_min (Small b) = v_min (Small s)"
    "v_max (Small b) = v_max (Small s)"
    by (simp_all add: v_fields)
  have tuple: "sortable_tuple (Small b) = sortable_tuple_with (Small s) None None"
    unfolding sortable_tuple_def sortable_tuple_with_def same by (rule refl)
  have "without_post_and_dev_eq v w \<longleftrightarrow> version_cmp (Small b) (Small t) = EQ"
    by (simp add: v w b_def)
  also have "\<dots> \<longleftrightarrow> version_key (Small b) = version_key (Small t)"
    using b(1) assms(2) w by (subst version_cmp_key) simp_all
  also have "\<dots> \<longleftrightarrow> without_post_and_dev_eq_slow v w"
    by (simp add: version_key_def without_post_and_dev_eq_slow_def compare_release_key v w
        same(1,2) tuple)
  finally show ?thesis .
next
  case False
  then show ?thesis by (cases v; cases w) auto
qed

lemma map_upt_split:
  assumes "i < n"
  shows "map f [0..<n] = map f [0..<i] @ f i # map f [Suc i..<n]"
proof -
  have "[0..<n] = [0..<i] @ [i..<n]"
    using upt_add_eq_append [of 0 i "n - i"] assms by simp
  then show ?thesis using assms by (simp add: upt_conv_Cons)
qed

text \<open>Comparing release lists: a common prefix, then a greater number, decides.\<close>

lemma trim_zeros_less_append:
  assumes "x < y" "length xs = length ys"
  shows "trim_zeros (zs @ x # xs) < trim_zeros (zs @ y # ys)"
proof -
  have "zs @ x # xs < zs @ y # ys"
    using assms(1) by (induction zs) simp_all
  moreover have "length (zs @ x # xs) = length (zs @ y # ys)"
    using assms(2) by simp
  ultimately show ?thesis
    using cmp_of_trim_zeros cmp_of_LT_iff by metis
qed

lemma trim_zeros_bump:
  assumes "i < n" "length xs \<le> n" "nth_or_zero xs i < u64_MAX"
  shows "trim_zeros xs < trim_zeros (map (bump_release_part xs i None) [0..<n])"
proof -
  let ?b = "bump_release_part xs i None"
  have pad: "zero_padded n xs = map (nth_or_zero xs) [0..<n]"
    using assms(2) by (intro nth_equalityI) (auto simp: zero_padded_def nth_or_zero_def nth_append)
  have pre: "map ?b [0..<i] = map (nth_or_zero xs) [0..<i]"
    by (simp add: bump_release_part_def)
  have "nth_or_zero xs i < ?b i"
    using assms(3) by (simp add: bump_release_part_def)
  then have "trim_zeros (map (nth_or_zero xs) [0..<n]) < trim_zeros (map ?b [0..<n])"
    unfolding map_upt_split [OF assms(1)] pre by (intro trim_zeros_less_append) simp_all
  then show ?thesis
    using trim_zeros_padded [OF assms(2)] by (simp add: pad)
qed

text \<open>
  C7. Bumping a release segment without an explicit value yields a strictly greater version, whichever
  segment is bumped and whatever suffixes the version had, unless that segment is at the integer limit.
\<close>

theorem bump_release_increases:
  assumes "ok_version v" "nth_or_zero (v_release v) i < u64_MAX"
  shows "version_less v (bump (BumpRelease i None) v)"
proof -
  have "ok_version (bump (BumpRelease i None) v)"
    using assms(1) by (simp add: ok_version_def bump_def v_fields)
  moreover have "version_key v < version_key (bump (BumpRelease i None) v)"
    using trim_zeros_bump [OF _ _ assms(2), of "max (length (v_release v)) (i + 1)"]
    by (simp add: version_key_def bump_def v_fields)
  ultimately show ?thesis
    using assms(1) by (simp add: version_less_def version_cmp_key)
qed

text \<open>
  C3. Two public versions that \<open>==\<close> considers equal feed the same data to the hasher, so versions can
  key hash maps although \<open>1.0\<close> equals \<open>1.0.0\<close> and the same version may be packed or not.
\<close>

theorem eq_hash:
  assumes "public_version v" "public_version w" "version_eq v w"
  shows "version_hash v = version_hash w"
  using assms by (rule version_eq_hash)

theorem eq_hash_witness:
  "version_hash (Small \<lparr>repr = 0x0001020000500000, len = 2\<rparr>) =
   version_hash (Full (plain_full [1, 2, 0]))"
proof (rule eq_hash)
  show "public_version (Small \<lparr>repr = 0x0001020000500000, len = 2\<rparr>)" by code_simp
  show "public_version (Full (plain_full [1, 2, 0]))" by code_simp
  show "version_eq (Small \<lparr>repr = 0x0001020000500000, len = 2\<rparr>) (Full (plain_full [1, 2, 0]))"
    by code_simp
qed

text \<open>
  C6. The allocation-free word comparison of \<open>without_post_and_dev_eq\<close> on packed versions decides the
  same relation as the component-wise definition.
\<close>

theorem without_post_and_dev_eq_refines:
  assumes "ok_version v" "ok_version w"
  shows "without_post_and_dev_eq v w \<longleftrightarrow> without_post_and_dev_eq_slow v w"
  using assms by (rule without_post_and_dev_eq_slow_eq)

theorem without_post_and_dev_eq_witness:
  "without_post_and_dev_eq (Small \<lparr>repr = 0x0001020000700003, len = 2\<rparr>)
     (Small \<lparr>repr = 0x0001020000500000, len = 3\<rparr>) \<longleftrightarrow>
   without_post_and_dev_eq_slow (Small \<lparr>repr = 0x0001020000700003, len = 2\<rparr>)
     (Small \<lparr>repr = 0x0001020000500000, len = 3\<rparr>)"
proof (rule without_post_and_dev_eq_refines)
  show "ok_version (Small \<lparr>repr = 0x0001020000700003, len = 2\<rparr>)" by code_simp
  show "ok_version (Small \<lparr>repr = 0x0001020000500000, len = 3\<rparr>)" by code_simp
qed

theorem bump_release_increases_witness:
  "version_less (Small \<lparr>repr = 0x0001020000700003, len = 2\<rparr>)
     (bump (BumpRelease 2 None) (Small \<lparr>repr = 0x0001020000700003, len = 2\<rparr>))"
proof (rule bump_release_increases)
  show "ok_version (Small \<lparr>repr = 0x0001020000700003, len = 2\<rparr>)" by code_simp
  show "nth_or_zero (v_release (Small \<lparr>repr = 0x0001020000700003, len = 2\<rparr>)) 2 < u64_MAX"
    by code_simp
qed

section \<open>Properties of the order\<close>

text \<open>
  C1. Comparing two packed versions by their 64-bit words gives the same result as the full PEP 440
  comparison of the components they encode.
\<close>

theorem packed_cmp_refines:
  assumes "ok_version (Small s)" "ok_version (Small t)"
  shows "version_cmp (Small s) (Small t) = cmp_slow (Small s) (Small t)"
  using small_cmp_slow [OF assms] by simp

theorem packed_cmp_refines_witness:
  "version_cmp (Small \<lparr>repr = 0x07E70C0000100007, len = 2\<rparr>)
     (Small \<lparr>repr = 0x07E70C0000200001, len = 4\<rparr>) =
   cmp_slow (Small \<lparr>repr = 0x07E70C0000100007, len = 2\<rparr>)
     (Small \<lparr>repr = 0x07E70C0000200001, len = 4\<rparr>)"
proof (rule packed_cmp_refines)
  show "ok_version (Small \<lparr>repr = 0x07E70C0000100007, len = 2\<rparr>)" by code_simp
  show "ok_version (Small \<lparr>repr = 0x07E70C0000200001, len = 4\<rparr>)" by code_simp
qed

text \<open>
  C2. \<open>Ord for Version\<close> is a total order up to the equality it defines, whatever mix of packed and
  full representations is compared: reflexive, antisymmetric in its result, transitive, and equal
  versions compare alike with any third one.
\<close>

theorem version_cmp_total_order:
  assumes "ok_version x" "ok_version y" "ok_version z"
  shows "version_cmp x x = EQ \<and>
    version_cmp y x = rev_ordering (version_cmp x y) \<and>
    (version_cmp x y \<noteq> GT \<longrightarrow> version_cmp y z \<noteq> GT \<longrightarrow> version_cmp x z \<noteq> GT) \<and>
    (version_cmp x y = EQ \<longrightarrow> version_cmp x z = version_cmp y z)"
  using vcmp.cmp_refl vcmp.cmp_sym vcmp.cmp_trans vcmp.cmp_eq_cong assms by blast

theorem version_cmp_total_order_witness:
  "version_cmp (Small \<lparr>repr = 0x0001020000500000, len = 2\<rparr>) (Full (plain_full [1, 3])) \<noteq> GT"
proof -
  let ?x = "Small \<lparr>repr = 0x0001020000500000, len = 2\<rparr>"
  let ?y = "Full (plain_full [1, 2, 0])"
  let ?z = "Full (plain_full [1, 3])"
  have "ok_version ?x" "ok_version ?y" "ok_version ?z" by code_simp+
  moreover have "version_cmp ?x ?y \<noteq> GT" "version_cmp ?y ?z \<noteq> GT" by code_simp+
  ultimately show ?thesis using version_cmp_total_order [of ?x ?y ?z] by blast
qed


end
