(* ===== verification/VersionParse.thy ===== *)
theory VersionParse
  imports VersionOrder
begin

text \<open>
  The hand-written PEP 440 parser of \<open>crates/uv-pep440/src/version.rs\<close> (\<open>Parser\<close> and its helpers
  \<open>ReleaseNumbers\<close>, \<open>StringSet\<close>, \<open>ByteSet\<close>, \<open>parse_u64\<close>), the \<open>Display\<close> of versions, and the
  \<open>FromStr\<close> implementations built on them.

  The parser's state is the record \<open>parser\<close>; each method maps a state to a result and the next
  state. Slices and indices out of range, failed assertions and \<open>expect\<close>s are the result \<open>Inl Panic\<close>,
  parse errors are \<open>Inl (Err e)\<close> with the error kinds of the source. Byte strings that the source
  shows lossily decoded in an error message are kept as the bytes themselves.
\<close>

section \<open>Errors\<close>

datatype error_kind =
    Wildcard
  | InvalidDigit char
  | NumberTooBig string
  | NoLeadingNumber
  | NoLeadingReleaseNumber
  | LocalEmpty char
  | UnexpectedEnd string string

datatype pattern_error_kind = PatternVersion error_kind | WildcardNotTrailing

section \<open>Numbers\<close>

definition u8_checked_sub :: "nat \<Rightarrow> nat \<Rightarrow> nat option" where
  "u8_checked_sub a b = (if b \<le> a then Some (a - b) else None)"

definition u8_wrapping_sub :: "nat \<Rightarrow> nat \<Rightarrow> nat" where
  "u8_wrapping_sub a b = (a + 256 - b) mod 256"

definition u8_checked_mul :: "nat \<Rightarrow> nat \<Rightarrow> nat option" where
  "u8_checked_mul a b = (if a * b < 256 then Some (a * b) else None)"

definition u8_checked_add :: "nat \<Rightarrow> nat \<Rightarrow> nat option" where
  "u8_checked_add a b = (if a + b < 256 then Some (a + b) else None)"

fun parse_u64_loop :: "string \<Rightarrow> u64 \<Rightarrow> string \<Rightarrow> (error_kind, u64) res" where
  "parse_u64_loop bytes n [] = Inr n"
| "parse_u64_loop bytes n (byte # rest) =
     (case u8_checked_sub (byte_val byte) 48 of
        None \<Rightarrow> Inl (Err (InvalidDigit byte))
      | Some digit \<Rightarrow>
          if 9 < digit then Inl (Err (InvalidDigit byte))
          else (case Option.bind (checked_mul n 10) (\<lambda>n. checked_add n (of_nat digit)) of
                  None \<Rightarrow> Inl (Err (NumberTooBig bytes))
                | Some n \<Rightarrow> parse_u64_loop bytes n rest))"

definition parse_u64 :: "string \<Rightarrow> (error_kind, u64) res" where
  "parse_u64 bytes = parse_u64_loop bytes 0 bytes"

section \<open>Sets of bytes and of strings\<close>

text \<open>The table of a \<open>ByteSet\<close>, as the function from a byte to its entry.\<close>

type_synonym byte_set = "char \<Rightarrow> bool"

fun byte_set_new :: "char list \<Rightarrow> byte_set" where
  "byte_set_new [] = (\<lambda>_. False)"
| "byte_set_new (b # bs) =
     (byte_set_new bs)(to_ascii_uppercase b := True, to_ascii_lowercase b := True)"

definition byte_set_starts_with :: "byte_set \<Rightarrow> string \<Rightarrow> char option" where
  "byte_set_starts_with bset haystack =
     (case haystack of [] \<Rightarrow> None | byte # _ \<Rightarrow> if bset byte then Some byte else None)"

definition starts_with_ignore_ascii_case :: "string \<Rightarrow> string \<Rightarrow> bool" where
  "starts_with_ignore_ascii_case needle haystack \<longleftrightarrow>
     length needle \<le> length haystack \<and>
     list_all (\<lambda>(b1, b2). eq_ignore_ascii_case b1 b2) (zip needle haystack)"

record string_set =
  first_byte :: byte_set
  strings :: "string list"

text \<open>The constructor fills an array of 20 first bytes, so the padding byte 0 is in the set as well.\<close>

definition string_set_new :: "string list \<Rightarrow> string_set option" where
  "string_set_new ss =
     (if length ss \<le> 20 \<and> list_all (\<lambda>s. s \<noteq> []) ss
      then Some \<lparr>first_byte = byte_set_new (map hd ss @ replicate (20 - length ss) (CHR 0x00)), strings = ss\<rparr>
      else None)"

fun find_prefix :: "char \<Rightarrow> string \<Rightarrow> string list \<Rightarrow> nat option" where
  "find_prefix b haystack [] = None"
| "find_prefix b haystack (s # ss) =
     (if eq_ignore_ascii_case (hd s) b \<and> starts_with_ignore_ascii_case s haystack then Some 0
      else map_option Suc (find_prefix b haystack ss))"

definition string_set_starts_with :: "string_set \<Rightarrow> string \<Rightarrow> nat option" where
  "string_set_starts_with sset haystack =
     (case byte_set_starts_with (first_byte sset) haystack of
        None \<Rightarrow> None
      | Some b \<Rightarrow> find_prefix b haystack (strings sset))"

section \<open>Release numbers\<close>

datatype release_numbers = Inline "u64 list" nat | Vec "u64 list"

definition release_numbers_new :: release_numbers where
  "release_numbers_new = Inline [0, 0, 0, 0] 0"

fun release_numbers_push :: "u64 \<Rightarrow> release_numbers \<Rightarrow> release_numbers option" where
  "release_numbers_push n (Inline numbers l) =
     (if l \<le> 4
      then Some (if l = 4 then Vec (numbers @ [n]) else Inline (numbers[l := n]) (l + 1))
      else None)"
| "release_numbers_push n (Vec numbers) = Some (Vec (numbers @ [n]))"

fun release_numbers_as_slice :: "release_numbers \<Rightarrow> u64 list" where
  "release_numbers_as_slice (Inline numbers l) = take l numbers"
| "release_numbers_as_slice (Vec vec) = vec"

definition release_numbers_len :: "release_numbers \<Rightarrow> nat" where
  "release_numbers_len r = length (release_numbers_as_slice r)"

section \<open>The parser's state and primitive moves\<close>

record parser =
  p_v :: string
  p_i :: nat
  p_epoch :: u64
  p_release :: release_numbers
  p_pre :: "prerelease option"
  p_post :: "u64 option"
  p_dev :: "u64 option"
  p_local :: "local_segment list"
  p_wildcard :: bool

record version_pattern =
  vp_version :: version
  vp_wildcard :: bool

type_synonym 'a presult = "(pattern_error_kind, 'a \<times> parser) res"

definition SEPARATOR :: byte_set where
  "SEPARATOR = byte_set_new ''._-''"

definition parser_new :: "string \<Rightarrow> parser" where
  "parser_new s = \<lparr>p_v = s, p_i = 0, p_epoch = 0, p_release = release_numbers_new, p_pre = None,
     p_post = None, p_dev = None, p_local = [], p_wildcard = False\<rparr>"

definition is_done :: "parser \<Rightarrow> bool" where
  "is_done p \<longleftrightarrow> length (p_v p) \<le> p_i p"

text \<open>The slices \<open>&v[i..]\<close> and \<open>&v[a..b]\<close>.\<close>

definition slice_from :: "string \<Rightarrow> nat \<Rightarrow> ('e, string) res" where
  "slice_from s i = (if i \<le> length s then Inr (drop i s) else Inl Panic)"

definition slice :: "string \<Rightarrow> nat \<Rightarrow> nat \<Rightarrow> ('e, string) res" where
  "slice s a b = (if a \<le> b \<and> b \<le> length s then Inr (take (b - a) (drop a s)) else Inl Panic)"

function bump_while_pos :: "(char \<Rightarrow> bool) \<Rightarrow> string \<Rightarrow> nat \<Rightarrow> nat" where
  "bump_while_pos P s i = (if i < length s \<and> P (s ! i) then bump_while_pos P s (i + 1) else i)"
  by pat_completeness auto
termination by (relation "measure (\<lambda>(P, s, i). length s - i)") auto

declare bump_while_pos.simps [simp del]

definition bump_while :: "(char \<Rightarrow> bool) \<Rightarrow> parser \<Rightarrow> string presult" where
  "bump_while P p =
     (let j = bump_while_pos P (p_v p) (p_i p)
      in bind_res (slice (p_v p) (p_i p) j) (\<lambda>s. Inr (s, p\<lparr>p_i := j\<rparr>)))"

definition bump_if :: "string \<Rightarrow> parser \<Rightarrow> bool presult" where
  "bump_if s p =
     (if is_done p then Inr (False, p)
      else bind_res (slice_from (p_v p) (p_i p)) (\<lambda>rest.
        if starts_with_ignore_ascii_case s rest then Inr (True, p\<lparr>p_i := p_i p + length s\<rparr>)
        else Inr (False, p)))"

definition bump_if_string_set :: "string_set \<Rightarrow> parser \<Rightarrow> nat option presult" where
  "bump_if_string_set sset p =
     bind_res (slice_from (p_v p) (p_i p)) (\<lambda>rest.
       case string_set_starts_with sset rest of
         None \<Rightarrow> Inr (None, p)
       | Some index \<Rightarrow> Inr (Some index, p\<lparr>p_i := p_i p + length (strings sset ! index)\<rparr>))"

definition bump_if_byte_set :: "byte_set \<Rightarrow> parser \<Rightarrow> char option presult" where
  "bump_if_byte_set bset p =
     bind_res (slice_from (p_v p) (p_i p)) (\<lambda>rest.
       case byte_set_starts_with bset rest of
         None \<Rightarrow> Inr (None, p)
       | Some found \<Rightarrow> Inr (Some found, p\<lparr>p_i := p_i p + 1\<rparr>))"

definition unbump :: "parser \<Rightarrow> unit presult" where
  "unbump p = (if p_i p = 0 then Inl Panic else Inr ((), p\<lparr>p_i := p_i p - 1\<rparr>))"

definition reset :: "nat \<Rightarrow> parser \<Rightarrow> unit presult" where
  "reset offset p = (if offset \<le> length (p_v p) then Inr ((), p\<lparr>p_i := offset\<rparr>) else Inl Panic)"

definition push_number :: "u64 \<Rightarrow> parser \<Rightarrow> unit presult" where
  "push_number n p =
     bind_res (or_panic (release_numbers_push n (p_release p))) (\<lambda>r. Inr ((), p\<lparr>p_release := r\<rparr>))"

section \<open>The components of a version\<close>

definition map_err :: "('e \<Rightarrow> 'f) \<Rightarrow> ('e, 'a) res \<Rightarrow> ('f, 'a) res" where
  "map_err f r =
     (case r of Inl (Err e) \<Rightarrow> Inl (Err (f e)) | Inl Panic \<Rightarrow> Inl Panic | Inr x \<Rightarrow> Inr x)"

definition ok_or :: "'e \<Rightarrow> 'a option \<times> 's \<Rightarrow> ('e, 'a \<times> 's) res" where
  "ok_or e r = (case r of (None, _) \<Rightarrow> Inl (Err e) | (Some x, s) \<Rightarrow> Inr (x, s))"

definition parse_number :: "parser \<Rightarrow> u64 option presult" where
  "parse_number p =
     bind_res (bump_while is_ascii_digit p) (\<lambda>(digits, p).
       if digits = [] then Inr (None, p)
       else bind_res (map_err PatternVersion (parse_u64 digits)) (\<lambda>n.
         if n = u64_MAX then Inl (Err (PatternVersion (NumberTooBig digits)))
         else Inr (Some n, p)))"

definition parse_epoch_and_initial_release :: "parser \<Rightarrow> unit presult" where
  "parse_epoch_and_initial_release p =
     bind_res (bind_res (parse_number p) (ok_or (PatternVersion NoLeadingNumber))) (\<lambda>(first_number, p).
     bind_res (bump_if ''!'' p) (\<lambda>(bang, p).
     bind_res (if bang
               then bind_res (parse_number (p\<lparr>p_epoch := first_number\<rparr>))
                      (ok_or (PatternVersion NoLeadingReleaseNumber))
               else Inr (first_number, p)) (\<lambda>(first_release_number, p).
     push_number first_release_number p)))"

text \<open>
  The loop of \<open>parse_rest_of_release\<close>: every round consumes a dot, so it ends.
\<close>

lemma bump_while_pos_le: "i \<le> bump_while_pos P s i"
  by (induction P s i rule: bump_while_pos.induct) (subst bump_while_pos.simps, auto)

lemma bump_while_le:
  "bump_while P p = Inr (s, p') \<Longrightarrow> p_v p' = p_v p \<and> p_i p \<le> p_i p' \<and> p_i p' \<le> length (p_v p) \<and>
     p_i p' = p_i p + length s"
  using bump_while_pos_le [of "p_i p" P "p_v p"]
  by (auto simp: bump_while_def Let_def slice_def bind_res_eq_Inr_iff split: if_splits)

lemma bump_if_le:
  "bump_if s p = Inr (b, p') \<Longrightarrow> p_v p' = p_v p \<and> p_i p \<le> p_i p' \<and>
     (b \<longrightarrow> p_i p' = p_i p + length s \<and> p_i p' \<le> length (p_v p))"
  by (auto simp: bump_if_def slice_from_def starts_with_ignore_ascii_case_def is_done_def
      split: if_splits)

lemma bump_if_byte_set_le:
  "bump_if_byte_set bs p = Inr (b, p') \<Longrightarrow> p_v p' = p_v p \<and> p_i p \<le> p_i p' \<and> p_i p \<le> length (p_v p)"
  by (auto simp: bump_if_byte_set_def slice_from_def bind_res_eq_Inr_iff split: if_splits option.splits)

lemma parse_number_le:
  "parse_number p = Inr (b, p') \<Longrightarrow> p_v p' = p_v p \<and> p_i p \<le> p_i p' \<and> p_i p' \<le> length (p_v p)"
  by (auto simp: parse_number_def bind_res_eq_Inr_iff split: if_splits dest: bump_while_le)

lemma push_number_le:
  "push_number n p = Inr (b, p') \<Longrightarrow> p_v p' = p_v p \<and> p_i p' = p_i p"
  by (auto simp: push_number_def bind_res_eq_Inr_iff)

function parse_rest_of_release :: "parser \<Rightarrow> unit presult" where
  "parse_rest_of_release p =
     bind_res (bump_if ''.'' p) (\<lambda>(dot, p1).
       if \<not> dot then Inr ((), p1)
       else bind_res (parse_number p1) (\<lambda>(number, p2).
         case number of
           None \<Rightarrow> unbump p2
         | Some n \<Rightarrow> bind_res (push_number n p2) (\<lambda>(_, p3). parse_rest_of_release p3)))"
  by pat_completeness auto
termination
  by (relation "measure (\<lambda>p. length (p_v p) - p_i p)")
    (auto dest!: bump_if_le parse_number_le push_number_le)

declare parse_rest_of_release.simps [simp del]

definition parse_wildcard :: "parser \<Rightarrow> bool presult" where
  "parse_wildcard p =
     bind_res (bump_if ''.*'' p) (\<lambda>(found, p).
       if \<not> found then Inr (False, p)
       else if \<not> is_done p then Inl (Err WildcardNotTrailing)
       else Inr (True, p\<lparr>p_wildcard := True\<rparr>))"

definition PRE_SPELLINGS :: "string list" where
  "PRE_SPELLINGS = [''alpha'', ''beta'', ''preview'', ''pre'', ''rc'', ''a'', ''b'', ''c'']"

definition PRE_MAP :: "prerelease_kind list" where
  "PRE_MAP = [Alpha, Beta, Rc, Rc, Rc, Alpha, Beta, Rc]"

definition parse_pre :: "parser \<Rightarrow> unit presult" where
  "parse_pre p =
     bind_res (or_panic (string_set_new PRE_SPELLINGS)) (\<lambda>SPELLINGS.
     let oldpos = p_i p in
     bind_res (bump_if_byte_set SEPARATOR p) (\<lambda>(_, p).
     bind_res (bump_if_string_set SPELLINGS p) (\<lambda>(spelling, p).
       case spelling of
         None \<Rightarrow> reset oldpos p
       | Some spelling \<Rightarrow>
           if spelling < length PRE_MAP then
             bind_res (bump_if_byte_set SEPARATOR p) (\<lambda>(_, p).
             bind_res (parse_number p) (\<lambda>(n, p).
               Inr ((), p\<lparr>p_pre := Some \<lparr>kind = PRE_MAP ! spelling, number = unwrap_or n 0\<rparr>\<rparr>)))
           else Inl Panic)))"

definition POST_SPELLINGS :: "string list" where
  "POST_SPELLINGS = [''post'', ''rev'', ''r'']"

definition parse_post_spelled :: "nat \<Rightarrow> parser \<Rightarrow> unit presult" where
  "parse_post_spelled oldpos p =
     bind_res (or_panic (string_set_new POST_SPELLINGS)) (\<lambda>SPELLINGS.
     bind_res (bump_if_byte_set SEPARATOR p) (\<lambda>(_, p).
     bind_res (bump_if_string_set SPELLINGS p) (\<lambda>(spelling, p).
       if spelling = None then reset oldpos p
       else
         bind_res (bump_if_byte_set SEPARATOR p) (\<lambda>(_, p).
         bind_res (parse_number p) (\<lambda>(n, p). Inr ((), p\<lparr>p_post := Some (unwrap_or n 0)\<rparr>))))))"

definition parse_post :: "parser \<Rightarrow> unit presult" where
  "parse_post p =
     (let oldpos = p_i p in
      bind_res (bump_if ''-'' p) (\<lambda>(dash, p).
        if dash then
          bind_res (parse_number p) (\<lambda>(n, p).
            case n of
              Some n \<Rightarrow> Inr ((), p\<lparr>p_post := Some n\<rparr>)
            | None \<Rightarrow> bind_res (reset oldpos p) (\<lambda>(_, p). parse_post_spelled oldpos p))
        else parse_post_spelled oldpos p))"

definition parse_dev :: "parser \<Rightarrow> unit presult" where
  "parse_dev p =
     (let oldpos = p_i p in
      bind_res (bump_if_byte_set SEPARATOR p) (\<lambda>(_, p).
      bind_res (bump_if ''dev'' p) (\<lambda>(found, p).
        if \<not> found then reset oldpos p
        else
          bind_res (bump_if_byte_set SEPARATOR p) (\<lambda>(_, p).
          bind_res (parse_number p) (\<lambda>(n, p). Inr ((), p\<lparr>p_dev := Some (unwrap_or n 0)\<rparr>))))))"

definition local_segment_of :: "string \<Rightarrow> (pattern_error_kind, local_segment) res" where
  "local_segment_of bytes =
     (case parse_u64 bytes of
        Inr n \<Rightarrow> Inr (Number n)
      | Inl Panic \<Rightarrow> Inl Panic
      | Inl (Err _) \<Rightarrow> Inr (String (map to_ascii_lowercase bytes)))"

function parse_local_loop :: "char \<Rightarrow> parser \<Rightarrow> unit presult" where
  "parse_local_loop precursor p =
     bind_res (bump_while is_ascii_alphanumeric p) (\<lambda>(bytes, p1).
       if bytes = [] then Inl (Err (PatternVersion (LocalEmpty precursor)))
       else bind_res (local_segment_of bytes) (\<lambda>segment.
         bind_res (bump_if_byte_set SEPARATOR (p1\<lparr>p_local := p_local p1 @ [segment]\<rparr>)) (\<lambda>(byte, p2).
           case byte of
             None \<Rightarrow> Inr ((), p2)
           | Some b \<Rightarrow> parse_local_loop b p2)))"
  by pat_completeness auto
termination
  by (relation "measure (\<lambda>(_, p). length (p_v p) - p_i p)")
    (auto simp flip: length_greater_0_conv dest!: bump_while_le bump_if_byte_set_le)

declare parse_local_loop.simps [simp del]

definition parse_local :: "parser \<Rightarrow> unit presult" where
  "parse_local p =
     bind_res (bump_if ''+'' p) (\<lambda>(plus, p).
       if \<not> plus then Inr ((), p) else parse_local_loop (CHR ''+'') p)"

section \<open>Whole versions\<close>

definition from_fast_release :: "nat list \<Rightarrow> nat \<Rightarrow> version_pattern" where
  "from_fast_release release l =
     \<lparr>vp_version = Small \<lparr>
        repr = push_bit 48 (of_nat (release ! 0)) OR push_bit 40 (of_nat (release ! 1)) OR
               push_bit 32 (of_nat (release ! 2)) OR push_bit 24 (of_nat (release ! 3)) OR
               push_bit SUFFIX_VERSION_BIT_LEN SUFFIX_NONE,
        len = l\<rparr>,
      vp_wildcard = False\<rparr>"

text \<open>The loop over the bytes in \<open>parse_fast\<close>, with its four local variables.\<close>

fun parse_fast_loop ::
  "string \<Rightarrow> bool \<times> nat \<times> nat list \<times> nat \<Rightarrow> (bool \<times> nat \<times> nat list \<times> nat) option"
where
  "parse_fast_loop [] st = Some st"
| "parse_fast_loop (byte # bytes) (prev_digit, cur, release, l) =
     (if byte = CHR ''.'' then
        if \<not> prev_digit then None
        else if l < length release then parse_fast_loop bytes (False, 0, release[l := cur], l + 1)
        else None
      else
        Option.bind (u8_checked_sub (byte_val byte) 48) (\<lambda>digit.
          if 9 < digit then None
          else
            Option.bind (Option.bind (u8_checked_mul cur 10) (\<lambda>n. u8_checked_add n digit)) (\<lambda>cur.
              parse_fast_loop bytes (True, cur, release, l))))"

definition parse_fast_general :: "string \<Rightarrow> version_pattern option" where
  "parse_fast_general s =
     Option.bind (parse_fast_loop s (False, 0, [0, 0, 0, 0], 0)) (\<lambda>(prev_digit, cur, release, l).
       if \<not> prev_digit then None
       else if l < length release then Some (from_fast_release (release[l := cur]) (l + 1))
       else None)"

definition parse_fast :: "parser \<Rightarrow> version_pattern option" where
  "parse_fast p =
     (case p_v p of
        [major, dot1, minor, dot2, patch] \<Rightarrow>
          let major = u8_wrapping_sub (byte_val major) 48;
              minor = u8_wrapping_sub (byte_val minor) 48;
              patch = u8_wrapping_sub (byte_val patch) 48
          in if dot1 = CHR ''.'' \<and> dot2 = CHR ''.'' \<and> major \<le> 9 \<and> minor \<le> 9 \<and> patch \<le> 9
             then Some (from_fast_release [major, minor, patch, 0] 3)
             else parse_fast_general (p_v p)
      | _ \<Rightarrow> parse_fast_general (p_v p))"

definition into_pattern :: "parser \<Rightarrow> version_pattern option" where
  "into_pattern p =
     (if release_numbers_len (p_release p) = 0 then None
      else map_option (\<lambda>version.
        \<lparr>vp_version =
           with_local (Segments (p_local p)) (with_dev (p_dev p) (with_post (p_post p)
             (with_pre (p_pre p) (with_epoch (p_epoch p) version)))),
         vp_wildcard = p_wildcard p\<rparr>)
        (version_new (release_numbers_as_slice (p_release p))))"

text \<open>\<open>parse_pattern\<close> after its attempt at the fast parse.\<close>

definition parse_slow :: "parser \<Rightarrow> (pattern_error_kind, version_pattern) res" where
  "parse_slow p =
     bind_res (bump_while is_ascii_whitespace p) (\<lambda>(_, p).
     bind_res (bump_if ''v'' p) (\<lambda>(_, p).
     bind_res (parse_epoch_and_initial_release p) (\<lambda>(_, p).
     bind_res (parse_rest_of_release p) (\<lambda>(_, p).
     bind_res (parse_wildcard p) (\<lambda>(wildcard, p).
       if wildcard then or_panic (into_pattern p)
       else
         bind_res (parse_pre p) (\<lambda>(_, p).
         bind_res (parse_post p) (\<lambda>(_, p).
         bind_res (parse_dev p) (\<lambda>(_, p).
         bind_res (parse_local p) (\<lambda>(_, p).
         bind_res (bump_while is_ascii_whitespace p) (\<lambda>(_, p).
           if \<not> is_done p then
             bind_res (slice (p_v p) 0 (p_i p)) (\<lambda>version.
             bind_res (slice_from (p_v p) (p_i p)) (\<lambda>remaining.
               Inl (Err (PatternVersion (UnexpectedEnd version remaining)))))
           else or_panic (into_pattern p)))))))))))"

definition parse_pattern :: "parser \<Rightarrow> (pattern_error_kind, version_pattern) res" where
  "parse_pattern p = (case parse_fast p of Some vpat \<Rightarrow> Inr vpat | None \<Rightarrow> parse_slow p)"

definition parse :: "parser \<Rightarrow> (error_kind, version) res" where
  "parse p =
     (case parse_pattern p of
        Inr vpat \<Rightarrow> if vp_wildcard vpat then Inl (Err Wildcard) else Inr (vp_version vpat)
      | Inl (Err (PatternVersion e)) \<Rightarrow> Inl (Err e)
      | Inl (Err WildcardNotTrailing) \<Rightarrow> Inl (Err Wildcard)
      | Inl Panic \<Rightarrow> Inl Panic)"

definition version_from_str :: "string \<Rightarrow> (error_kind, version) res" where
  "version_from_str s = parse (parser_new s)"

definition pattern_from_str :: "string \<Rightarrow> (pattern_error_kind, version_pattern) res" where
  "pattern_from_str s = parse_pattern (parser_new s)"

section \<open>Display\<close>

fun show_kind :: "prerelease_kind \<Rightarrow> string" where
  "show_kind Alpha = ''a''"
| "show_kind Beta = ''b''"
| "show_kind Rc = ''rc''"

fun show_segment :: "local_segment \<Rightarrow> string" where
  "show_segment (String s) = s"
| "show_segment (Number n) = show_u64 n"

fun show_dotted :: "string list \<Rightarrow> string" where
  "show_dotted [] = []"
| "show_dotted (x # xs) = x @ concat (map (\<lambda>y. CHR ''.'' # y) xs)"

fun show_local :: "local_version \<Rightarrow> string" where
  "show_local (Segments segments) = show_dotted (map show_segment segments)"
| "show_local Max = ''[max]''"

fun show_pre :: "prerelease option \<Rightarrow> string" where
  "show_pre None = []"
| "show_pre (Some p) = show_kind (kind p) @ show_u64 (number p)"

fun show_post :: "u64 option \<Rightarrow> string" where
  "show_post None = []"
| "show_post (Some n) = ''.post'' @ show_u64 n"

fun show_dev :: "u64 option \<Rightarrow> string" where
  "show_dev None = []"
| "show_dev (Some n) = ''.dev'' @ show_u64 n"

definition show_local_part :: "local_version \<Rightarrow> string" where
  "show_local_part l =
     (if local_is_empty l then []
      else case l of Segments _ \<Rightarrow> ''+'' @ show_local l | Max \<Rightarrow> ''+'')"

definition show_version :: "version \<Rightarrow> string" where
  "show_version v =
     (if v_epoch v \<noteq> 0 then show_u64 (v_epoch v) @ ''!'' else []) @
     show_dotted (map show_u64 (v_release v)) @
     show_pre (v_pre v) @ show_post (v_post v) @ show_dev (v_dev v) @ show_local_part (v_local v)"

section \<open>Decimal numerals\<close>

definition dec_from :: "nat \<Rightarrow> string \<Rightarrow> nat" where
  "dec_from n ds = foldl (\<lambda>n c. n * 10 + (byte_val c - 48)) n ds"

abbreviation dec :: "string \<Rightarrow> nat" where
  "dec \<equiv> dec_from 0"

lemma dec_from_simps [simp]:
  "dec_from n [] = n" "dec_from n (c # ds) = dec_from (n * 10 + (byte_val c - 48)) ds"
  "dec_from n (ds @ es) = dec_from (dec_from n ds) es"
  by (simp_all add: dec_from_def)

lemma dec_from_ge: "n \<le> dec_from n ds"
proof (induction ds arbitrary: n)
  case (Cons c ds)
  from Cons.IH [of "n * 10 + (byte_val c - 48)"] show ?case by simp
qed simp

lemma byte_val_less: "byte_val c < 256"
  by (simp add: byte_val_def)

lemma parse_u64_loop_digits:
  "list_all is_ascii_digit ds \<Longrightarrow>
     parse_u64_loop bs n ds =
       (if dec_from (unat n) ds < 2 ^ 64 then Inr (of_nat (dec_from (unat n) ds))
        else Inl (Err (NumberTooBig bs)))"
proof (induction ds arbitrary: n)
  case Nil
  have "unat n < 2 ^ 64" using unsigned_less [of n] by simp
  then show ?case by simp
next
  case (Cons c ds)
  define d where "d = byte_val c - 48"
  from Cons.prems have d: "byte_val c = 48 + d" "d \<le> 9" by (auto simp: is_ascii_digit_def d_def)
  have u: "unat (of_nat d :: u64) = d" using d by (simp add: unat_of_nat)
  have t: "unat (10 :: u64) = 10" by simp
  show ?case
  proof (cases "unat n * 10 + d < 2 ^ 64")
    case True
    then have m: "unat n * 10 < 2 ^ 64" by simp
    then have "unat n * unat (10 :: u64) < 2 ^ LENGTH(64)" by simp
    then have nm: "unat (n * 10) = unat n * 10" using unat_mult_lem [of n "10 :: u64"] t by simp
    have na: "unat (n * 10 + of_nat d) = unat n * 10 + d"
      using True nm u by (subst unat_add_lem [THEN iffD1]) simp_all
    have "checked_mul n 10 = Some (n * 10)" "checked_add (n * 10) (of_nat d) = Some (n * 10 + of_nat d)"
      using m True by (simp_all add: checked_mul_def checked_add_def nm u)
    then show ?thesis
      using Cons d na by (simp add: u8_checked_sub_def)
  next
    case False
    then have over: "Option.bind (checked_mul n 10) (\<lambda>n. checked_add n (of_nat d)) = None"
    proof (cases "unat n * 10 < 2 ^ 64")
      case True
      then have "unat n * unat (10 :: u64) < 2 ^ LENGTH(64)" by simp
      then have nm: "unat (n * 10) = unat n * 10" using unat_mult_lem [of n "10 :: u64"] t by simp
      with True False show ?thesis by (simp add: checked_mul_def checked_add_def u)
    qed (simp add: checked_mul_def)
    moreover have "\<not> dec_from (unat n * 10 + d) ds < 2 ^ 64"
      using False dec_from_ge [of "unat n * 10 + d" ds] by linarith
    ultimately show ?thesis using d by (simp add: u8_checked_sub_def)
  qed
qed

lemma parse_u64_digits:
  "list_all is_ascii_digit ds \<Longrightarrow>
     parse_u64 ds = (if dec ds < 2 ^ 64 then Inr (of_nat (dec ds)) else Inl (Err (NumberTooBig ds)))"
  by (simp add: parse_u64_def parse_u64_loop_digits)

lemma parse_u64_loop_no_panic: "parse_u64_loop bs n ds \<noteq> Inl Panic"
  by (induction bs n ds rule: parse_u64_loop.induct) (auto split: option.splits)

lemma parse_u64_ensures: "ensures (parse_u64 ds) (\<lambda>_. True)"
  using parse_u64_loop_no_panic [of ds 0 ds] by (auto simp: parse_u64_def ensures_def split: sum.splits fault.splits)

lemma parse_u64_invalid:
  "\<not> list_all is_ascii_digit ds \<Longrightarrow> \<exists>e. parse_u64_loop bs n ds = Inl (Err e)"
proof (induction ds arbitrary: n)
  case (Cons c ds)
  then show ?case
    by (cases "is_ascii_digit c") (auto simp: u8_checked_sub_def is_ascii_digit_def split: option.splits)
qed simp

lemma digit_char_val: "d < 10 \<Longrightarrow> byte_val (digit_char d) = 48 + d"
  by (simp add: byte_val_def digit_char_def)

lemma digit_char_digit: "d < 10 \<Longrightarrow> is_ascii_digit (digit_char d)"
  by (simp add: is_ascii_digit_def digit_char_val)

lemma show_nat_digits [simp]: "list_all is_ascii_digit (show_nat n)" "show_nat n \<noteq> []"
proof (induction n rule: show_nat.induct)
  case (1 n)
  {
    case 1
    show ?case using "1.IH" by (subst show_nat.simps) (simp add: digit_char_digit)
  next
    case 2
    show ?case by (subst show_nat.simps) simp
  }
qed

lemma dec_show_nat [simp]: "dec (show_nat n) = n"
proof (induction n rule: show_nat.induct)
  case (1 n)
  show ?case by (subst show_nat.simps) (use 1 in \<open>simp add: digit_char_val\<close>)
qed

lemma show_u64_digits [simp]: "list_all is_ascii_digit (show_u64 n)" "show_u64 n \<noteq> []"
  by (simp_all add: show_u64_def)

lemma dec_show_u64 [simp]: "dec (show_u64 n) = unat n"
  by (simp add: show_u64_def)

lemma parse_show_u64 [simp]: "parse_u64 (show_u64 n) = Inr n"
proof -
  have "unat n < 2 ^ 64" using unsigned_less [of n] by simp
  then show ?thesis by (simp add: parse_u64_digits)
qed

section \<open>The parser keeps its invariant and never panics\<close>

fun wf_release :: "release_numbers \<Rightarrow> bool" where
  "wf_release (Inline numbers l) \<longleftrightarrow> length numbers = 4 \<and> l \<le> 4"
| "wf_release (Vec numbers) \<longleftrightarrow> True"

text \<open>The local segments that the parser builds.\<close>

fun parsed_segment :: "local_segment \<Rightarrow> bool" where
  "parsed_segment (Number n) \<longleftrightarrow> True"
| "parsed_segment (String s) \<longleftrightarrow>
     s \<noteq> [] \<and> list_all (\<lambda>c. is_ascii_digit c \<or> is_ascii_lowercase c) s \<and> isl (parse_u64 s)"

text \<open>
  The invariant: the position is in range and what has been read is within the limits. With \<open>b\<close>, the
  first release number has been read.
\<close>

definition parser_inv :: "bool \<Rightarrow> parser \<Rightarrow> bool" where
  "parser_inv b p \<longleftrightarrow>
     p_i p \<le> length (p_v p) \<and> wf_release (p_release p) \<and>
     (b \<longrightarrow> release_numbers_as_slice (p_release p) \<noteq> []) \<and>
     p_epoch p < u64_MAX \<and> list_all (\<lambda>n. n < u64_MAX) (release_numbers_as_slice (p_release p)) \<and>
     pred_option (\<lambda>q. number q < u64_MAX) (p_pre p) \<and>
     pred_option (\<lambda>n. n < u64_MAX) (p_post p) \<and> pred_option (\<lambda>n. n < u64_MAX) (p_dev p) \<and>
     list_all parsed_segment (p_local p)"

lemma u64_less_max_iff: "n < u64_MAX \<longleftrightarrow> n \<noteq> u64_MAX" for n :: u64
proof -
  have "unat n < 2 ^ 64" using unsigned_less [of n] by simp
  then have "n \<le> u64_MAX" by (simp add: word_le_nat_alt)
  then show ?thesis by (auto simp: order_less_le)
qed

lemma parser_inv_pos: "parser_inv b p \<Longrightarrow> p_i p \<le> length (p_v p)"
  by (simp add: parser_inv_def)

lemma parser_inv_move: "parser_inv b p \<Longrightarrow> j \<le> length (p_v p) \<Longrightarrow> parser_inv b (p\<lparr>p_i := j\<rparr>)"
  by (simp add: parser_inv_def)

lemma release_numbers_push:
  "wf_release r \<Longrightarrow> \<exists>r'. release_numbers_push n r = Some r' \<and> wf_release r' \<and>
     release_numbers_as_slice r' = release_numbers_as_slice r @ [n]"
  by (cases r) (auto simp: take_Suc_conv_app_nth simp flip: take_update_swap)

lemma bump_while_pos_eq:
  "i \<le> length s \<Longrightarrow> bump_while_pos P s i = i + length (takeWhile P (drop i s))"
proof (induction P s i rule: bump_while_pos.induct)
  case (1 P s i)
  show ?case
  proof (cases "i < length s \<and> P (s ! i)")
    case True
    with 1 have "bump_while_pos P s (i + 1) = i + 1 + length (takeWhile P (drop (i + 1) s))" by simp
    moreover have "drop i s = s ! i # drop (i + 1) s" using True by (simp add: Cons_nth_drop_Suc)
    ultimately show ?thesis using True by (subst bump_while_pos.simps) simp
  next
    case False
    then have "takeWhile P (drop i s) = []"
      using 1 by (cases "drop i s") (auto simp: nth_via_drop drop_eq_Nil)
    with False show ?thesis by (subst bump_while_pos.simps) auto
  qed
qed

lemma bump_while_eq:
  "p_i p \<le> length (p_v p) \<Longrightarrow>
     bump_while P p =
       Inr (takeWhile P (drop (p_i p) (p_v p)),
            p\<lparr>p_i := p_i p + length (takeWhile P (drop (p_i p) (p_v p)))\<rparr>)"
  using length_takeWhile_le [of P "drop (p_i p) (p_v p)"] takeWhile_eq_take [of P "drop (p_i p) (p_v p)"]
  by (simp add: bump_while_def Let_def bump_while_pos_eq slice_def)

lemma bump_while_inv:
  assumes "parser_inv b p"
  shows "ensures (bump_while P p) (\<lambda>(s, p'). parser_inv b p' \<and> list_all P s)"
proof -
  have "list_all P (takeWhile P (drop (p_i p) (p_v p)))"
    by (auto simp: list_all_iff dest: set_takeWhileD)
  then show ?thesis
    using assms parser_inv_pos [OF assms] length_takeWhile_le [of P "drop (p_i p) (p_v p)"]
    by (auto simp: bump_while_eq intro!: parser_inv_move)
qed

lemma starts_with_length: "starts_with_ignore_ascii_case s t \<Longrightarrow> length s \<le> length t"
  by (simp add: starts_with_ignore_ascii_case_def)

lemma find_prefix_Some:
  "find_prefix c t ss = Some k \<Longrightarrow> k < length ss \<and> starts_with_ignore_ascii_case (ss ! k) t"
  by (induction c t ss arbitrary: k rule: find_prefix.induct) (auto split: if_splits)

lemma bump_if_inv:
  assumes "parser_inv b p"
  shows "ensures (bump_if s p) (\<lambda>(c, p'). parser_inv b p' \<and> p_v p' = p_v p \<and>
    p_i p' = p_i p + (if c then length s else 0))"
  using assms parser_inv_pos [OF assms]
  by (auto simp: bump_if_def slice_from_def split: if_splits intro!: parser_inv_move dest!: starts_with_length)

lemma bump_if_string_set_inv:
  assumes "parser_inv b p"
  shows "ensures (bump_if_string_set ss p)
     (\<lambda>(k, p'). parser_inv b p' \<and> p_v p' = p_v p \<and> pred_option (\<lambda>k. k < length (strings ss)) k)"
  using assms parser_inv_pos [OF assms]
  by (auto simp: bump_if_string_set_def slice_from_def string_set_starts_with_def
      split: option.splits intro!: parser_inv_move dest!: find_prefix_Some starts_with_length)

lemma byte_set_starts_with_Some: "byte_set_starts_with bs s = Some c \<Longrightarrow> s \<noteq> [] \<and> bs c \<and> hd s = c"
  by (auto simp: byte_set_starts_with_def split: list.splits if_splits)

lemma bump_if_byte_set_inv:
  assumes "parser_inv b p"
  shows "ensures (bump_if_byte_set bs p) (\<lambda>(k, p'). parser_inv b p' \<and> p_v p' = p_v p)"
  using assms parser_inv_pos [OF assms]
  by (auto simp: bump_if_byte_set_def slice_from_def
      split: option.splits intro!: parser_inv_move dest!: byte_set_starts_with_Some)

lemma reset_inv:
  "parser_inv b p \<Longrightarrow> i \<le> length (p_v p) \<Longrightarrow> ensures (reset i p) (\<lambda>(_, p'). parser_inv b p')"
  by (simp add: reset_def parser_inv_move)

lemma push_number_inv:
  "parser_inv b p \<Longrightarrow> n < u64_MAX \<Longrightarrow> ensures (push_number n p) (\<lambda>(_, p'). parser_inv True p')"
  using release_numbers_push [of "p_release p" n]
  by (auto simp: push_number_def parser_inv_def)

lemma parse_number_inv:
  assumes "parser_inv b p"
  shows "ensures (parse_number p) (\<lambda>(n, p'). parser_inv b p' \<and> pred_option (\<lambda>n. n < u64_MAX) n)"
proof -
  have "ensures (map_err PatternVersion (parse_u64 ds)) (\<lambda>_. True)" for ds
    using parse_u64_ensures [of ds] by (auto simp: map_err_def split: sum.splits fault.splits)
  then show ?thesis unfolding parse_number_def
    by (auto simp: u64_less_max_iff intro!: ensures_bind [OF bump_while_inv [OF assms]] ensures_bind)
qed

lemma ok_or_ensures:
  "(case r of (None, _) \<Rightarrow> True | (Some x, s) \<Rightarrow> Q (x, s)) \<Longrightarrow> ensures (ok_or e r) Q"
  by (cases r) (auto simp: ok_or_def split: option.splits)

lemma parse_number_or_inv:
  assumes "parser_inv b p"
  shows "ensures (bind_res (parse_number p) (ok_or e)) (\<lambda>(n, p'). parser_inv b p' \<and> n < u64_MAX)"
  by (rule ensures_bind [OF parse_number_inv [OF assms]])
     (auto intro!: ok_or_ensures split: option.splits)

lemma parse_epoch_and_initial_release_inv:
  assumes "parser_inv b p"
  shows "ensures (parse_epoch_and_initial_release p) (\<lambda>(_, p'). parser_inv True p')"
proof -
  have epoch: "parser_inv b (p\<lparr>p_epoch := n\<rparr>)" if "parser_inv b p" "n < u64_MAX" for n p
    using that by (simp add: parser_inv_def)
  have first: "ensures (if bang then bind_res (parse_number (p\<lparr>p_epoch := n\<rparr>)) (ok_or e) else Inr (n, p))
      (\<lambda>(m, p'). parser_inv b p' \<and> m < u64_MAX)"
    if "parser_inv b p" "n < u64_MAX" for bang p n e
    using that parse_number_or_inv [OF epoch [OF that], of e] by simp
  show ?thesis unfolding parse_epoch_and_initial_release_def
    by (rule ensures_bind [OF parse_number_or_inv [OF assms]], clarify)
       (auto intro!: ensures_bind [OF bump_if_inv] ensures_bind [OF first] push_number_inv)
qed

lemma unbump_inv: "parser_inv b p \<Longrightarrow> 0 < p_i p \<Longrightarrow> ensures (unbump p) (\<lambda>(_, p'). parser_inv b p')"
  using parser_inv_pos [of b p] by (auto simp: unbump_def intro!: parser_inv_move)

lemma parse_rest_of_release_inv:
  "parser_inv True p \<Longrightarrow> ensures (parse_rest_of_release p) (\<lambda>(_, p'). parser_inv True p')"
proof (induction p rule: parse_rest_of_release.induct)
  case (1 p)
  show ?case
  proof (subst parse_rest_of_release.simps, rule ensures_bind [OF bump_if_inv [OF "1.prems"]], clarify)
    fix dot p1
    assume dot: "bump_if ''.'' p = Inr (dot, p1)" "parser_inv True p1"
      "p_i p1 = p_i p + (if dot then length ''.'' else 0)"
    then have pos: "0 < p_i p2" if "parse_number p1 = Inr (x, p2)" "dot" for x p2
      using that parse_number_le [OF that(1)] by simp
    show "ensures (if \<not> dot then Inr ((), p1)
       else bind_res (parse_number p1) (\<lambda>(number, p2).
         case number of None \<Rightarrow> unbump p2
         | Some n \<Rightarrow> bind_res (push_number n p2) (\<lambda>(_, p3). parse_rest_of_release p3)))
       (\<lambda>(_, p'). parser_inv True p')"
      using dot 1
      by (auto intro!: ensures_bind [OF parse_number_inv] ensures_bind [OF push_number_inv] unbump_inv
          dest: pos split: option.splits)
  qed
qed

lemma parse_wildcard_inv:
  assumes "parser_inv b p"
  shows "ensures (parse_wildcard p) (\<lambda>(_, p'). parser_inv b p')"
proof -
  have "parser_inv b (p\<lparr>p_wildcard := w\<rparr>)" if "parser_inv b p" for p w
    using that by (simp add: parser_inv_def)
  then show ?thesis
    unfolding parse_wildcard_def by (auto intro!: ensures_bind [OF bump_if_inv [OF assms]])
qed

lemma unwrap_or_simps [simp]: "unwrap_or None d = d" "unwrap_or (Some x) d = x"
  by (simp_all add: unwrap_or_def)

lemma unwrap_or_less:
  "pred_option (\<lambda>n. n < u64_MAX) n \<Longrightarrow> unwrap_or n 0 < u64_MAX" for n :: "u64 option"
  by (cases n) simp_all

lemma parser_inv_set:
  assumes "parser_inv b p" "pred_option (\<lambda>n. n < u64_MAX) n"
  shows "parser_inv b (p\<lparr>p_pre := Some \<lparr>kind = k, number = unwrap_or n 0\<rparr>\<rparr>)"
    and "parser_inv b (p\<lparr>p_post := Some (unwrap_or n 0)\<rparr>)"
    and "parser_inv b (p\<lparr>p_dev := Some (unwrap_or n 0)\<rparr>)"
  using assms unwrap_or_less [OF assms(2)] by (simp_all add: parser_inv_def)

lemma string_set_new_Some: "string_set_new ss = Some sset \<Longrightarrow> strings sset = ss"
  by (auto simp: string_set_new_def split: if_splits)

lemma spellings_ok: "string_set_new PRE_SPELLINGS \<noteq> None" "string_set_new POST_SPELLINGS \<noteq> None"
  by (simp_all add: string_set_new_def PRE_SPELLINGS_def POST_SPELLINGS_def)

lemma parse_pre_inv:
  assumes "parser_inv b p"
  shows "ensures (parse_pre p) (\<lambda>(_, p'). parser_inv b p')"
proof -
  obtain sset where set: "string_set_new PRE_SPELLINGS = Some sset" using spellings_ok by blast
  then have "length (strings sset) = length PRE_MAP"
    by (simp add: string_set_new_Some PRE_SPELLINGS_def PRE_MAP_def)
  then show ?thesis
    unfolding parse_pre_def set Let_def or_panic_simps bind_res_simps
    using parser_inv_pos [OF assms]
    by (auto intro!: ensures_bind [OF bump_if_byte_set_inv [where b = b]] assms
        ensures_bind [OF bump_if_string_set_inv [where b = b]]
        ensures_bind [OF parse_number_inv [where b = b]] reset_inv parser_inv_set
        split: option.splits)
qed

lemma parse_post_spelled_inv:
  assumes "parser_inv b p" "i \<le> length (p_v p)"
  shows "ensures (parse_post_spelled i p) (\<lambda>(_, p'). parser_inv b p')"
proof -
  obtain sset where set: "string_set_new POST_SPELLINGS = Some sset" using spellings_ok by blast
  show ?thesis
    unfolding parse_post_spelled_def set Let_def or_panic_simps bind_res_simps
    using assms(2)
    by (auto intro!: ensures_bind [OF bump_if_byte_set_inv [where b = b]] assms(1)
        ensures_bind [OF bump_if_string_set_inv [where b = b]]
        ensures_bind [OF parse_number_inv [where b = b]] reset_inv parser_inv_set)
qed

lemma parse_post_inv:
  assumes "parser_inv b p"
  shows "ensures (parse_post p) (\<lambda>(_, p'). parser_inv b p')"
proof -
  have post: "parser_inv b (p\<lparr>p_post := Some n\<rparr>)" if "parser_inv b p" "n < u64_MAX" for p n
    using that by (simp add: parser_inv_def)
  have again: "ensures (bind_res (reset i p) (\<lambda>(_, p). parse_post_spelled i p)) (\<lambda>(_, p'). parser_inv b p')"
    if "parser_inv b p" "i \<le> length (p_v p)" for p i
    using that by (auto simp: reset_def intro!: parse_post_spelled_inv parser_inv_move)
  show ?thesis
    unfolding parse_post_def Let_def
    using parser_inv_pos [OF assms]
    by (auto intro!: ensures_bind [OF bump_if_inv [OF assms]] parse_post_spelled_inv
        ensures_bind [OF parse_number_inv [where b = b]] again post
        split: option.splits dest!: parse_number_le)
qed

lemma parse_dev_inv:
  assumes "parser_inv b p"
  shows "ensures (parse_dev p) (\<lambda>(_, p'). parser_inv b p')"
  unfolding parse_dev_def Let_def
  using parser_inv_pos [OF assms]
  by (auto intro!: ensures_bind [OF bump_if_byte_set_inv [where b = b]] assms
      ensures_bind [OF bump_if_inv [where b = b]]
      ensures_bind [OF parse_number_inv [where b = b]] reset_inv parser_inv_set)

lemma to_ascii_lowercase_alnum:
  "is_ascii_alphanumeric c \<Longrightarrow>
     is_ascii_digit (to_ascii_lowercase c) \<or> is_ascii_lowercase (to_ascii_lowercase c)"
  by (auto simp: byte_defs)

lemma to_ascii_lowercase_digit: "is_ascii_digit (to_ascii_lowercase c) \<longleftrightarrow> is_ascii_digit c"
  by (auto simp: byte_defs)

lemma to_ascii_lowercase_digit_id: "is_ascii_digit c \<Longrightarrow> to_ascii_lowercase c = c"
  by (auto simp: byte_defs)

lemma parse_u64_lowercase:
  assumes "isl (parse_u64 s)"
  shows "isl (parse_u64 (map to_ascii_lowercase s))"
proof (cases "list_all is_ascii_digit s")
  case True
  then have "map to_ascii_lowercase s = s"
    by (auto simp: list_all_iff to_ascii_lowercase_digit_id intro!: map_idI)
  then show ?thesis using assms by simp
next
  case False
  then have "\<not> list_all is_ascii_digit (map to_ascii_lowercase s)"
    by (simp add: list_all_iff to_ascii_lowercase_digit)
  from parse_u64_invalid [OF this, of "map to_ascii_lowercase s" 0] show ?thesis
    by (auto simp: parse_u64_def)
qed

lemma local_segment_of_ensures:
  assumes "list_all is_ascii_alphanumeric s" "s \<noteq> []"
  shows "ensures (local_segment_of s) parsed_segment"
proof -
  have "list_all (\<lambda>c. is_ascii_digit c \<or> is_ascii_lowercase c) (map to_ascii_lowercase s)"
    using assms(1) by (auto simp: list_all_iff to_ascii_lowercase_alnum)
  then show ?thesis
    using assms(2) parse_u64_ensures [of s] parse_u64_lowercase [of s]
    by (auto simp: local_segment_of_def split: sum.splits fault.splits)
qed

lemma parse_local_loop_inv:
  "parser_inv b p \<Longrightarrow> ensures (parse_local_loop c p) (\<lambda>(_, p'). parser_inv b p')"
proof (induction c p rule: parse_local_loop.induct)
  case (1 c p)
  have push: "parser_inv b (q\<lparr>p_local := p_local q @ [x]\<rparr>)"
    if "parser_inv b q" "parsed_segment x" for q x
    using that by (simp add: parser_inv_def)
  show ?case
    by (subst parse_local_loop.simps, rule ensures_bind [OF bump_while_inv [OF "1.prems"]])
       (auto intro!: ensures_bind [OF local_segment_of_ensures] push
          ensures_bind [OF bump_if_byte_set_inv [where b = b]] "1.IH" split: option.splits)
qed

lemma parse_local_inv:
  "parser_inv b p \<Longrightarrow> ensures (parse_local p) (\<lambda>(_, p'). parser_inv b p')"
  unfolding parse_local_def
  by (auto intro!: ensures_bind [OF bump_if_inv [where b = b]] parse_local_loop_inv)

lemma parser_new_inv: "parser_inv False (parser_new s)"
  by (simp add: parser_inv_def parser_new_def release_numbers_new_def)

text \<open>What a finished parser state denotes.\<close>

definition parser_full :: "parser \<Rightarrow> version_full" where
  "parser_full p = \<lparr>full_epoch = p_epoch p, full_release = release_numbers_as_slice (p_release p),
     full_pre = p_pre p, full_post = p_post p, full_dev = p_dev p,
     full_local = Segments (p_local p), full_min = None, full_max = None\<rparr>"

lemma into_pattern_full:
  assumes "release_numbers_as_slice (p_release p) \<noteq> []"
  shows "\<exists>vpat. into_pattern p = Some vpat \<and> vp_wildcard vpat = p_wildcard p \<and>
    wf_version (vp_version vpat) \<and> make_full (vp_version vpat) = parser_full p"
  using version_new_full(2) [OF assms] assms
  by (auto simp: into_pattern_def release_numbers_len_def setters_wf setters_full parser_full_def plain_full_def
      simp del: with_local.simps)

text \<open>The versions that can come out of the parser.\<close>

definition parsed_version :: "version \<Rightarrow> bool" where
  "parsed_version v \<longleftrightarrow> public_version v \<and>
     (case v_local v of Segments segs \<Rightarrow> list_all parsed_segment segs | Max \<Rightarrow> False)"

lemma into_pattern_inv:
  assumes "parser_inv True p"
  shows "ensures (or_panic (into_pattern p)) (\<lambda>vpat. parsed_version (vp_version vpat))"
proof -
  from assms have "release_numbers_as_slice (p_release p) \<noteq> []" by (simp add: parser_inv_def)
  then obtain vpat where vpat: "into_pattern p = Some vpat" "wf_version (vp_version vpat)"
    "make_full (vp_version vpat) = parser_full p"
    using into_pattern_full by blast
  then show ?thesis
    using assms
    by (simp add: parsed_version_def public_version_def v_fields parser_inv_def parser_full_def)
qed

lemma parse_slow_inv:
  assumes "parser_inv False p"
  shows "ensures (parse_slow p) (\<lambda>vpat. parsed_version (vp_version vpat))"
  unfolding parse_slow_def
  by (intro ensures_bind [OF bump_while_inv [OF assms]], clarify)
     (auto simp: slice_def slice_from_def is_done_def
       intro!: ensures_bind [OF bump_if_inv [where b = False]]
       ensures_bind [OF parse_epoch_and_initial_release_inv [where b = False]]
       ensures_bind [OF parse_rest_of_release_inv] ensures_bind [OF parse_wildcard_inv [where b = True]]
       into_pattern_inv ensures_bind [OF parse_pre_inv [where b = True]]
       ensures_bind [OF parse_post_inv [where b = True]] ensures_bind [OF parse_dev_inv [where b = True]]
       ensures_bind [OF parse_local_inv [where b = True]] ensures_bind [OF bump_while_inv [where b = True]]
       dest: parser_inv_pos)

end
