(* ===== verification/VersionText.thy ===== *)
theory VersionText
  imports VersionParse
begin

text \<open>
  Runs of the version parser on known inputs. Two results come out of them: the fast path of the
  parser returns what the general parser would have returned, and a version that was parsed is read
  back from its \<open>Display\<close> unchanged.
\<close>

section \<open>Running the parser on a known input\<close>

text \<open>The parser stands before the string \<open>s\<close>; \<open>adv n\<close> moves it on by \<open>n\<close> bytes.\<close>

definition parser_at :: "parser \<Rightarrow> string \<Rightarrow> bool" where
  "parser_at p s \<longleftrightarrow> p_i p \<le> length (p_v p) \<and> drop (p_i p) (p_v p) = s"

definition adv :: "nat \<Rightarrow> parser \<Rightarrow> parser" where
  "adv n p = p\<lparr>p_i := p_i p + n\<rparr>"

lemma adv_simps [simp]:
  "p_v (adv n p) = p_v p" "p_i (adv n p) = p_i p + n" "p_epoch (adv n p) = p_epoch p"
  "p_release (adv n p) = p_release p" "p_pre (adv n p) = p_pre p" "p_post (adv n p) = p_post p"
  "p_dev (adv n p) = p_dev p" "p_local (adv n p) = p_local p" "p_wildcard (adv n p) = p_wildcard p"
  "adv 0 p = p" "adv m (adv n p) = adv (n + m) p"
  by (simp_all add: adv_def ac_simps)

lemma parser_at_upd [simp]:
  "parser_at (p\<lparr>p_epoch := e\<rparr>) s = parser_at p s" "parser_at (p\<lparr>p_release := r\<rparr>) s = parser_at p s"
  "parser_at (p\<lparr>p_pre := q\<rparr>) s = parser_at p s" "parser_at (p\<lparr>p_post := n\<rparr>) s = parser_at p s"
  "parser_at (p\<lparr>p_dev := n\<rparr>) s = parser_at p s" "parser_at (p\<lparr>p_local := l\<rparr>) s = parser_at p s"
  by (simp_all add: parser_at_def)

lemma parser_at_adv: "parser_at p (x @ s) \<Longrightarrow> parser_at (adv (length x) p) s"
proof -
  assume "parser_at p (x @ s)"
  then have le: "p_i p \<le> length (p_v p)" and d: "drop (p_i p) (p_v p) = x @ s"
    by (auto simp: parser_at_def)
  from d have "length (p_v p) - p_i p = length x + length s" by (metis length_append length_drop)
  moreover have "drop (p_i p + length x) (p_v p) = drop (length x) (drop (p_i p) (p_v p))"
    by (simp add: add.commute)
  ultimately show ?thesis using le d by (simp add: parser_at_def)
qed

lemma parser_at_adv1: "parser_at p (c # s) \<Longrightarrow> parser_at (adv 1 p) s"
  using parser_at_adv [of p "[c]" s] by simp

lemma parser_at_new [simp]: "parser_at (parser_new s) s"
  by (simp add: parser_at_def parser_new_def)

lemma parser_at_done: "parser_at p s \<Longrightarrow> is_done p \<longleftrightarrow> s = []"
  by (auto simp: parser_at_def is_done_def)

lemma parser_at_slice: "parser_at p s \<Longrightarrow> slice_from (p_v p) (p_i p) = Inr s"
  by (simp add: parser_at_def slice_from_def)

abbreviation starts :: "(char \<Rightarrow> bool) \<Rightarrow> string \<Rightarrow> bool" where
  "starts P s \<equiv> s \<noteq> [] \<and> P (hd s)"

lemma bump_while_at:
  assumes "parser_at p (x @ s)" "list_all P x" "\<not> starts P s"
  shows "bump_while P p = Inr (x, adv (length x) p)"
proof -
  have "takeWhile P (x @ s) = x"
    using assms(2,3) by (cases s) (auto simp: list_all_iff takeWhile_append)
  then show ?thesis using assms(1) by (simp add: parser_at_def bump_while_eq adv_def)
qed

lemma bump_while_none: "parser_at p s \<Longrightarrow> \<not> starts P s \<Longrightarrow> bump_while P p = Inr ([], p)"
  using bump_while_at [of p "[]" s P] by simp

lemma bump_if_yes:
  "parser_at p s \<Longrightarrow> starts_with_ignore_ascii_case t s \<Longrightarrow> t \<noteq> [] \<Longrightarrow>
     bump_if t p = Inr (True, adv (length t) p)"
  by (auto simp: bump_if_def parser_at_done parser_at_slice adv_def starts_with_ignore_ascii_case_def)

lemma bump_if_no:
  "parser_at p s \<Longrightarrow> \<not> starts_with_ignore_ascii_case t s \<Longrightarrow> bump_if t p = Inr (False, p)"
  by (simp add: bump_if_def parser_at_slice)

lemma bump_if_byte_set_at:
  "parser_at p (c # s) \<Longrightarrow> bs c \<Longrightarrow> bump_if_byte_set bs p = Inr (Some c, adv 1 p)"
  "parser_at p s \<Longrightarrow> \<not> starts bs s \<Longrightarrow> bump_if_byte_set bs p = Inr (None, p)"
  by (auto simp: bump_if_byte_set_def parser_at_slice byte_set_starts_with_def adv_def
      split: list.splits)

lemma bump_if_string_set_at:
  "parser_at p s \<Longrightarrow> string_set_starts_with ss s = Some k \<Longrightarrow>
     bump_if_string_set ss p = Inr (Some k, adv (length (strings ss ! k)) p)"
  "parser_at p s \<Longrightarrow> string_set_starts_with ss s = None \<Longrightarrow> bump_if_string_set ss p = Inr (None, p)"
  by (simp_all add: bump_if_string_set_def parser_at_slice adv_def)

lemma parser_pos_idem [simp]: "p\<lparr>p_i := p_i p\<rparr> = p"
  by (cases p) simp

lemma reset_adv: "parser_at p s \<Longrightarrow> reset (p_i p) (adv n p) = Inr ((), p)"
  by (simp add: reset_def parser_at_def adv_def)

lemma unbump_adv [simp]: "unbump (adv (Suc 0) p) = Inr ((), p)"
  by (simp add: unbump_def adv_def)

lemma parse_number_at:
  assumes "parser_at p (ds @ s)" "list_all is_ascii_digit ds" "ds \<noteq> []" "\<not> starts is_ascii_digit s"
    and "dec ds < 2 ^ 64 - 1"
  shows "parse_number p = Inr (Some (of_nat (dec ds)), adv (length ds) p)"
proof -
  have "unat (of_nat (dec ds) :: u64) = dec ds" using assms(5) by (simp add: unat_of_nat)
  then have "(of_nat (dec ds) :: u64) \<noteq> u64_MAX" using assms(5) by (auto simp: word_unat_eq_iff)
  then show ?thesis
    using assms by (simp add: parse_number_def bump_while_at parse_u64_digits map_err_def)
qed

lemma parse_number_none:
  "parser_at p s \<Longrightarrow> \<not> starts is_ascii_digit s \<Longrightarrow> parse_number p = Inr (None, p)"
  by (simp add: parse_number_def bump_while_none)

lemma push_number_at:
  "wf_release (p_release p) \<Longrightarrow> \<exists>r. push_number n p = Inr ((), p\<lparr>p_release := r\<rparr>) \<and> wf_release r \<and>
     release_numbers_as_slice r = release_numbers_as_slice (p_release p) @ [n]"
  using release_numbers_push [of "p_release p" n] by (auto simp: push_number_def)

text \<open>Dotted numbers, as in a release.\<close>

abbreviation number_string :: "string \<Rightarrow> bool" where
  "number_string ds \<equiv> ds \<noteq> [] \<and> list_all is_ascii_digit ds \<and> dec ds < 2 ^ 64 - 1"

definition dotted :: "string list \<Rightarrow> string" where
  "dotted dss = concat (map (\<lambda>ds. CHR ''.'' # ds) dss)"

lemma dotted_simps [simp]: "dotted [] = []" "dotted (ds # dss) = CHR ''.'' # ds @ dotted dss"
  by (simp_all add: dotted_def)

lemma starts_with_char: "starts_with_ignore_ascii_case [c] s \<longleftrightarrow> s \<noteq> [] \<and> eq_ignore_ascii_case c (hd s)"
  by (cases s) (auto simp: starts_with_ignore_ascii_case_def Suc_le_eq)

lemma upper_to_lowercase: "is_ascii_uppercase c \<Longrightarrow> is_ascii_lowercase (to_ascii_lowercase c)"
  by (simp add: byte_defs)

lemma to_lowercase_id: "\<not> is_ascii_uppercase c \<Longrightarrow> to_ascii_lowercase c = c"
  by (simp add: to_ascii_lowercase_def)

lemma eq_ignore_nonletter:
  assumes "\<not> is_ascii_uppercase c" "\<not> is_ascii_lowercase c"
  shows "eq_ignore_ascii_case c d \<longleftrightarrow> d = c" and "eq_ignore_ascii_case d c \<longleftrightarrow> d = c"
  using assms upper_to_lowercase [of d] to_lowercase_id [of d]
  by (cases "is_ascii_uppercase d"; auto simp: eq_ignore_ascii_case_def to_lowercase_id)+

lemma digit_nonletter: "is_ascii_digit c \<Longrightarrow> \<not> is_ascii_uppercase c \<and> \<not> is_ascii_lowercase c"
  by (simp add: is_ascii_digit_def is_ascii_uppercase_def is_ascii_lowercase_def)

lemma dot_eq_ignore [simp]: "eq_ignore_ascii_case CHR ''.'' c \<longleftrightarrow> c = CHR ''.''"
  by (rule eq_ignore_nonletter) (simp_all add: byte_defs)

lemma bump_dot:
  "parser_at p (CHR ''.'' # s) \<Longrightarrow> bump_if ''.'' p = Inr (True, adv 1 p)"
  "parser_at p s \<Longrightarrow> \<not> starts (\<lambda>c. c = CHR ''.'') s \<Longrightarrow> bump_if ''.'' p = Inr (False, p)"
  using bump_if_yes [of p _ "''.''"] bump_if_no [of p s "''.''"] by (auto simp: starts_with_char)

text \<open>What can follow the numbers of a release: neither a digit nor a dot and a digit.\<close>

definition ends_release :: "string \<Rightarrow> bool" where
  "ends_release s \<longleftrightarrow> \<not> starts is_ascii_digit s \<and>
     (starts (\<lambda>c. c = CHR ''.'') s \<longrightarrow> \<not> starts is_ascii_digit (tl s))"

lemma dot_no_digit [simp]: "\<not> is_ascii_digit CHR ''.''"
  by (simp add: byte_defs)

lemma parse_rest_of_release_at:
  "parser_at p (dotted dss @ s) \<Longrightarrow> list_all number_string dss \<Longrightarrow> ends_release s \<Longrightarrow>
     wf_release (p_release p) \<Longrightarrow>
     \<exists>r. parse_rest_of_release p = Inr ((), (adv (length (dotted dss)) p)\<lparr>p_release := r\<rparr>) \<and>
       wf_release r \<and> release_numbers_as_slice r =
         release_numbers_as_slice (p_release p) @ map (\<lambda>ds. of_nat (dec ds)) dss"
proof (induction dss arbitrary: p)
  case Nil
  have "parse_rest_of_release p = Inr ((), p)"
  proof (cases "starts (\<lambda>c. c = CHR ''.'') s")
    case True
    then have "s = CHR ''.'' # tl s" by (cases s) auto
    with Nil have "parser_at p (CHR ''.'' # tl s)" by simp
    moreover from this have "parser_at (adv 1 p) (tl s)" by (rule parser_at_adv1)
    ultimately show ?thesis
      using Nil True
      by (simp add: parse_rest_of_release.simps [of p] bump_dot ends_release_def parse_number_none)
  qed (use Nil in \<open>simp add: parse_rest_of_release.simps [of p] bump_dot\<close>)
  then show ?case using Nil by (intro exI [of _ "p_release p"]) simp
next
  case (Cons ds dss)
  then have at1: "parser_at (adv 1 p) (ds @ dotted dss @ s)"
    using parser_at_adv1 [of p "CHR ''.''" "ds @ dotted dss @ s"] by simp
  have "\<not> starts is_ascii_digit (dotted dss @ s)"
    using Cons.prems(3) by (cases dss) (auto simp: ends_release_def)
  then have num: "parse_number (adv 1 p) = Inr (Some (of_nat (dec ds)), adv (1 + length ds) p)"
    using Cons.prems(2) parse_number_at [OF at1] by simp
  obtain r where push: "push_number (of_nat (dec ds)) (adv (1 + length ds) p) =
      Inr ((), (adv (1 + length ds) p)\<lparr>p_release := r\<rparr>)" and r: "wf_release r"
      "release_numbers_as_slice r = release_numbers_as_slice (p_release p) @ [of_nat (dec ds)]"
    using push_number_at [of "adv (1 + length ds) p"] Cons.prems(4) by auto
  have at2: "parser_at ((adv (1 + length ds) p)\<lparr>p_release := r\<rparr>) (dotted dss @ s)"
    using parser_at_adv [OF at1] by simp
  have "adv n (q\<lparr>p_release := r\<rparr>) = (adv n q)\<lparr>p_release := r\<rparr>" for n q r by (simp add: adv_def)
  with Cons.IH [OF at2] Cons.prems r obtain r' where r': "wf_release r'"
     "parse_rest_of_release ((adv (1 + length ds) p)\<lparr>p_release := r\<rparr>) =
        Inr ((), (adv (length (dotted (ds # dss))) p)\<lparr>p_release := r'\<rparr>)"
     "release_numbers_as_slice r' = release_numbers_as_slice r @ map (\<lambda>ds. of_nat (dec ds)) dss"
    by auto
  have "parse_rest_of_release p = parse_rest_of_release ((adv (1 + length ds) p)\<lparr>p_release := r\<rparr>)"
    using Cons.prems(1) num push by (simp add: parse_rest_of_release.simps [of p] bump_dot)
  with r r' show ?case by (intro exI [of _ r']) simp
qed

section \<open>The fast parser agrees with the general one\<close>

text \<open>
  The general parser on numbers separated by dots and nothing else: the remaining components are
  absent.
\<close>

lemma SEPARATOR_simps [simp]:
  "SEPARATOR c \<longleftrightarrow> c \<in> {CHR ''.'', CHR ''_'', CHR ''-''}"
  by (auto simp: SEPARATOR_def byte_defs)

lemma starts_with_Nil: "starts_with_ignore_ascii_case t [] \<longleftrightarrow> t = []"
  by (auto simp: starts_with_ignore_ascii_case_def)

lemma string_set_starts_with_Nil [simp]: "string_set_starts_with ss [] = None"
  by (simp add: string_set_starts_with_def byte_set_starts_with_def)

lemma reset_at: "parser_at p s \<Longrightarrow> reset (p_i p) p = Inr ((), p)"
  using reset_adv [of p s 0] by simp

lemma parse_tail_Nil:
  assumes "parser_at p []"
  shows "parse_wildcard p = Inr (False, p)" "parse_pre p = Inr ((), p)" "parse_post p = Inr ((), p)"
    "parse_dev p = Inr ((), p)" "parse_local p = Inr ((), p)"
proof -
  obtain pre post where sets: "string_set_new PRE_SPELLINGS = Some pre"
    "string_set_new POST_SPELLINGS = Some post" using spellings_ok by blast
  note at_simps = bump_if_no [OF assms] bump_if_byte_set_at(2) [OF assms]
    bump_if_string_set_at(2) [OF assms] reset_at [OF assms] starts_with_Nil
  show "parse_wildcard p = Inr (False, p)" by (simp add: parse_wildcard_def at_simps)
  show "parse_pre p = Inr ((), p)" by (simp add: parse_pre_def sets Let_def at_simps)
  show "parse_post p = Inr ((), p)"
    by (simp add: parse_post_def parse_post_spelled_def sets Let_def at_simps)
  show "parse_dev p = Inr ((), p)" by (simp add: parse_dev_def Let_def at_simps)
  show "parse_local p = Inr ((), p)" by (simp add: parse_local_def at_simps)
qed

lemma digit_not_space: "is_ascii_digit c \<Longrightarrow> \<not> is_ascii_whitespace c"
  by (auto simp: is_ascii_whitespace_def is_ascii_digit_def)

lemma digit_not_letter: "is_ascii_digit c \<Longrightarrow> is_ascii_lowercase d \<Longrightarrow> \<not> eq_ignore_ascii_case d c"
  using eq_ignore_nonletter(2) [of c d] digit_nonletter [of c] by auto

lemma letter_lowercase:
  "c \<in> set ''abcdefghijklmnopqrstuvwxyz'' \<Longrightarrow> is_ascii_lowercase c"
  by (auto simp: byte_defs)

text \<open>The first number of a release without epoch.\<close>

lemma parse_first_number_at:
  assumes "parser_at p (ds @ s)" "number_string ds" "\<not> starts is_ascii_digit s"
    "\<not> starts (\<lambda>c. c = CHR ''!'') s" "wf_release (p_release p)"
  shows "\<exists>r. parse_epoch_and_initial_release p = Inr ((), (adv (length ds) p)\<lparr>p_release := r\<rparr>) \<and>
    wf_release r \<and> release_numbers_as_slice r = release_numbers_as_slice (p_release p) @ [of_nat (dec ds)]"
proof -
  have num: "parse_number p = Inr (Some (of_nat (dec ds)), adv (length ds) p)"
    using assms(2,3) parse_number_at [OF assms(1)] by simp
  have "eq_ignore_ascii_case CHR ''!'' c \<longleftrightarrow> c = CHR ''!''" for c
    by (rule eq_ignore_nonletter) (simp_all add: byte_defs)
  then have "bump_if ''!'' (adv (length ds) p) = Inr (False, adv (length ds) p)"
    using assms(4) by (intro bump_if_no [OF parser_at_adv [OF assms(1)]]) (auto simp: starts_with_char)
  with num show ?thesis
    using push_number_at [of "adv (length ds) p"] assms(5)
    by (simp add: parse_epoch_and_initial_release_def ok_or_def)
qed

lemma leading_digit_at:
  assumes "parser_at p s" "starts is_ascii_digit s"
  shows "bump_while is_ascii_whitespace p = Inr ([], p)" "bump_if ''v'' p = Inr (False, p)"
proof -
  show "bump_while is_ascii_whitespace p = Inr ([], p)"
    using assms digit_not_space by (intro bump_while_none) auto
  have "\<not> eq_ignore_ascii_case CHR ''v'' (hd s)"
    using assms by (intro digit_not_letter letter_lowercase) auto
  then show "bump_if ''v'' p = Inr (False, p)"
    by (intro bump_if_no [OF assms(1)]) (simp add: starts_with_char)
qed

lemma parse_slow_dotted:
  assumes "list_all number_string (ds # dss)"
  shows "parse_slow (parser_new (ds @ dotted dss)) =
    or_panic (map_option (\<lambda>v. \<lparr>vp_version = with_local (Segments []) (with_dev None (with_post None
        (with_pre None (with_epoch 0 v)))), vp_wildcard = False\<rparr>)
      (version_new (map (\<lambda>ds. of_nat (dec ds)) (ds # dss))))"
proof -
  let ?s = "ds @ dotted dss" and ?p = "parser_new (ds @ dotted dss)"
  have at: "parser_at ?p ?s" by simp
  have lead: "starts is_ascii_digit ?s" using assms by (cases ds) auto
  have rel: "wf_release (p_release ?p)" "release_numbers_as_slice (p_release ?p) = []"
    by (simp_all add: parser_new_def release_numbers_new_def)
  have "\<not> starts is_ascii_digit (dotted dss)" "\<not> starts (\<lambda>c. c = CHR ''!'') (dotted dss)"
    by (cases dss; simp)+
  then obtain r where r: "parse_epoch_and_initial_release ?p = Inr ((), (adv (length ds) ?p)\<lparr>p_release := r\<rparr>)"
      "wf_release r" "release_numbers_as_slice r = [of_nat (dec ds)]"
    using parse_first_number_at [OF at _ _ _ rel(1)] assms rel by auto
  let ?p1 = "(adv (length ds) ?p)\<lparr>p_release := r\<rparr>"
  have "parser_at ?p1 (dotted dss @ [])" using parser_at_adv [OF at] by simp
  from parse_rest_of_release_at [OF this] assms r obtain r' where r':
      "parse_rest_of_release ?p1 = Inr ((), (adv (length (dotted dss)) ?p1)\<lparr>p_release := r'\<rparr>)"
      "release_numbers_as_slice r' = map (\<lambda>ds. of_nat (dec ds)) (ds # dss)"
    by (auto simp: ends_release_def)
  let ?p2 = "(adv (length (dotted dss)) ?p1)\<lparr>p_release := r'\<rparr>"
  have at2: "parser_at ?p2 []"
    using parser_at_adv [of ?p1 "dotted dss" "[]"] \<open>parser_at ?p1 (dotted dss @ [])\<close> by simp
  have "into_pattern ?p2 = map_option (\<lambda>v. \<lparr>vp_version = with_local (Segments []) (with_dev None
      (with_post None (with_pre None (with_epoch 0 v)))), vp_wildcard = False\<rparr>)
      (version_new (map (\<lambda>ds. of_nat (dec ds)) (ds # dss)))"
    using r' by (simp add: into_pattern_def release_numbers_len_def parser_new_def)
  then show ?thesis
    by (simp add: parse_slow_def leading_digit_at [OF at lead] r r' parse_tail_Nil [OF at2]
        bump_while_none [OF at2] parser_at_done [OF at2] del: with_local.simps)
qed

text \<open>A packed version is determined by the components it denotes.\<close>

definition kind_of :: "version_full \<Rightarrow> u64 \<times> u64" where
  "kind_of f =
     (case full_min f of Some n \<Rightarrow> (SUFFIX_MIN, n) | None \<Rightarrow>
      case full_dev f of Some n \<Rightarrow> (SUFFIX_DEV, n) | None \<Rightarrow>
      case full_pre f of Some p \<Rightarrow>
        (case kind p of Alpha \<Rightarrow> SUFFIX_PRE_ALPHA | Beta \<Rightarrow> SUFFIX_PRE_BETA | Rc \<Rightarrow> SUFFIX_PRE_RC, number p)
      | None \<Rightarrow>
      case full_post f of Some n \<Rightarrow> (SUFFIX_POST, n) | None \<Rightarrow>
      case full_max f of Some n \<Rightarrow> (SUFFIX_MAX, n) | None \<Rightarrow>
      if full_local f = Max then (SUFFIX_LOCAL, 0) else (SUFFIX_NONE, 0))"

lemma kind_of_small:
  assumes "wf_small s"
  shows "(small_suffix_kind s, small_suffix_version s) = kind_of (make_full (Small s))"
proof -
  from assms have "small_suffix_kind s \<le> SUFFIX_MAX" by (simp add: wf_small_def)
  from suffix_kind_cases [OF this] show ?thesis
    using assms by (auto simp: make_full_Small unpacked_def kind_of_def wf_small_def)
qed

lemma seg_eqs_repr:
  assumes "release_bits s = release_bits t" "small_suffix_kind s = small_suffix_kind t"
    "small_suffix_version s = small_suffix_version t"
  shows "s = t"
proof -
  have "cmp_of (repr s) (repr t) = EQ"
    using assms cmp_repr [of "repr s" "repr t"] by (simp add: release_bits_def kind_seg version_seg)
  then show ?thesis using assms(1) by (cases s, cases t) (simp add: release_bits_def)
qed

lemma release_take_inj:
  assumes "take m [a, b, c, d] = take n [a', b', c', d']" "m \<le> 4" "n \<le> 4"
    and "(m < 1 \<longrightarrow> a = 0) \<and> (m < 2 \<longrightarrow> b = 0) \<and> (m < 3 \<longrightarrow> c = 0) \<and> (m < 4 \<longrightarrow> d = 0)"
    and "(n < 1 \<longrightarrow> a' = 0) \<and> (n < 2 \<longrightarrow> b' = 0) \<and> (n < 3 \<longrightarrow> c' = 0) \<and> (n < 4 \<longrightarrow> d' = (0 :: u64))"
  shows "(m, a, b, c, d) = (n, a', b', c', d')"
proof -
  from assms(1) have "length (take m [a, b, c, d]) = length (take n [a', b', c', d'])" by simp
  with assms(2,3) have "m = n" by simp
  moreover have "m = 0 \<or> m = 1 \<or> m = 2 \<or> m = 3 \<or> m = 4" using assms(2) by arith
  ultimately show ?thesis using assms(1,4,5) by (elim disjE) auto
qed

lemma make_full_Small_inject:
  assumes "wf_small s" "wf_small t" "make_full (Small s) = make_full (Small t)"
  shows "s = t"
proof (rule seg_eqs_repr)
  obtain m a b c d where s: "release_bits s = (m, a, b, c, d)" by (cases "release_bits s") auto
  obtain n a' b' c' d' where t: "release_bits t = (n, a', b', c', d')" by (cases "release_bits t") auto
  from assms(3) have "full_release (make_full (Small s)) = full_release (make_full (Small t))" by simp
  then have "take m [a, b, c, d] = take n [a', b', c', d']"
    using assms(1,2) s t by (simp add: make_full_Small unpacked_def)
  then have "(m, a, b, c, d) = (n, a', b', c', d')"
    using assms(1,2) s t by (intro release_take_inj) (simp_all add: wf_small_bits)
  then show "release_bits s = release_bits t" using s t by simp
  have "(small_suffix_kind s, small_suffix_version s) = (small_suffix_kind t, small_suffix_version t)"
    using kind_of_small assms by simp
  then show "small_suffix_kind s = small_suffix_kind t" "small_suffix_version s = small_suffix_version t"
    by simp_all
qed

lemma foldl_push_release_Small:
  "len s + length ns \<le> 4 \<Longrightarrow> list_all (\<lambda>n. n \<le> 255) ns \<Longrightarrow> \<exists>t. foldl push_release (Small s) ns = Small t"
proof (induction ns arbitrary: s)
  case (Cons n ns)
  then have "n \<le> 65535" by (simp add: word_le_nat_alt)
  with Cons.prems have "\<exists>t. push_release (Small s) n = Small t \<and> len t = len s + 1"
    by (auto simp: push_release_def small_push_release_def not_less)
  with Cons show ?case by force
qed simp

lemma clear_setters_Small:
  "\<exists>t. with_epoch 0 (Small s) = Small t" "\<exists>t. with_pre None (Small s) = Small t"
  "\<exists>t. with_post None (Small s) = Small t" "\<exists>t. with_dev None (Small s) = Small t"
  "\<exists>t. with_local (Segments []) (Small s) = Small t"
  by (simp_all add: with_epoch_def small_set_epoch_def with_pre_def small_set_pre_def with_post_def
      small_set_post_def with_dev_def small_set_dev_def with_local_segments_def without_local_def
      small_set_local_def local_empty_def Let_def)

lemma from_fast_release_full:
  assumes "list_all (\<lambda>n. n < 256) [a, b, c, d]" "l \<le> 4"
    "(l < 1 \<longrightarrow> a = 0) \<and> (l < 2 \<longrightarrow> b = 0) \<and> (l < 3 \<longrightarrow> c = 0) \<and> (l < 4 \<longrightarrow> d = 0)"
  shows "\<exists>s. from_fast_release [a, b, c, d] l = \<lparr>vp_version = Small s, vp_wildcard = False\<rparr> \<and>
    wf_small s \<and> make_full (Small s) = plain_full (map of_nat (take l [a, b, c, d]))"
proof -
  let ?a = "of_nat a :: u64" and ?b = "of_nat b :: u64" and ?c = "of_nat c :: u64" and ?d = "of_nat d :: u64"
  have byte: "(of_nat n :: u64) < 2 ^ 8" if "n < 256" for n
    using that by (simp add: word_less_nat_alt unat_of_nat)
  define s where "s = \<lparr>repr = ((((repr small_new OR push_bit 48 ?a) OR push_bit 40 ?b) OR push_bit 32 ?c)
    OR push_bit 24 ?d), len = l\<rparr>"
  have "repr s = push_bit 48 ?a OR push_bit 40 ?b OR push_bit 32 ?c OR push_bit 24 ?d OR
      push_bit SUFFIX_VERSION_BIT_LEN SUFFIX_NONE"
    unfolding s_def small_new_def by (simp add: ac_simps)
  then have fast: "from_fast_release [a, b, c, d] l = \<lparr>vp_version = Small s, vp_wildcard = False\<rparr>"
    by (simp add: from_fast_release_def numeral_2_eq_2 numeral_3_eq_3) (simp add: s_def)
  have bounds: "?a < 2 ^ 8" "?b < 2 ^ 8" "?c < 2 ^ 8" "?d < 2 ^ 8"
    using assms(1) by (simp_all only: list.pred_inject byte)
  have "?a < 2 ^ 16" using bounds(1) by (simp add: word_less_nat_alt)
  have new: "seg 48 16 (repr small_new) = 0" "seg 40 8 (repr small_new) = 0" "seg 32 8 (repr small_new) = 0"
    "seg 24 8 (repr small_new) = 0" "seg 20 4 (repr small_new) = SUFFIX_NONE" "seg 0 20 (repr small_new) = 0"
    by (simp_all add: small_new_def seg_def suffix_consts SUFFIX_VERSION_BIT_LEN_def)
  have bits: "release_bits s = (l, ?a, ?b, ?c, ?d)"
    unfolding release_bits_def s_def
    using \<open>?a < 2 ^ 16\<close> bounds
    by (simp add: seg_or_push_other [where v = 8] seg_or_push_same new)
  have kind: "small_suffix_kind s = SUFFIX_NONE" "small_suffix_version s = 0"
    using bounds by (simp_all add: s_def kind_seg version_seg seg_or_push_other [where v = 8] new)
  have wf: "wf_small s" using assms(2,3) by (simp add: wf_small_bits bits kind)
  moreover have "make_full (Small s) = plain_full (map of_nat (take l [a, b, c, d]))"
    by (simp add: make_full_Small [OF wf] bits kind) (simp add: unpacked_def plain_full_def take_map [symmetric])
  ultimately show ?thesis using fast by blast
qed

lemma list_splice_update:
  "l < length rel \<Longrightarrow> length vals + Suc l \<le> length rel \<Longrightarrow>
     take (Suc l) (rel[l := x]) @ vals @ drop (Suc l + length vals) (rel[l := x]) =
     take l rel @ (x # vals) @ drop (l + length (x # vals)) rel"
  by (simp add: take_Suc_conv_app_nth)

lemma parse_fast_loop_Some:
  "parse_fast_loop s (prev, cur, rel, l) = Some (True, cur', rel', l') \<Longrightarrow> cur < 256 \<Longrightarrow>
     l' < length rel \<Longrightarrow>
     \<exists>ds dss. s = ds @ dotted dss \<and> (prev \<or> ds \<noteq> []) \<and> list_all is_ascii_digit ds \<and>
       list_all (\<lambda>ds. ds \<noteq> [] \<and> list_all is_ascii_digit ds) dss \<and>
       list_all (\<lambda>n. n < 256) (dec_from cur ds # map dec dss) \<and> l' = l + length dss \<and>
       length rel' = length rel \<and>
       rel'[l' := cur'] = take l rel @ (dec_from cur ds # map dec dss) @ drop (Suc l') rel"
proof (induction s arbitrary: prev cur rel l)
  case Nil
  then show ?case
    by (intro exI [of _ "[]"]) (simp add: upd_conv_take_nth_drop)
next
  case (Cons c s)
  show ?case
  proof (cases "c = CHR ''.''")
    case True
    with Cons.prems have prev: prev and l: "l < length rel"
      and run: "parse_fast_loop s (False, 0, rel[l := cur], l + 1) = Some (True, cur', rel', l')"
      by (auto split: if_splits)
    from Cons.IH [OF run] Cons.prems obtain ds dss where *: "s = ds @ dotted dss" "ds \<noteq> []"
      "list_all is_ascii_digit ds" "list_all (\<lambda>ds. ds \<noteq> [] \<and> list_all is_ascii_digit ds) dss"
      "list_all (\<lambda>n. n < 256) (dec ds # map dec dss)" "l' = l + 1 + length dss" "length rel' = length rel"
      "rel'[l' := cur'] = take (l + 1) (rel[l := cur]) @ (dec ds # map dec dss) @ drop (Suc l') (rel[l := cur])"
      by auto
    show ?thesis
      using * True prev Cons.prems(2,3) list_splice_update [OF l, of "dec ds # map dec dss" cur]
      by (intro exI [of _ "[]"] exI [of _ "ds # dss"]) (simp add: add.commute)
  next
    case False
    let ?n = "cur * 10 + (byte_val c - 48)"
    from False Cons.prems have d: "is_ascii_digit c" "?n < 256"
      and run: "parse_fast_loop s (True, ?n, rel, l) = Some (True, cur', rel', l')"
      by (auto simp: u8_checked_sub_def u8_checked_mul_def u8_checked_add_def is_ascii_digit_def
          bind_eq_Some_conv split: if_splits)
    from Cons.IH [OF run d(2)] Cons.prems(3) obtain ds dss where *: "s = ds @ dotted dss"
      "list_all is_ascii_digit ds" "list_all (\<lambda>ds. ds \<noteq> [] \<and> list_all is_ascii_digit ds) dss"
      "list_all (\<lambda>n. n < 256) (dec_from ?n ds # map dec dss)" "l' = l + length dss" "length rel' = length rel"
      "rel'[l' := cur'] = take l rel @ (dec_from ?n ds # map dec dss) @ drop (Suc l') rel"
      by auto
    show ?thesis
      using * d by (intro exI [of _ "c # ds"] exI [of _ dss]) simp
  qed
qed

text \<open>Both halves of \<open>parse_fast\<close> read one to four dotted numbers below 256.\<close>

lemma parse_fast_general_Some:
  assumes "parse_fast_general s = Some vpat"
  shows "\<exists>ds dss. s = ds @ dotted dss \<and>
    list_all (\<lambda>ds. ds \<noteq> [] \<and> list_all is_ascii_digit ds \<and> dec ds < 256) (ds # dss) \<and>
    length dss < 4 \<and>
    vpat = from_fast_release (map dec (ds # dss) @ replicate (3 - length dss) 0) (Suc (length dss))"
proof -
  from assms obtain cur rel l where run:
      "parse_fast_loop s (False, 0, [0, 0, 0, 0], 0) = Some (True, cur, rel, l)" "l < length rel"
      "vpat = from_fast_release (rel[l := cur]) (l + 1)"
    by (auto simp: parse_fast_general_def bind_eq_Some_conv split: if_splits)
  have len: "length rel' = length rel" if "parse_fast_loop s (prev, cur, rel, l) = Some (prev', cur', rel', l')"
    for s prev cur rel l prev' cur' rel' l'
    using that by (induction s "(prev, cur, rel, l)" arbitrary: prev cur rel l rule: parse_fast_loop.induct)
       (auto simp: bind_eq_Some_conv split: if_splits)
  have "l < length [0, 0, 0, 0::nat]" using len [OF run(1)] run(2) by simp
  from parse_fast_loop_Some [OF run(1) _ this] obtain ds dss where *: "s = ds @ dotted dss" "ds \<noteq> []"
      "list_all is_ascii_digit ds" "list_all (\<lambda>ds. ds \<noteq> [] \<and> list_all is_ascii_digit ds) dss"
      "list_all (\<lambda>n. n < 256) (map dec (ds # dss))" "l = length dss"
      "rel[l := cur] = map dec (ds # dss) @ drop (Suc l) [0, 0, 0, 0]"
    by auto
  have "drop (Suc l) [0, 0, 0, 0::nat] = replicate (3 - length dss) 0"
    using \<open>l < length [0, 0, 0, 0::nat]\<close> *(6) drop_replicate [of "Suc l" 4 "0::nat"]
    by (simp add: numeral_eq_Suc)
  moreover have "list_all (\<lambda>ds. ds \<noteq> [] \<and> list_all is_ascii_digit ds \<and> dec ds < 256) (ds # dss)"
    using *(2-5) by (auto simp: list_all_iff)
  ultimately show ?thesis
    using * run(3) \<open>l < length [0, 0, 0, 0::nat]\<close> by (intro exI [of _ ds] exI [of _ dss]) simp
qed

lemma u8_wrapping_digit:
  "u8_wrapping_sub (byte_val c) 48 \<le> 9 \<longleftrightarrow> is_ascii_digit c"
  "is_ascii_digit c \<Longrightarrow> u8_wrapping_sub (byte_val c) 48 = byte_val c - 48"
  using byte_val_less [of c] by (auto simp: u8_wrapping_sub_def is_ascii_digit_def mod_if)

lemma parse_fast_Some:
  assumes "parse_fast p = Some vpat"
  shows "\<exists>ds dss. p_v p = ds @ dotted dss \<and>
    list_all (\<lambda>ds. ds \<noteq> [] \<and> list_all is_ascii_digit ds \<and> dec ds < 256) (ds # dss) \<and>
    length dss < 4 \<and>
    vpat = from_fast_release (map dec (ds # dss) @ replicate (3 - length dss) 0) (Suc (length dss))"
proof (cases "parse_fast_general (p_v p) = Some vpat")
  case False
  with assms obtain x y z where v: "p_v p = [x, CHR ''.'', y, CHR ''.'', z]"
    and d: "is_ascii_digit x" "is_ascii_digit y" "is_ascii_digit z"
    and vpat: "vpat = from_fast_release [byte_val x - 48, byte_val y - 48, byte_val z - 48, 0] 3"
    by (auto simp: parse_fast_def u8_wrapping_digit Let_def split: list.splits if_splits)
  then show ?thesis
    using d by (intro exI [of _ "[x]"] exI [of _ "[[y], [z]]"]) (auto simp: is_ascii_digit_def numeral_3_eq_3)
qed (use parse_fast_general_Some in blast)

lemma pad_four:
  assumes "length dss < 4"
  shows "\<exists>a b c d. map dec (ds # dss) @ replicate (3 - length dss) 0 = [a, b, c, d] \<and>
    take (Suc (length dss)) [a, b, c, d] = map dec (ds # dss) \<and>
    (Suc (length dss) < 2 \<longrightarrow> b = 0) \<and> (Suc (length dss) < 3 \<longrightarrow> c = 0) \<and> (Suc (length dss) < 4 \<longrightarrow> d = 0)"
proof -
  have "length dss = 0 \<or> length dss = 1 \<or> length dss = 2 \<or> length dss = 3" using assms by arith
  then show ?thesis by (elim disjE) (auto simp: length_Suc_conv numeral_eq_Suc)
qed

lemma parse_fast_parse_slow:
  assumes "parse_fast (parser_new s) = Some vpat"
  shows "parse_slow (parser_new s) = Inr vpat"
proof -
  from parse_fast_Some [OF assms] obtain ds dss where s: "s = ds @ dotted dss"
    and nums: "list_all (\<lambda>ds. ds \<noteq> [] \<and> list_all is_ascii_digit ds \<and> dec ds < 256) (ds # dss)"
    and len: "length dss < 4"
    and vpat: "vpat = from_fast_release (map dec (ds # dss) @ replicate (3 - length dss) 0) (Suc (length dss))"
    by (auto simp: parser_new_def)
  let ?vals = "map (\<lambda>ds. of_nat (dec ds)) (ds # dss) :: u64 list"
  from pad_four [OF len, of ds] obtain a b c d where pad:
    "map dec (ds # dss) @ replicate (3 - length dss) 0 = [a, b, c, d]"
    "take (Suc (length dss)) [a, b, c, d] = map dec (ds # dss)"
    "(Suc (length dss) < 2 \<longrightarrow> b = 0) \<and> (Suc (length dss) < 3 \<longrightarrow> c = 0) \<and> (Suc (length dss) < 4 \<longrightarrow> d = 0)"
    by blast
  have "list_all (\<lambda>n. n < 256) (map dec (ds # dss) @ replicate (3 - length dss) 0)"
    using nums by (auto simp: list_all_iff)
  then have "list_all (\<lambda>n. n < 256) [a, b, c, d]" unfolding pad(1) .
  from from_fast_release_full [OF this, of "Suc (length dss)"] pad(3) len obtain f where
    f: "from_fast_release [a, b, c, d] (Suc (length dss)) = \<lparr>vp_version = Small f, vp_wildcard = False\<rparr>"
      "wf_small f" "make_full (Small f) = plain_full (map of_nat (map dec (ds # dss)))"
    unfolding pad(2) by auto
  then have f': "vpat = \<lparr>vp_version = Small f, vp_wildcard = False\<rparr>" "make_full (Small f) = plain_full ?vals"
    using vpat pad(1) by (simp_all add: comp_def)
  have "list_all (\<lambda>n. n \<le> 255) ?vals"
    using nums by (auto simp: list_all_iff word_le_nat_alt unat_of_nat)
  moreover have "clear_release (Small small_new) = Small (small_clear_release small_new)" by simp
  ultimately obtain g where "version_new ?vals = Some (Small g)"
    using foldl_push_release_Small [of "small_clear_release small_new" ?vals] len version_new_full(2) [of ?vals]
    by (auto simp: version_new_def with_release_def small_clear_release_def Let_def split: if_splits)
  moreover obtain h where h: "with_local (Segments []) (with_dev None (with_post None (with_pre None
      (with_epoch 0 (Small g))))) = Small h"
    using clear_setters_Small by (metis (no_types))
  moreover have "wf_version (Small g)" "make_full (Small g) = plain_full ?vals"
    using version_new_full(2) [of ?vals] calculation(1) by auto
  then have "wf_version (Small h)" "make_full (Small h) = plain_full ?vals"
    unfolding h [symmetric] by (simp_all add: setters_wf setters_full plain_full_def del: with_local.simps)
  then have "h = f" using make_full_Small_inject f(2) f'(2) by simp
  moreover have "list_all number_string (ds # dss)" using nums by (auto simp: list_all_iff)
  ultimately show ?thesis
    unfolding s f'(1) by (simp only: parse_slow_dotted) (simp add: h del: with_local.simps)
qed

lemma parse_pattern_eq_slow: "parse_pattern (parser_new s) = parse_slow (parser_new s)"
  using parse_fast_parse_slow [of s] by (simp add: parse_pattern_def split: option.splits)

section \<open>Reading back a displayed version\<close>

lemma starts_with_simps [simp]:
  "starts_with_ignore_ascii_case [] s"
  "\<not> starts_with_ignore_ascii_case (a # t) []"
  "starts_with_ignore_ascii_case (a # t) (b # s) \<longleftrightarrow> eq_ignore_ascii_case a b \<and> starts_with_ignore_ascii_case t s"
  by (auto simp: starts_with_ignore_ascii_case_def)

lemma eq_ignore_refl [simp]: "eq_ignore_ascii_case c c"
  by (simp add: eq_ignore_ascii_case_def)

lemma starts_with_refl [simp]: "starts_with_ignore_ascii_case t (t @ s)"
  by (induction t) simp_all

lemma eq_ignore_lower:
  "\<not> is_ascii_uppercase a \<Longrightarrow> \<not> is_ascii_uppercase b \<Longrightarrow> eq_ignore_ascii_case a b \<longleftrightarrow> a = b"
  by (simp add: eq_ignore_ascii_case_def to_lowercase_id)

lemma lower_chars [simp]:
  "\<not> is_ascii_uppercase CHR ''a''" "\<not> is_ascii_uppercase CHR ''b''" "\<not> is_ascii_uppercase CHR ''c''"
  "\<not> is_ascii_uppercase CHR ''d''" "\<not> is_ascii_uppercase CHR ''e''" "\<not> is_ascii_uppercase CHR ''o''"
  "\<not> is_ascii_uppercase CHR ''p''" "\<not> is_ascii_uppercase CHR ''r''" "\<not> is_ascii_uppercase CHR ''s''"
  "\<not> is_ascii_uppercase CHR ''t''" "\<not> is_ascii_uppercase CHR ''v''" "\<not> is_ascii_uppercase CHR ''.''"
  "\<not> is_ascii_uppercase CHR ''+''" "\<not> is_ascii_uppercase CHR ''-''" "\<not> is_ascii_uppercase CHR ''*''"
  "\<not> is_ascii_uppercase CHR ''!''" "\<not> is_ascii_uppercase CHR ''l''"
  by (simp_all add: byte_defs)

lemma digit_eq_ignore [simp]:
  assumes "is_ascii_digit d"
  shows "\<not> is_ascii_uppercase d" "d \<noteq> CHR ''l''" "d \<noteq> CHR ''e''" "d \<noteq> CHR ''+''" "d \<noteq> CHR ''.''"
    "d \<noteq> CHR ''-''" "d \<noteq> CHR ''_''" "d \<noteq> CHR ''!''" "d \<noteq> CHR ''*''" "d \<noteq> CHR ''d''" "d \<noteq> CHR ''p''"
    "CHR ''l'' \<noteq> d" "CHR ''e'' \<noteq> d"
  using assms by (auto simp: is_ascii_digit_def is_ascii_uppercase_def byte_val_def)

definition pre_set :: string_set where
  "pre_set = the (string_set_new PRE_SPELLINGS)"

definition post_set :: string_set where
  "post_set = the (string_set_new POST_SPELLINGS)"

lemma sets_eq: "string_set_new PRE_SPELLINGS = Some pre_set" "string_set_new POST_SPELLINGS = Some post_set"
  using spellings_ok by (auto simp: pre_set_def post_set_def)

lemma sets_strings: "strings pre_set = PRE_SPELLINGS" "strings post_set = POST_SPELLINGS"
  using sets_eq by (auto dest: string_set_new_Some)

lemma case_conv_simps [simp]:
  "to_ascii_uppercase CHR ''a'' = CHR ''A''" "to_ascii_uppercase CHR ''b'' = CHR ''B''"
  "to_ascii_uppercase CHR ''c'' = CHR ''C''" "to_ascii_uppercase CHR ''p'' = CHR ''P''"
  "to_ascii_uppercase CHR ''r'' = CHR ''R''" "to_ascii_uppercase (CHR 0x00) = CHR 0x00"
  "to_ascii_lowercase CHR ''a'' = CHR ''a''" "to_ascii_lowercase CHR ''b'' = CHR ''b''"
  "to_ascii_lowercase CHR ''c'' = CHR ''c''" "to_ascii_lowercase CHR ''p'' = CHR ''p''"
  "to_ascii_lowercase CHR ''r'' = CHR ''r''" "to_ascii_lowercase (CHR 0x00) = CHR 0x00"
  by code_simp+

lemma sets_first:
  "first_byte pre_set = (\<lambda>c. c \<in> set ''abprcABPRC'' \<or> c = CHR 0x00)"
  "first_byte post_set = (\<lambda>c. c \<in> set ''prPR'' \<or> c = CHR 0x00)"
  by (auto simp: pre_set_def post_set_def string_set_new_def PRE_SPELLINGS_def POST_SPELLINGS_def
      numeral_eq_Suc fun_eq_iff)

lemmas set_simps = string_set_starts_with_def byte_set_starts_with_def sets_first sets_strings
  PRE_SPELLINGS_def POST_SPELLINGS_def

lemma pre_set_none:
  "string_set_starts_with pre_set (CHR ''+'' # s) = None"
  "string_set_starts_with pre_set (''dev'' @ s) = None"
  "string_set_starts_with pre_set (''post'' @ s) = None"
  by (simp_all add: set_simps eq_ignore_lower)

lemma post_set_at:
  "string_set_starts_with post_set (CHR ''+'' # s) = None"
  "string_set_starts_with post_set (''dev'' @ s) = None"
  "string_set_starts_with post_set (''post'' @ s) = Some 0"
  by (simp_all add: set_simps eq_ignore_lower)

lemma pre_set_some:
  "is_ascii_digit d \<Longrightarrow> string_set_starts_with pre_set (CHR ''a'' # d # s) = Some 5"
  "is_ascii_digit d \<Longrightarrow> string_set_starts_with pre_set (CHR ''b'' # d # s) = Some 6"
  "string_set_starts_with pre_set (''rc'' @ s) = Some 4"
  by (simp_all add: set_simps eq_ignore_lower numeral_eq_Suc)

lemma show_u64_Cons: "\<exists>d ds. show_u64 n = d # ds \<and> is_ascii_digit d"
  using show_u64_digits [of n] by (cases "show_u64 n") auto

lemma starts_show_u64 [simp]: "starts P (show_u64 n @ s) \<longleftrightarrow> P (hd (show_u64 n))"
  using show_u64_digits [of n] by (cases "show_u64 n") auto

lemma hd_show_u64 [simp]: "is_ascii_digit (hd (show_u64 n))"
  using show_u64_Cons [of n] by auto

lemma show_u64_number_string: "n < u64_MAX \<Longrightarrow> number_string (show_u64 n)"
  by (simp add: word_less_nat_alt)

lemma parse_number_show:
  "parser_at p (show_u64 n @ s) \<Longrightarrow> n < u64_MAX \<Longrightarrow> \<not> starts is_ascii_digit s \<Longrightarrow>
     parse_number p = Inr (Some n, adv (length (show_u64 n)) p)"
  using parse_number_at [of p "show_u64 n" s] show_u64_number_string [of n] by simp

lemma no_separator_show: "parser_at p (show_u64 n @ s) \<Longrightarrow> bump_if_byte_set SEPARATOR p = Inr (None, p)"
  using bump_if_byte_set_at(2) [of p "show_u64 n @ s" SEPARATOR] digit_eq_ignore [OF hd_show_u64 [of n]] by simp

text \<open>What can follow the pre-release part of a displayed version.\<close>

definition tail_ok :: "string \<Rightarrow> bool" where
  "tail_ok s \<longleftrightarrow> s = [] \<or> (\<exists>u. s = CHR ''+'' # u) \<or> (\<exists>u. s = CHR ''.'' # ''dev'' @ u) \<or>
     (\<exists>u. s = CHR ''.'' # ''post'' @ u)"

lemma tail_ok_cases [consumes 1, case_names Nil local dev post]:
  assumes "tail_ok s"
  obtains "s = []" | u where "s = CHR ''+'' # u" | u where "s = CHR ''.'' # ''dev'' @ u"
    | u where "s = CHR ''.'' # ''post'' @ u"
  using assms unfolding tail_ok_def by blast

lemma tail_ok_simps [simp]:
  "tail_ok []" "tail_ok (CHR ''+'' # u)" "tail_ok (CHR ''.'' # CHR ''d'' # CHR ''e'' # CHR ''v'' # u)"
  "tail_ok (CHR ''.'' # CHR ''p'' # CHR ''o'' # CHR ''s'' # CHR ''t'' # u)"
  by (simp_all add: tail_ok_def)

lemma no_digits [simp]: "\<not> is_ascii_digit CHR ''+''" "\<not> is_ascii_digit CHR ''d''" "\<not> is_ascii_digit CHR ''p''"
  "\<not> is_ascii_digit CHR ''a''" "\<not> is_ascii_digit CHR ''b''" "\<not> is_ascii_digit CHR ''r''" "\<not> is_ascii_digit CHR ''!''"
  by (simp_all add: byte_defs)

lemma tail_no_digit: "tail_ok s \<Longrightarrow> \<not> starts is_ascii_digit s"
  by (cases s rule: tail_ok_cases) auto

lemma parse_pre_none:
  assumes "parser_at p s" "tail_ok s"
  shows "parse_pre p = Inr ((), p)"
  using assms(2)
proof (cases s rule: tail_ok_cases)
  case Nil
  with assms show ?thesis by (simp add: parse_tail_Nil)
next
  case (local u)
  have "bump_if_byte_set SEPARATOR p = Inr (None, p)" "bump_if_string_set pre_set p = Inr (None, p)"
    using assms(1) local by (simp_all add: bump_if_byte_set_at(2) bump_if_string_set_at(2) pre_set_none)
  then show ?thesis by (simp add: parse_pre_def sets_eq Let_def reset_at [OF assms(1)])
next
  case (dev u)
  then have at: "parser_at (adv 1 p) (''dev'' @ u)"
    using assms(1) parser_at_adv1 [of p "CHR ''.''" "''dev'' @ u"] by simp
  have "bump_if_byte_set SEPARATOR p = Inr (Some CHR ''.'', adv 1 p)"
    using assms(1) dev by (simp add: bump_if_byte_set_at(1))
  then show ?thesis
    using bump_if_string_set_at(2) [OF at pre_set_none(2)]
    by (simp add: parse_pre_def sets_eq Let_def reset_adv [OF assms(1)])
next
  case (post u)
  then have at: "parser_at (adv 1 p) (''post'' @ u)"
    using assms(1) parser_at_adv1 [of p "CHR ''.''" "''post'' @ u"] by simp
  have "bump_if_byte_set SEPARATOR p = Inr (Some CHR ''.'', adv 1 p)"
    using assms(1) post by (simp add: bump_if_byte_set_at(1))
  then show ?thesis
    using bump_if_string_set_at(2) [OF at pre_set_none(3)]
    by (simp add: parse_pre_def sets_eq Let_def reset_adv [OF assms(1)])
qed

lemma pre_set_show:
  "\<exists>i. string_set_starts_with pre_set (show_kind k @ show_u64 n @ s) = Some i \<and> i < length PRE_MAP \<and>
     PRE_MAP ! i = k \<and> length (PRE_SPELLINGS ! i) = length (show_kind k)"
proof -
  obtain d ds where "show_u64 n = d # ds" "is_ascii_digit d" using show_u64_Cons by blast
  then show ?thesis
    using pre_set_some(1,2) [of d "ds @ s"] pre_set_some(3) [of "show_u64 n @ s"]
    by (cases k) (auto simp: PRE_MAP_def PRE_SPELLINGS_def)
qed

lemma parse_pre_show:
  assumes "parser_at p (show_pre q @ s)" "tail_ok s" "pred_option (\<lambda>q. number q < u64_MAX) q" "p_pre p = None"
  shows "parse_pre p = Inr ((), (adv (length (show_pre q)) p)\<lparr>p_pre := q\<rparr>)"
proof (cases q)
  case None
  have "p\<lparr>p_pre := None\<rparr> = p" using assms(4) by (cases p) simp
  then show ?thesis using parse_pre_none [of p s] assms None by simp
next
  case (Some r)
  let ?k = "show_kind (kind r)" and ?n = "show_u64 (number r)"
  have at: "parser_at p (?k @ ?n @ s)" using assms(1) Some by simp
  have at1: "parser_at (adv (length ?k) p) (?n @ s)" using parser_at_adv [OF at] .
  obtain i where i: "string_set_starts_with pre_set (?k @ ?n @ s) = Some i" "i < length PRE_MAP"
     "PRE_MAP ! i = kind r" "length (PRE_SPELLINGS ! i) = length ?k"
    using pre_set_show by blast
  have "bump_if_byte_set SEPARATOR p = Inr (None, p)"
    by (rule bump_if_byte_set_at(2) [OF at]) (cases "kind r"; simp)
  moreover have "bump_if_string_set pre_set p = Inr (Some i, adv (length ?k) p)"
    using bump_if_string_set_at(1) [OF at i(1)] by (simp add: sets_strings i(4))
  moreover have "parse_number (adv (length ?k) p) = Inr (Some (number r), adv (length ?k + length ?n) p)"
    using parse_number_show [OF at1] assms(2,3) Some tail_no_digit by simp
  ultimately show ?thesis
    using Some i(2,3) by (simp add: parse_pre_def sets_eq Let_def no_separator_show [OF at1])
qed

text \<open>What can follow the post-release part, and the dev-release part.\<close>

lemma bump_dash_none: "parser_at p s \<Longrightarrow> tail_ok s \<Longrightarrow> bump_if ''-'' p = Inr (False, p)"
  by (erule bump_if_no, erule tail_ok_cases) (auto simp: eq_ignore_lower)

lemma parse_post_none:
  assumes "parser_at p s" "tail_ok s" "\<not> (\<exists>u. s = CHR ''.'' # ''post'' @ u)"
  shows "parse_post p = Inr ((), p)"
  using assms(2)
proof (cases s rule: tail_ok_cases)
  case Nil
  with assms show ?thesis by (simp add: parse_tail_Nil)
next
  case (local u)
  have "bump_if_byte_set SEPARATOR p = Inr (None, p)" "bump_if_string_set post_set p = Inr (None, p)"
    using assms(1) local by (simp_all add: bump_if_byte_set_at(2) bump_if_string_set_at(2) post_set_at)
  then show ?thesis
    by (simp add: parse_post_def parse_post_spelled_def sets_eq Let_def reset_at [OF assms(1)]
        bump_dash_none [OF assms(1,2)])
next
  case (dev u)
  then have at: "parser_at (adv 1 p) (''dev'' @ u)"
    using assms(1) parser_at_adv1 [of p "CHR ''.''" "''dev'' @ u"] by simp
  have "bump_if_byte_set SEPARATOR p = Inr (Some CHR ''.'', adv 1 p)"
    using assms(1) dev by (simp add: bump_if_byte_set_at(1))
  then show ?thesis
    using bump_if_string_set_at(2) [OF at post_set_at(2)]
    by (simp add: parse_post_def parse_post_spelled_def sets_eq Let_def reset_adv [OF assms(1)]
        bump_dash_none [OF assms(1,2)])
qed (use assms(3) in blast)

lemma parse_post_show:
  assumes "parser_at p (show_post q @ s)" "tail_ok s" "\<not> (\<exists>u. s = CHR ''.'' # ''post'' @ u)"
    "pred_option (\<lambda>n. n < u64_MAX) q" "p_post p = None"
  shows "parse_post p = Inr ((), (adv (length (show_post q)) p)\<lparr>p_post := q\<rparr>)"
proof (cases q)
  case None
  have "p\<lparr>p_post := None\<rparr> = p" using assms(5) by (cases p) simp
  then show ?thesis using parse_post_none [of p s] assms None by simp
next
  case (Some n)
  have at: "parser_at p (CHR ''.'' # ''post'' @ show_u64 n @ s)" using assms(1) Some by simp
  have at1: "parser_at (adv 1 p) (''post'' @ show_u64 n @ s)" using parser_at_adv1 [OF at] .
  have at2: "parser_at (adv 5 p) (show_u64 n @ s)" using parser_at_adv [OF at1] by (simp add: numeral_eq_Suc)
  have "bump_if ''-'' p = Inr (False, p)" by (rule bump_dash_none [OF at]) simp
  moreover have "bump_if_byte_set SEPARATOR p = Inr (Some CHR ''.'', adv 1 p)"
    by (rule bump_if_byte_set_at(1) [OF at]) simp
  moreover have "bump_if_string_set post_set (adv 1 p) = Inr (Some 0, adv 5 p)"
    using bump_if_string_set_at(1) [OF at1 post_set_at(3)] by (simp add: sets_strings POST_SPELLINGS_def numeral_eq_Suc)
  moreover have "parse_number (adv 5 p) = Inr (Some n, adv (5 + length (show_u64 n)) p)"
    using parse_number_show [OF at2] assms(2,4) Some tail_no_digit by simp
  ultimately show ?thesis
    using Some by (simp add: parse_post_def parse_post_spelled_def sets_eq Let_def no_separator_show [OF at2])
qed

lemma parse_dev_show:
  assumes "parser_at p (show_dev q @ s)" "s = [] \<or> (\<exists>u. s = CHR ''+'' # u)"
    "pred_option (\<lambda>n. n < u64_MAX) q" "p_dev p = None"
  shows "parse_dev p = Inr ((), (adv (length (show_dev q)) p)\<lparr>p_dev := q\<rparr>)"
proof (cases q)
  case None
  have "p\<lparr>p_dev := None\<rparr> = p" using assms(4) by (cases p) simp
  moreover have at: "parser_at p s" using assms(1) None by simp
  moreover have "bump_if_byte_set SEPARATOR p = Inr (None, p)" "bump_if ''dev'' p = Inr (False, p)"
    using assms(2) by (auto intro!: bump_if_byte_set_at(2) [OF at] bump_if_no [OF at] simp: eq_ignore_lower)
  ultimately show ?thesis using None by (simp add: parse_dev_def Let_def reset_at)
next
  case (Some n)
  have at: "parser_at p (CHR ''.'' # ''dev'' @ show_u64 n @ s)" using assms(1) Some by simp
  have at1: "parser_at (adv 1 p) (''dev'' @ show_u64 n @ s)" using parser_at_adv1 [OF at] .
  have at2: "parser_at (adv 4 p) (show_u64 n @ s)" using parser_at_adv [OF at1] by (simp add: numeral_eq_Suc)
  have "bump_if_byte_set SEPARATOR p = Inr (Some CHR ''.'', adv 1 p)"
    by (rule bump_if_byte_set_at(1) [OF at]) simp
  moreover have "bump_if ''dev'' (adv 1 p) = Inr (True, adv 4 p)"
    using bump_if_yes [OF at1, of "''dev''"] by (simp add: numeral_eq_Suc)
  moreover have "\<not> starts is_ascii_digit s" using assms(2) by auto
  then have "parse_number (adv 4 p) = Inr (Some n, adv (4 + length (show_u64 n)) p)"
    using parse_number_show [OF at2] assms(3) Some by simp
  ultimately show ?thesis
    using Some by (simp add: parse_dev_def Let_def no_separator_show [OF at2])
qed

lemma show_segment_alnum:
  "parsed_segment x \<Longrightarrow> show_segment x \<noteq> [] \<and> list_all is_ascii_alphanumeric (show_segment x)"
proof (cases x)
  case (Number n)
  then show ?thesis
    using show_u64_digits [of n] by (auto simp: list_all_iff is_ascii_alphanumeric_def)
qed (auto simp: list_all_iff is_ascii_alphanumeric_def)

lemma local_segment_of_show: "parsed_segment x \<Longrightarrow> local_segment_of (show_segment x) = Inr x"
proof (cases x)
  case (String s)
  assume "parsed_segment x"
  with String have "map to_ascii_lowercase s = s" "isl (parse_u64 s)"
    by (auto simp: list_all_iff to_ascii_lowercase_def byte_defs intro!: map_idI)
  moreover have "parse_u64 s \<noteq> Inl Panic" using parse_u64_ensures [of s] by auto
  ultimately show ?thesis
    using String by (auto simp: local_segment_of_def split: sum.splits fault.splits)
qed (simp add: local_segment_of_def)

lemma parse_local_loop_show:
  "parser_at p (show_segment x @ dotted (map show_segment xs)) \<Longrightarrow> list_all parsed_segment (x # xs) \<Longrightarrow>
     parse_local_loop c p =
       Inr ((), (adv (length (show_segment x @ dotted (map show_segment xs))) p)\<lparr>p_local := p_local p @ x # xs\<rparr>)"
proof (induction xs arbitrary: x c p)
  case Nil
  then have "bump_while is_ascii_alphanumeric p = Inr (show_segment x, adv (length (show_segment x)) p)"
    using bump_while_at [of p "show_segment x" "[]"] show_segment_alnum [of x] by simp
  moreover have "parser_at ((adv (length (show_segment x)) p)\<lparr>p_local := p_local p @ [x]\<rparr>) []"
    using Nil parser_at_adv [of p "show_segment x" "[]"] by simp
  from bump_if_byte_set_at(2) [OF this, of SEPARATOR] show ?case
    using calculation Nil show_segment_alnum [of x] local_segment_of_show [of x]
    by (simp add: parse_local_loop.simps [of c p])
next
  case (Cons y ys)
  let ?n = "length (show_segment x)"
  let ?p1 = "(adv ?n p)\<lparr>p_local := p_local p @ [x]\<rparr>"
  let ?p2 = "(adv (Suc ?n) p)\<lparr>p_local := p_local p @ [x]\<rparr>"
  have upd: "adv n (q\<lparr>p_local := l\<rparr>) = (adv n q)\<lparr>p_local := l\<rparr>" for n q l by (simp add: adv_def)
  have "\<not> is_ascii_alphanumeric CHR ''.''" by (simp add: byte_defs)
  then have "bump_while is_ascii_alphanumeric p = Inr (show_segment x, adv ?n p)"
    using Cons.prems bump_while_at [of p "show_segment x" "dotted (map show_segment (y # ys))"]
      show_segment_alnum [of x] by simp
  moreover have at1: "parser_at ?p1 (CHR ''.'' # show_segment y @ dotted (map show_segment ys))"
    using Cons.prems parser_at_adv [of p "show_segment x" "dotted (map show_segment (y # ys))"] by simp
  from bump_if_byte_set_at(1) [OF this, of SEPARATOR]
  have "bump_if_byte_set SEPARATOR ?p1 = Inr (Some CHR ''.'', ?p2)" by (simp add: upd)
  ultimately have "parse_local_loop c p = parse_local_loop CHR ''.'' ?p2"
    using Cons.prems show_segment_alnum [of x] local_segment_of_show [of x]
    by (simp add: parse_local_loop.simps [of c p])
  moreover have "parser_at ?p2 (show_segment y @ dotted (map show_segment ys))"
    using parser_at_adv1 [OF at1] by (simp add: upd)
  ultimately show ?case using Cons.IH [of ?p2 y] Cons.prems by (simp add: upd ac_simps)
qed

lemma parse_local_show:
  assumes "parser_at p (show_local_part (Segments segs))" "list_all parsed_segment segs" "p_local p = []"
  shows "parse_local p = Inr ((), (adv (length (show_local_part (Segments segs))) p)\<lparr>p_local := segs\<rparr>)"
proof (cases segs)
  case Nil
  have "p\<lparr>p_local := []\<rparr> = p" using assms(3) by (cases p) simp
  then show ?thesis using assms(1) Nil by (simp add: show_local_part_def parse_tail_Nil)
next
  case (Cons x xs)
  let ?s = "show_segment x @ dotted (map show_segment xs)"
  have str: "show_local_part (Segments segs) = CHR ''+'' # ?s" by (simp add: Cons show_local_part_def dotted_def comp_def)
  have "bump_if ''+'' p = Inr (True, adv 1 p)"
    using bump_if_yes [of p "CHR ''+'' # ?s" "''+''"] assms(1) str by simp
  then show ?thesis
    using parse_local_loop_show [of "adv 1 p" x xs "CHR ''+''"] parser_at_adv1 [of p "CHR ''+''" ?s] assms str Cons
    by (simp add: parse_local_def)
qed

text \<open>The part of a displayed version after its release.\<close>

definition show_suffix :: "version_full \<Rightarrow> string" where
  "show_suffix f = show_pre (full_pre f) @ show_post (full_post f) @ show_dev (full_dev f) @
     show_local_part (full_local f)"

lemma show_suffix_tails:
  assumes "full_local f = Segments segs"
  shows "tail_ok (show_post (full_post f) @ show_dev (full_dev f) @ show_local_part (full_local f))"
    "tail_ok (show_dev (full_dev f) @ show_local_part (full_local f))"
    "\<not> (\<exists>u. show_dev (full_dev f) @ show_local_part (full_local f) = CHR ''.'' # ''post'' @ u)"
    "show_local_part (full_local f) = [] \<or> (\<exists>u. show_local_part (full_local f) = CHR ''+'' # u)"
  using assms
  by (cases "full_post f"; cases "full_dev f"; auto simp: show_local_part_def)+

lemma show_suffix_start:
  assumes "full_local f = Segments segs" "parser_at p (show_suffix f)"
  shows "ends_release (show_suffix f)" "\<not> starts (\<lambda>c. c = CHR ''!'') (show_suffix f)"
    "parse_wildcard p = Inr (False, p)"
proof -
  have "ends_release (show_suffix f) \<and> \<not> starts (\<lambda>c. c = CHR ''!'') (show_suffix f) \<and>
      \<not> starts_with_ignore_ascii_case ''.*'' (show_suffix f)"
  proof (cases "full_pre f")
    case None
    then have "tail_ok (show_suffix f)"
      using show_suffix_tails(1) [OF assms(1)] by (simp add: show_suffix_def)
    then show ?thesis
      by (cases "show_suffix f" rule: tail_ok_cases) (auto simp: ends_release_def eq_ignore_lower)
  next
    case (Some q)
    then show ?thesis by (cases "kind q") (auto simp: show_suffix_def ends_release_def eq_ignore_lower)
  qed
  then show "ends_release (show_suffix f)" "\<not> starts (\<lambda>c. c = CHR ''!'') (show_suffix f)"
    "parse_wildcard p = Inr (False, p)"
    using bump_if_no [OF assms(2), of "''.*''"] by (auto simp: parse_wildcard_def)
qed

lemma parse_suffix_show:
  assumes "parser_at p (show_suffix f)" "full_local f = Segments segs" "list_all parsed_segment segs"
    "pred_option (\<lambda>q. number q < u64_MAX) (full_pre f)" "pred_option (\<lambda>n. n < u64_MAX) (full_post f)"
    "pred_option (\<lambda>n. n < u64_MAX) (full_dev f)"
    and blank: "p_pre p = None" "p_post p = None" "p_dev p = None" "p_local p = []"
  shows "\<exists>p1 p2 p3 p4. parse_pre p = Inr ((), p1) \<and> parse_post p1 = Inr ((), p2) \<and>
    parse_dev p2 = Inr ((), p3) \<and> parse_local p3 = Inr ((), p4) \<and> parser_at p4 [] \<and>
    p4 = (adv (length (show_suffix f)) p)\<lparr>p_pre := full_pre f, p_post := full_post f, p_dev := full_dev f,
      p_local := segs\<rparr>"
proof -
  let ?L = "show_local_part (full_local f)"
  let ?D = "show_dev (full_dev f) @ ?L"
  let ?P = "show_post (full_post f) @ ?D"
  note tails = show_suffix_tails [OF assms(2)]
  let ?p1 = "(adv (length (show_pre (full_pre f))) p)\<lparr>p_pre := full_pre f\<rparr>"
  have 1: "parse_pre p = Inr ((), ?p1)" "parser_at ?p1 ?P"
    using parse_pre_show [of p "full_pre f" ?P] parser_at_adv [of p "show_pre (full_pre f)" ?P] assms tails
    by (simp_all add: show_suffix_def)
  let ?p2 = "(adv (length (show_post (full_post f))) ?p1)\<lparr>p_post := full_post f\<rparr>"
  have 2: "parse_post ?p1 = Inr ((), ?p2)" "parser_at ?p2 ?D"
    using parse_post_show [of ?p1 "full_post f" ?D] parser_at_adv [of ?p1 "show_post (full_post f)" ?D]
      1(2) assms tails by simp_all
  let ?p3 = "(adv (length (show_dev (full_dev f))) ?p2)\<lparr>p_dev := full_dev f\<rparr>"
  have 3: "parse_dev ?p2 = Inr ((), ?p3)" "parser_at ?p3 ?L"
    using parse_dev_show [of ?p2 "full_dev f" ?L] parser_at_adv [of ?p2 "show_dev (full_dev f)" ?L]
      2(2) assms tails by simp_all
  let ?p4 = "(adv (length ?L) ?p3)\<lparr>p_local := segs\<rparr>"
  have 4: "parse_local ?p3 = Inr ((), ?p4)" "parser_at ?p4 []"
    using parse_local_show [of ?p3 segs] parser_at_adv [of ?p3 ?L "[]"] 3(2) assms by simp_all
  have "?p4 = (adv (length (show_suffix f)) p)\<lparr>p_pre := full_pre f, p_post := full_post f,
      p_dev := full_dev f, p_local := segs\<rparr>"
    by (simp add: adv_def show_suffix_def ac_simps)
  with 1 2 3 4 show ?thesis by blast
qed

lemma show_dotted_dotted: "xs \<noteq> [] \<Longrightarrow> show_dotted xs = hd xs @ dotted (tl xs)"
  by (cases xs) (simp_all add: dotted_def)

lemma bump_bang: "parser_at p (CHR ''!'' # s) \<Longrightarrow> bump_if ''!'' p = Inr (True, adv 1 p)"
  using bump_if_yes [of p "CHR ''!'' # s" "''!''"] by simp

text \<open>The epoch and the first release number of a displayed version.\<close>

lemma parse_epoch_show:
  assumes "parser_at p ((if e \<noteq> 0 then show_u64 e @ ''!'' else []) @ show_u64 n @ s)"
    "e < u64_MAX" "n < u64_MAX" "\<not> starts is_ascii_digit s" "\<not> starts (\<lambda>c. c = CHR ''!'') s"
    "wf_release (p_release p)" "p_epoch p = 0"
  shows "\<exists>k r. parse_epoch_and_initial_release p = Inr ((), (adv k p)\<lparr>p_epoch := e, p_release := r\<rparr>) \<and>
    parser_at (adv k p) s \<and>
    wf_release r \<and> release_numbers_as_slice r = release_numbers_as_slice (p_release p) @ [n]"
proof (cases "e = 0")
  case True
  have at: "parser_at p (show_u64 n @ s)" using assms(1) True by simp
  from parse_first_number_at [OF at show_u64_number_string [OF assms(3)] assms(4,5,6)] obtain r where
    r: "parse_epoch_and_initial_release p = Inr ((), (adv (length (show_u64 n)) p)\<lparr>p_release := r\<rparr>)"
      "wf_release r" "release_numbers_as_slice r = release_numbers_as_slice (p_release p) @ [n]"
    by auto
  have "(adv k p)\<lparr>p_epoch := 0, p_release := r\<rparr> = (adv k p)\<lparr>p_release := r\<rparr>" for k
    using assms(7) by (cases p) (simp add: adv_def)
  then show ?thesis using r parser_at_adv [OF at] True by metis
next
  case False
  let ?k = "length (show_u64 e)" and ?m = "length (show_u64 n)"
  have at: "parser_at p (show_u64 e @ CHR ''!'' # show_u64 n @ s)" using assms(1) False by simp
  have at1: "parser_at (adv ?k p) (CHR ''!'' # show_u64 n @ s)" by (rule parser_at_adv [OF at])
  have at2: "parser_at ((adv (Suc ?k) p)\<lparr>p_epoch := e\<rparr>) (show_u64 n @ s)"
    using parser_at_adv1 [OF at1] by simp
  have upd: "adv k (p\<lparr>p_epoch := e\<rparr>) = (adv k p)\<lparr>p_epoch := e\<rparr>" for k p by (simp add: adv_def)
  have "parse_number p = Inr (Some e, adv ?k p)" using parse_number_show [OF at assms(2)] by simp
  moreover have "parse_number ((adv (Suc ?k) p)\<lparr>p_epoch := e\<rparr>) =
      Inr (Some n, (adv (Suc ?k + ?m) p)\<lparr>p_epoch := e\<rparr>)"
    using parse_number_show [OF at2 assms(3,4)] by (simp add: upd)
  moreover obtain r where "push_number n ((adv (Suc ?k + ?m) p)\<lparr>p_epoch := e\<rparr>) =
      Inr ((), (adv (Suc ?k + ?m) p)\<lparr>p_epoch := e, p_release := r\<rparr>)" "wf_release r"
      "release_numbers_as_slice r = release_numbers_as_slice (p_release p) @ [n]"
    using push_number_at [of "(adv (Suc ?k + ?m) p)\<lparr>p_epoch := e\<rparr>" n] assms(6) by auto
  moreover have "parser_at (adv (Suc ?k + ?m) p) s"
    using parser_at_adv [OF at2] by (simp add: upd)
  ultimately show ?thesis
    by (intro exI [of _ "Suc ?k + ?m"] exI [of _ r])
       (simp add: parse_epoch_and_initial_release_def bump_bang [OF at1] ok_or_def)
qed

lemma show_version_full:
  "show_version v = (if full_epoch (make_full v) \<noteq> 0 then show_u64 (full_epoch (make_full v)) @ ''!'' else []) @
     show_dotted (map show_u64 (full_release (make_full v))) @ show_suffix (make_full v)"
  by (simp add: show_version_def show_suffix_def v_fields)

lemma starts_append: "starts P (xs @ ys) \<longleftrightarrow> (if xs = [] then starts P ys else P (hd xs))"
  by simp

text \<open>The general parser after the release.\<close>

definition parse_after_release :: "parser \<Rightarrow> (pattern_error_kind, version_pattern) res" where
  "parse_after_release p =
     bind_res (parse_wildcard p) (\<lambda>(wildcard, p).
       if wildcard then or_panic (into_pattern p)
       else
         bind_res (parse_pre p) (\<lambda>(_, p).
         bind_res (parse_post p) (\<lambda>(_, p).
         bind_res (parse_dev p) (\<lambda>(_, p).
         bind_res (parse_local p) (\<lambda>(_, p).
         bind_res (bump_while is_ascii_whitespace p) (\<lambda>(_, p).
           if \<not> is_done p then
             bind_res (slice (p_v p) 0 (p_i p)) (\<lambda>version.
             bind_res (slice_from (p_v p) (p_i p)) (\<lambda>remaining.
               Inl (Err (PatternVersion (UnexpectedEnd version remaining)))))
           else or_panic (into_pattern p)))))))"

definition show_release :: "version_full \<Rightarrow> string" where
  "show_release f = (if full_epoch f \<noteq> 0 then show_u64 (full_epoch f) @ ''!'' else []) @
     show_dotted (map show_u64 (full_release f))"

lemma parse_release_show:
  assumes "full_release f \<noteq> []" "full_epoch f < u64_MAX" "list_all (\<lambda>n. n < u64_MAX) (full_release f)"
    "ends_release s" "\<not> starts (\<lambda>c. c = CHR ''!'') s"
  shows "\<exists>p. parse_slow (parser_new (show_release f @ s)) = parse_after_release p \<and> parser_at p s \<and>
    release_numbers_as_slice (p_release p) = full_release f \<and> p_epoch p = full_epoch f \<and>
    p_pre p = None \<and> p_post p = None \<and> p_dev p = None \<and> p_local p = [] \<and> \<not> p_wildcard p"
proof -
  define p where "p = parser_new (show_release f @ s)"
  from assms(1) obtain n ns where rel: "full_release f = n # ns" by (cases "full_release f") auto
  let ?dss = "map show_u64 ns"
  have p: "wf_release (p_release p)" "release_numbers_as_slice (p_release p) = []" "p_epoch p = 0"
    "p_pre p = None" "p_post p = None" "p_dev p = None" "p_local p = []" "\<not> p_wildcard p"
    by (simp_all add: p_def parser_new_def release_numbers_new_def)
  have at: "parser_at p ((if full_epoch f \<noteq> 0 then show_u64 (full_epoch f) @ ''!'' else []) @
      show_u64 n @ dotted ?dss @ s)"
    by (simp add: p_def show_release_def rel dotted_def comp_def)
  have "\<not> starts is_ascii_digit (dotted ?dss @ s)" "\<not> starts (\<lambda>c. c = CHR ''!'') (dotted ?dss @ s)"
    using assms(4,5) by (cases ns; simp add: ends_release_def)+
  from parse_epoch_show [OF at assms(2) _ this p(1,3)] assms(3) rel obtain k r where
    e: "parse_epoch_and_initial_release p = Inr ((), (adv k p)\<lparr>p_epoch := full_epoch f, p_release := r\<rparr>)"
      "parser_at (adv k p) (dotted ?dss @ s)" "wf_release r" "release_numbers_as_slice r = [n]"
    using p(2) by auto
  let ?p1 = "(adv k p)\<lparr>p_epoch := full_epoch f, p_release := r\<rparr>"
  have "list_all number_string ?dss"
    using assms(3) rel show_u64_number_string by (auto simp: list_all_iff)
  then obtain r' where r': "parse_rest_of_release ?p1 = Inr ((), (adv (length (dotted ?dss)) ?p1)\<lparr>p_release := r'\<rparr>)"
      "release_numbers_as_slice r' = full_release f"
    using parse_rest_of_release_at [of ?p1 ?dss s] e assms(4) rel by (auto simp: comp_def)
  let ?p2 = "(adv (length (dotted ?dss)) ?p1)\<lparr>p_release := r'\<rparr>"
  have at2: "parser_at ?p2 s"
    using parser_at_adv [of ?p1 "dotted ?dss" s] e(2) by simp
  have lead: "bump_while is_ascii_whitespace p = Inr ([], p)" "bump_if ''v'' p = Inr (False, p)"
    using leading_digit_at [OF at] by (simp_all add: starts_append)
  have "parse_slow p = parse_after_release ?p2"
    unfolding parse_slow_def parse_after_release_def lead e(1) r'(1) by (simp add: e(1) r'(1) lead)
  with at2 r'(2) p show ?thesis by (intro exI [of _ ?p2]) (simp flip: p_def)
qed

lemma show_version_release: "show_version v = show_release (make_full v) @ show_suffix (make_full v)"
  by (simp add: show_version_full show_release_def)

lemma parsed_version_full:
  assumes "parsed_version v"
  obtains segs where "full_release (make_full v) \<noteq> []" "full_min (make_full v) = None" "full_max (make_full v) = None"
    "full_epoch (make_full v) < u64_MAX" "list_all (\<lambda>n. n < u64_MAX) (full_release (make_full v))"
    "pred_option (\<lambda>q. number q < u64_MAX) (full_pre (make_full v))"
    "pred_option (\<lambda>n. n < u64_MAX) (full_post (make_full v))"
    "pred_option (\<lambda>n. n < u64_MAX) (full_dev (make_full v))"
    "full_local (make_full v) = Segments segs" "list_all parsed_segment segs"
  using assms by (auto simp: parsed_version_def public_version_def v_fields split: local_version.splits)

lemma parse_slow_show:
  assumes "parsed_version v"
  shows "\<exists>vpat. parse_slow (parser_new (show_version v)) = Inr vpat \<and> \<not> vp_wildcard vpat \<and>
    wf_version (vp_version vpat) \<and> make_full (vp_version vpat) = make_full v"
proof -
  define f where "f = make_full v"
  from assms obtain segs where f: "full_release f \<noteq> []" "full_min f = None" "full_max f = None"
      "full_epoch f < u64_MAX" "list_all (\<lambda>n. n < u64_MAX) (full_release f)"
      "pred_option (\<lambda>q. number q < u64_MAX) (full_pre f)" "pred_option (\<lambda>n. n < u64_MAX) (full_post f)"
      "pred_option (\<lambda>n. n < u64_MAX) (full_dev f)"
      and segs: "full_local f = Segments segs" "list_all parsed_segment segs"
    unfolding f_def by (rule parsed_version_full)
  have suffix: "ends_release (show_suffix f)" "\<not> starts (\<lambda>c. c = CHR ''!'') (show_suffix f)"
    using show_suffix_start [OF segs(1) parser_at_new] by blast+
  from parse_release_show [OF f(1,4,5) suffix] obtain p where
    p: "parse_slow (parser_new (show_release f @ show_suffix f)) = parse_after_release p" "parser_at p (show_suffix f)"
      "release_numbers_as_slice (p_release p) = full_release f" "p_epoch p = full_epoch f"
      "p_pre p = None" "p_post p = None" "p_dev p = None" "p_local p = []" "\<not> p_wildcard p"
    by blast
  from parse_suffix_show [OF p(2) segs f(6-8) p(5-8)] obtain p3 p4 p5 p6 where
    s: "parse_pre p = Inr ((), p3)" "parse_post p3 = Inr ((), p4)" "parse_dev p4 = Inr ((), p5)"
      "parse_local p5 = Inr ((), p6)" "parser_at p6 []"
      "p6 = (adv (length (show_suffix f)) p)\<lparr>p_pre := full_pre f, p_post := full_post f, p_dev := full_dev f,
        p_local := segs\<rparr>"
    by auto
  have "parser_full p6 = f"
    using f(2,3) segs(1) p(3,4) by (simp add: s(6) parser_full_def)
  moreover have "release_numbers_as_slice (p_release p6) \<noteq> []" using p(3) f(1) by (simp add: s(6))
  moreover have "\<not> p_wildcard p6" using p(9) by (simp add: s(6))
  ultimately show ?thesis
    using into_pattern_full [of p6]
    by (auto simp: show_version_release p(1) parse_after_release_def show_suffix_start(3) [OF segs(1) p(2)] s(1-4)
        bump_while_none [OF s(5)] parser_at_done [OF s(5)] simp flip: f_def)
qed

text \<open>A release followed by a wildcard.\<close>

lemma parse_slow_show_star:
  assumes "parsed_version v" "show_suffix (make_full v) = []" "v_pre v = None" "v_post v = None" "v_dev v = None"
    "v_local v = Segments []"
  shows "\<exists>vpat. parse_slow (parser_new (show_version v @ ''.*'')) = Inr vpat \<and> vp_wildcard vpat \<and>
    wf_version (vp_version vpat) \<and> make_full (vp_version vpat) = make_full v"
proof -
  define f where "f = make_full v"
  from assms(1) obtain segs where f: "full_release f \<noteq> []" "full_min f = None" "full_max f = None"
      "full_epoch f < u64_MAX" "list_all (\<lambda>n. n < u64_MAX) (full_release f)"
    unfolding f_def by (rule parsed_version_full)
  have star: "ends_release ''.*''" "\<not> starts (\<lambda>c. c = CHR ''!'') ''.*''"
    by (simp_all add: ends_release_def byte_defs)
  from parse_release_show [OF f(1,4,5) star] obtain p where
    p: "parse_slow (parser_new (show_release f @ ''.*'')) = parse_after_release p" "parser_at p ''.*''"
      "release_numbers_as_slice (p_release p) = full_release f" "p_epoch p = full_epoch f"
      "p_pre p = None" "p_post p = None" "p_dev p = None" "p_local p = []" "\<not> p_wildcard p"
    by blast
  have "starts_with_ignore_ascii_case ''.*'' ''.*''" using starts_with_refl [of "''.*''" "[]"] by simp
  then have "bump_if ''.*'' p = Inr (True, adv 2 p)"
    using bump_if_yes [OF p(2), of "''.*''"] by (simp add: numeral_eq_Suc)
  moreover have "is_done (adv 2 p)"
    using parser_at_done [OF parser_at_adv [of p "''.*''" "[]"]] p(2) by (simp add: numeral_eq_Suc)
  ultimately have "parse_wildcard p = Inr (True, (adv 2 p)\<lparr>p_wildcard := True\<rparr>)"
    by (simp add: parse_wildcard_def)
  moreover have "parser_full ((adv 2 p)\<lparr>p_wildcard := True\<rparr>) = f"
    using f(2,3) assms(3-6) p by (simp add: parser_full_def f_def v_fields)
  moreover have "release_numbers_as_slice (p_release ((adv 2 p)\<lparr>p_wildcard := True\<rparr>)) \<noteq> []" using p(3) f(1) by simp
  ultimately show ?thesis
    using into_pattern_full [of "(adv 2 p)\<lparr>p_wildcard := True\<rparr>"] assms(2)
    by (auto simp: show_version_release p(1) parse_after_release_def simp flip: f_def)
qed

section \<open>Properties of the parser\<close>

lemma pattern_from_str_eq: "pattern_from_str s = parse_slow (parser_new s)"
  by (simp add: pattern_from_str_def parse_pattern_eq_slow)

lemma pattern_from_str_ensures: "ensures (pattern_from_str s) (\<lambda>vpat. parsed_version (vp_version vpat))"
  using parse_slow_inv [OF parser_new_inv] by (simp add: pattern_from_str_eq)

lemma version_from_str_pattern:
  "version_from_str s = (case pattern_from_str s of
     Inr vpat \<Rightarrow> if vp_wildcard vpat then Inl (Err Wildcard) else Inr (vp_version vpat)
   | Inl (Err (PatternVersion e)) \<Rightarrow> Inl (Err e)
   | Inl (Err WildcardNotTrailing) \<Rightarrow> Inl (Err Wildcard)
   | Inl Panic \<Rightarrow> Inl Panic)"
  by (simp add: version_from_str_def parse_def pattern_from_str_def)

lemma version_from_str_ensures: "ensures (version_from_str s) parsed_version"
  using pattern_from_str_ensures [of s]
  by (auto simp: version_from_str_pattern split: sum.splits fault.splits pattern_error_kind.splits)

lemma version_from_str_show:
  "parsed_version v \<Longrightarrow> \<exists>w. version_from_str (show_version v) = Inr w \<and> make_full w = make_full v"
  using parse_slow_show [of v] by (auto simp: version_from_str_pattern pattern_from_str_eq)

text \<open>
  C8. On every input the parsers of versions and of version patterns return a version or an error and
  never panic: no slice, index or assertion of the parser can fail. A version they return satisfies
  the representation invariant, has at least one release number, no internal marker and no number at
  the integer limit, and its local segments are normalised.
\<close>

theorem parse_safe:
  "ensures (version_from_str s) parsed_version \<and>
   ensures (pattern_from_str s) (\<lambda>vpat. parsed_version (vp_version vpat))"
  using version_from_str_ensures pattern_from_str_ensures by blast

text \<open>
  C9. The fast path for versions of the form \<open>w[.x[.y[.z]]]\<close>, which writes the packed word directly,
  returns exactly what the general parser returns, to the bit, and so does its special case for three
  one-digit numbers.
\<close>

theorem parse_fast_refines: "parse_pattern (parser_new s) = parse_slow (parser_new s)"
  by (rule parse_pattern_eq_slow)

text \<open>
  C10. Displaying a version and parsing the text gives the version back, with all its components.
\<close>

theorem show_parse_roundtrip:
  assumes "parsed_version v"
  shows "\<exists>w. version_from_str (show_version v) = Inr w \<and> make_full w = make_full v"
  using assms by (rule version_from_str_show)

theorem show_parse_roundtrip_witness:
  "\<exists>w. version_from_str (show_version (Full \<lparr>full_epoch = 1, full_release = [2, 0], full_pre =
       Some \<lparr>kind = Rc, number = 3\<rparr>, full_post = None, full_dev = Some 4,
       full_local = Segments [String ''ab'', Number 7], full_min = None, full_max = None\<rparr>)) = Inr w \<and>
     make_full w = \<lparr>full_epoch = 1, full_release = [2, 0], full_pre =
       Some \<lparr>kind = Rc, number = 3\<rparr>, full_post = None, full_dev = Some 4,
       full_local = Segments [String ''ab'', Number 7], full_min = None, full_max = None\<rparr>"
proof -
  let ?f = "\<lparr>full_epoch = 1, full_release = [2, 0], full_pre =
       Some \<lparr>kind = Rc, number = 3\<rparr>, full_post = None, full_dev = Some 4,
       full_local = Segments [String ''ab'', Number 7], full_min = None, full_max = None\<rparr>"
  have "parsed_version (Full ?f)" by code_simp
  from show_parse_roundtrip [OF this] show ?thesis by simp
qed

end
