(* ===== verification/VersionKeys.thy ===== *)
theory VersionKeys
  imports VersionText
begin

text \<open>
  Arithmetic of version keys, shared by the specifiers and the ranges. The key of a version splits into
  its core (epoch, release without trailing zeros, and the first four entries of the sort tuple) and its
  local part; \<open>star_matches\<close> is the padded prefix test behind \<open>==V.*\<close> and \<open>~=V\<close>, characterised
  as an interval of releases.
\<close>

section \<open>Cores\<close>

type_synonym version_core = "u64 \<times> u64 list \<times> u64 \<times> u64 \<times> u64 option \<times> u64"

fun with_local_key :: "sort_tuple \<Rightarrow> (u64 \<times> u64 \<times> u64 option \<times> u64) \<times> local_version" where
  "with_local_key (a, b, c, d, l) = ((a, b, c, d), l)"

definition full_tuple :: "version_full \<Rightarrow> sort_tuple" where
  "full_tuple f = sortable_tuple (Full f)"

definition full_core :: "version_full \<Rightarrow> version_core" where
  "full_core f = (full_epoch f, trim_zeros (full_release f), fst (with_local_key (full_tuple f)))"

lemma sortable_tuple_with_full: "sortable_tuple_with v post dev = sortable_tuple_with (Full (make_full v)) post dev"
  unfolding sortable_tuple_with_def v_fields make_full.simps(2) by (rule refl)

lemma version_key_full:
  "version_key v = (full_epoch (make_full v), trim_zeros (full_release (make_full v)), full_tuple (make_full v))"
  by (simp add: version_key_def full_tuple_def sortable_tuple_def sortable_tuple_with_full [of v] v_fields)

lemma full_tuple_cases:
  "full_tuple f =
     (case full_min f of
        Some n \<Rightarrow> (0, 0, if full_max f \<noteq> None then Some u64_MAX else full_post f, n, full_local f)
      | None \<Rightarrow>
          (case full_pre f of
             Some p \<Rightarrow>
               (case kind p of Alpha \<Rightarrow> 2 | Beta \<Rightarrow> 3 | Rc \<Rightarrow> 4, number p,
                if full_max f \<noteq> None then Some u64_MAX else full_post f, unwrap_or (full_dev f) u64_MAX, full_local f)
           | None \<Rightarrow>
               (case if full_max f \<noteq> None then Some u64_MAX else full_post f of
                  None \<Rightarrow> (case full_dev f of Some n \<Rightarrow> (1, 0, None, n, full_local f)
                                           | None \<Rightarrow> (5, 0, None, 0, full_local f))
                | Some n \<Rightarrow> (6, 0, Some n, unwrap_or (full_dev f) u64_MAX, full_local f))))"
  by (auto simp: full_tuple_def sortable_tuple_def sortable_tuple_with_def Let_def
      split: option.splits prerelease_kind.splits)

lemma full_tuple_split: "full_tuple f = (a, b, c, d, full_local f)"
  if "fst (with_local_key (full_tuple f)) = (a, b, c, d)"
  using that by (auto simp: full_tuple_cases split: option.splits if_splits)

lemma key_order:
  "version_key v = version_key w \<longleftrightarrow>
     full_core (make_full v) = full_core (make_full w) \<and> full_local (make_full v) = full_local (make_full w)"
  "version_key v < version_key w \<longleftrightarrow>
     full_core (make_full v) < full_core (make_full w) \<or>
     full_core (make_full v) = full_core (make_full w) \<and> full_local (make_full v) < full_local (make_full w)"
proof -
  obtain a b c d where f: "fst (with_local_key (full_tuple (make_full v))) = (a, b, c, d)" by (metis prod_cases4)
  obtain a' b' c' d' where g: "fst (with_local_key (full_tuple (make_full w))) = (a', b', c', d')" by (metis prod_cases4)
  note split = full_tuple_split [OF f] full_tuple_split [OF g]
  show "version_key v = version_key w \<longleftrightarrow>
     full_core (make_full v) = full_core (make_full w) \<and> full_local (make_full v) = full_local (make_full w)"
    by (auto simp: version_key_full full_core_def split)
  show "version_key v < version_key w \<longleftrightarrow>
     full_core (make_full v) < full_core (make_full w) \<or>
     full_core (make_full v) = full_core (make_full w) \<and> full_local (make_full v) < full_local (make_full w)"
    by (auto simp: version_key_full full_core_def split)
qed

lemma local_least [simp]: "Segments [] \<le> l" "\<not> l < Segments []"
  by (cases l; simp add: less_eq_local_version_def less_local_version_def)+

lemma local_greatest [simp]: "l \<le> Max" "\<not> Max < l" "Segments s < Max"
  by (cases l; simp add: less_eq_local_version_def less_local_version_def)+

lemma core_order:
  assumes "ok_version v" "ok_version w"
  shows "version_eq v w \<longleftrightarrow> full_core (make_full v) = full_core (make_full w) \<and>
      full_local (make_full v) = full_local (make_full w)"
    and "version_less v w \<longleftrightarrow> full_core (make_full v) < full_core (make_full w) \<or>
      full_core (make_full v) = full_core (make_full w) \<and> full_local (make_full v) < full_local (make_full w)"
    and "version_le v w \<longleftrightarrow> full_core (make_full v) < full_core (make_full w) \<or>
      full_core (make_full v) = full_core (make_full w) \<and> full_local (make_full v) \<le> full_local (make_full w)"
proof -
  show "version_eq v w \<longleftrightarrow> full_core (make_full v) = full_core (make_full w) \<and>
      full_local (make_full v) = full_local (make_full w)"
    and "version_less v w \<longleftrightarrow> full_core (make_full v) < full_core (make_full w) \<or>
      full_core (make_full v) = full_core (make_full w) \<and> full_local (make_full v) < full_local (make_full w)"
    by (simp_all only: version_order_keys [OF assms] key_order)
  show "version_le v w \<longleftrightarrow> full_core (make_full v) < full_core (make_full w) \<or>
      full_core (make_full v) = full_core (make_full w) \<and> full_local (make_full v) \<le> full_local (make_full w)"
    unfolding version_order_keys [OF assms] order_le_less [of "version_key v"] key_order
    by (auto simp: order_le_less)
qed

section \<open>Prefixes of releases\<close>

text \<open>\<open>this.release().iter().zip(other.release().iter().chain(repeat(&0))).all(==)\<close>\<close>

definition star_matches :: "u64 list \<Rightarrow> u64 list \<Rightarrow> bool" where
  "star_matches this other \<longleftrightarrow>
     list_all (\<lambda>(a, b). a = b) (zip this (other @ replicate (length this) 0))"

lemma list_all_zip_eq:
  "length xs \<le> length ys \<Longrightarrow> list_all (\<lambda>(a, b). a = b) (zip xs ys) \<longleftrightarrow> take (length xs) ys = xs"
proof (induction xs arbitrary: ys)
  case (Cons x xs)
  then show ?case by (cases ys) auto
qed simp

lemma star_matches_take: "star_matches p r \<longleftrightarrow> take (length p) (zero_padded (length p + length r) r) = p"
proof -
  have "zero_padded (length p + length r) r = r @ replicate (length p) 0"
    by (simp add: zero_padded_def)
  then show ?thesis by (simp add: star_matches_def list_all_zip_eq)
qed

lemma append_less_iff:
  "length a = length b \<Longrightarrow> a @ x < b @ y \<longleftrightarrow> a < b \<or> a = b \<and> x < y" for a b x y :: "u64 list"
  by (induction a b rule: list_induct2) auto

lemma append_le_iff:
  "length a = length b \<Longrightarrow> a @ x \<le> b @ y \<longleftrightarrow> a < b \<or> a = b \<and> x \<le> y" for a b x y :: "u64 list"
  by (induction a b rule: list_induct2) auto

lemma zeros_least: "length x = n \<Longrightarrow> replicate n 0 \<le> x" "length x = n \<Longrightarrow> \<not> x < replicate n 0"
  for x :: "u64 list"
proof -
  have *: "length x = n \<Longrightarrow> replicate n 0 \<le> x" for x :: "u64 list" and n
  proof (induction x arbitrary: n)
    case (Cons a x)
    then obtain m where "n = Suc m" "length x = m" by (cases n) auto
    with Cons.IH [of m] word_neq_0_conv [of a] show ?case by auto
  qed simp
  show "length x = n \<Longrightarrow> replicate n 0 \<le> x" by (rule *)
  show "length x = n \<Longrightarrow> \<not> x < replicate n 0" using * [of x n] by (simp add: not_less)
qed

text \<open>The release with its last number increased, the upper end of the interval of a prefix.\<close>

definition bump_last :: "u64 list \<Rightarrow> u64 list" where
  "bump_last p = butlast p @ [last p + 1]"

lemma between_bump_last:
  assumes "p \<noteq> []" "last p < u64_MAX" "length q = length p"
  shows "p \<le> q \<and> q < bump_last p \<longleftrightarrow> q = p"
proof -
  obtain a x where p: "p = a @ [x]" using assms(1) by (cases p rule: rev_cases) auto
  obtain b y where q: "q = b @ [y]" "length b = length a"
    using assms(3) p by (cases q rule: rev_cases) auto
  have "y < x + 1 \<longleftrightarrow> y \<le> x" using assms(2) p by (simp add: u64_less_succ_iff)
  then show ?thesis
    by (auto simp: p q bump_last_def append_less_iff append_le_iff)
qed

lemma trim_zeros_less_padded:
  assumes "length xs \<le> n" "length ys \<le> n"
  shows "trim_zeros xs < trim_zeros ys \<longleftrightarrow> zero_padded n xs < zero_padded n ys"
proof -
  have "length (zero_padded n xs) = length (zero_padded n ys)" by (simp add: zero_padded_def)
  then have "cmp_of (trim_zeros (zero_padded n xs)) (trim_zeros (zero_padded n ys)) =
      cmp_of (zero_padded n xs) (zero_padded n ys)"
    by (rule cmp_of_trim_zeros)
  then show ?thesis
    using trim_zeros_padded assms by (metis cmp_of_LT_iff)
qed

lemma star_matches_interval:
  assumes "p \<noteq> []" "last p < u64_MAX"
  shows "star_matches p r \<longleftrightarrow> trim_zeros p \<le> trim_zeros r \<and> trim_zeros r < trim_zeros (bump_last p)"
proof -
  let ?n = "length p + length r"
  define q where "q = take (length p) (zero_padded ?n r)"
  define s where "s = drop (length p) (zero_padded ?n r)"
  have r: "zero_padded ?n r = q @ s" by (simp add: q_def s_def)
  have len: "length q = length p" "length s = length r" by (simp_all add: q_def s_def zero_padded_def)
  have blen: "length (bump_last p) = length p" using assms(1) by (simp add: bump_last_def)
  have pad: "zero_padded ?n p = p @ replicate (length r) 0"
    "zero_padded ?n (bump_last p) = bump_last p @ replicate (length r) 0"
    by (simp_all add: zero_padded_def blen take_replicate min_def)
  have "trim_zeros r < trim_zeros p \<longleftrightarrow> q < p"
    using trim_zeros_less_padded [of r ?n p] len zeros_least(2) [of s "length r"]
    by (simp add: r pad append_less_iff)
  moreover have "trim_zeros r < trim_zeros (bump_last p) \<longleftrightarrow> q < bump_last p"
    using trim_zeros_less_padded [of r ?n "bump_last p"] len blen zeros_least(2) [of s "length r"]
    by (simp add: r pad append_less_iff)
  moreover have "star_matches p r \<longleftrightarrow> q = p" by (simp add: star_matches_take q_def)
  ultimately show ?thesis using between_bump_last [OF assms len(1)] by (simp add: not_less [symmetric])
qed

section \<open>Cores of public versions\<close>

text \<open>The components of a version of the public API.\<close>

definition public_full :: "version_full \<Rightarrow> bool" where
  "public_full f \<longleftrightarrow>
     full_release f \<noteq> [] \<and> full_min f = None \<and> full_max f = None \<and> full_local f \<noteq> Max \<and>
     full_epoch f < u64_MAX \<and> list_all (\<lambda>n. n < u64_MAX) (full_release f) \<and>
     pred_option (\<lambda>p. number p < u64_MAX) (full_pre f) \<and>
     pred_option (\<lambda>n. n < u64_MAX) (full_post f) \<and> pred_option (\<lambda>n. n < u64_MAX) (full_dev f)"

lemma public_version_full: "public_version v \<longleftrightarrow> wf_version v \<and> public_full (make_full v)"
  by (simp add: public_version_def public_full_def v_fields)

lemma ok_version_full: "ok_version v \<longleftrightarrow> wf_version v \<and> (full_max (make_full v) = None \<or> full_max (make_full v) = Some 0)"
  by (simp add: ok_version_def v_fields)

primrec kind_rank :: "prerelease_kind \<Rightarrow> u64" where
  "kind_rank Alpha = 2"
| "kind_rank Beta = 3"
| "kind_rank Rc = 4"

lemma kind_rank_case [simp]: "(case k of Alpha \<Rightarrow> 2 | Beta \<Rightarrow> 3 | Rc \<Rightarrow> (4 :: u64)) = kind_rank k"
  by (cases k; simp)

lemma kind_rank_bounds [simp]:
  "1 < kind_rank k" "kind_rank k < 5" "kind_rank k < 6" "0 < kind_rank k"
  "1 \<le> kind_rank k" "kind_rank k \<le> 5" "kind_rank k \<le> 6"
  "\<not> kind_rank k < 1" "\<not> 5 < kind_rank k" "\<not> 6 < kind_rank k"
  "\<not> kind_rank k \<le> 1" "\<not> 5 \<le> kind_rank k" "\<not> 6 \<le> kind_rank k"
  by (induction k; simp add: not_le)+

lemma kind_rank_inject [simp]: "kind_rank k = kind_rank l \<longleftrightarrow> k = l"
  by (cases k; cases l; simp)

lemma kind_rank_neqs [simp]:
  "kind_rank k \<noteq> 1" "kind_rank k \<noteq> 5" "kind_rank k \<noteq> 6" "kind_rank k \<noteq> 0" "1 \<noteq> kind_rank k" "5 \<noteq> kind_rank k"
  "6 \<noteq> kind_rank k" "0 \<noteq> kind_rank k"
  by (cases k; simp)+

text \<open>The four entries of the core after epoch and release, by the components that are present.\<close>

definition suffix_core :: "version_full \<Rightarrow> u64 \<times> u64 \<times> u64 option \<times> u64" where
  "suffix_core f = fst (with_local_key (full_tuple f))"

lemma full_core_eq: "full_core f = (full_epoch f, trim_zeros (full_release f), suffix_core f)"
  by (simp add: full_core_def suffix_core_def)

lemma suffix_core_public:
  assumes "full_min f = None" "full_max f = None"
  shows "suffix_core f =
     (case full_pre f of
        Some p \<Rightarrow> (kind_rank (kind p), number p, full_post f, unwrap_or (full_dev f) u64_MAX)
      | None \<Rightarrow>
          (case full_post f of
             Some n \<Rightarrow> (6, 0, Some n, unwrap_or (full_dev f) u64_MAX)
           | None \<Rightarrow> (case full_dev f of Some n \<Rightarrow> (1, 0, None, n) | None \<Rightarrow> (5, 0, None, 0))))"
  using assms by (simp add: suffix_core_def full_tuple_cases split: option.splits)

lemma suffix_core_min:
  assumes "full_min f = Some n" "full_max f = None"
  shows "suffix_core f = (0, 0, full_post f, n)"
  using assms by (simp add: suffix_core_def full_tuple_cases)

lemma suffix_core_max:
  assumes "full_min f = None" "full_max f = Some n"
  shows "suffix_core f =
     (case full_pre f of
        Some p \<Rightarrow> (kind_rank (kind p), number p, Some u64_MAX, unwrap_or (full_dev f) u64_MAX)
      | None \<Rightarrow> (6, 0, Some u64_MAX, unwrap_or (full_dev f) u64_MAX))"
  using assms by (simp add: suffix_core_def full_tuple_cases split: option.splits)

text \<open>No public version with the same epoch and release sorts before the first dev release.\<close>

lemma dev0_least:
  assumes "public_full f"
  shows "(1, 0, None, 0) \<le> suffix_core f"
  using assms unfolding public_full_def
  by (auto simp: suffix_core_public less_imp_le split: option.splits)

end
