(* ===== verification/VersionSpecifier.thy ===== *)
theory VersionSpecifier
  imports VersionKeys
begin

text \<open>
  Version specifiers: the operators of \<open>crates/uv-pep440/src/version.rs\<close> and the module
  \<open>crates/uv-pep440/src/version_specifier.rs\<close> (\<open>VersionSpecifier\<close>, \<open>VersionSpecifiers\<close>,
  \<open>TildeVersionSpecifier\<close>).

  The text scanner that \<open>FromStr for VersionSpecifier\<close> uses comes from the crate \<open>unscanny\<close>; it is the
  parameter \<open>scanner\<close> here, and \<open>scanner_laws\<close> states what its documentation promises. Input text is
  taken to be ASCII. \<open>None\<close> is a panic where a method can panic, and integer additions wrap as they do
  in a release build.
\<close>

section \<open>Operators\<close>

datatype operator =
    Equal
  | EqualStar
  | ExactEqual
  | NotEqual
  | NotEqualStar
  | TildeEqual
  | LessThan
  | LessThanEqual
  | GreaterThan
  | GreaterThanEqual

text \<open>The derived \<open>Ord\<close>: the order of the constructors.\<close>

fun operator_rank :: "operator \<Rightarrow> nat" where
  "operator_rank Equal = 0"
| "operator_rank EqualStar = 1"
| "operator_rank ExactEqual = 2"
| "operator_rank NotEqual = 3"
| "operator_rank NotEqualStar = 4"
| "operator_rank TildeEqual = 5"
| "operator_rank LessThan = 6"
| "operator_rank LessThanEqual = 7"
| "operator_rank GreaterThan = 8"
| "operator_rank GreaterThanEqual = 9"

lemma operator_rank_inject [simp]: "operator_rank a = operator_rank b \<longleftrightarrow> a = b"
  by (cases a; cases b; simp)

instantiation operator :: linorder
begin

definition less_eq_operator :: "operator \<Rightarrow> operator \<Rightarrow> bool" where
  "less_eq_operator a b \<longleftrightarrow> operator_rank a \<le> operator_rank b"

definition less_operator :: "operator \<Rightarrow> operator \<Rightarrow> bool" where
  "less_operator a b \<longleftrightarrow> operator_rank a < operator_rank b"

instance
  by standard (auto simp: less_eq_operator_def less_operator_def)

end

definition is_local_compatible :: "operator \<Rightarrow> bool" where
  "is_local_compatible op \<longleftrightarrow>
     op \<notin> {GreaterThan, GreaterThanEqual, LessThan, LessThanEqual, TildeEqual, EqualStar, NotEqualStar}"

fun to_star :: "operator \<Rightarrow> operator option" where
  "to_star Equal = Some EqualStar"
| "to_star NotEqual = Some NotEqualStar"
| "to_star _ = None"

definition is_star :: "operator \<Rightarrow> bool" where
  "is_star op \<longleftrightarrow> op \<in> {EqualStar, NotEqualStar}"

fun operator_as_str :: "operator \<Rightarrow> string" where
  "operator_as_str Equal = ''==''"
| "operator_as_str EqualStar = ''==''"
| "operator_as_str ExactEqual = ''===''"
| "operator_as_str NotEqual = ''!=''"
| "operator_as_str NotEqualStar = ''!=''"
| "operator_as_str TildeEqual = ''~=''"
| "operator_as_str LessThan = ''<''"
| "operator_as_str LessThanEqual = ''<=''"
| "operator_as_str GreaterThan = ''>''"
| "operator_as_str GreaterThanEqual = ''>=''"

text \<open>The error is the text that is not an operator.\<close>

definition operator_from_str :: "string \<Rightarrow> string + operator" where
  "operator_from_str s =
     (if s = ''=='' then Inr Equal
      else if s = ''==='' then Inr ExactEqual
      else if s = ''!='' then Inr NotEqual
      else if s = ''~='' then Inr TildeEqual
      else if s = ''<'' then Inr LessThan
      else if s = ''<='' then Inr LessThanEqual
      else if s = ''>'' then Inr GreaterThan
      else if s = ''>='' then Inr GreaterThanEqual
      else Inl s)"

section \<open>Specifiers\<close>

record specifier =
  sp_operator :: operator
  sp_version :: version

datatype build_error_kind =
    OperatorLocalCombo operator version
  | OperatorWithStar operator
  | CompatibleRelease

definition from_version :: "operator \<Rightarrow> version \<Rightarrow> build_error_kind + specifier" where
  "from_version op v =
     (if is_local v \<and> \<not> is_local_compatible op then Inl (OperatorLocalCombo op v)
      else if op = TildeEqual \<and> length (v_release v) < 2 then Inl CompatibleRelease
      else Inr \<lparr>sp_operator = op, sp_version = v\<rparr>)"

definition from_pattern :: "operator \<Rightarrow> version_pattern \<Rightarrow> build_error_kind + specifier" where
  "from_pattern op vpat =
     (if vp_wildcard vpat then
        (case to_star op of
           Some starop \<Rightarrow> from_version starop (vp_version vpat)
         | None \<Rightarrow> Inl (OperatorWithStar op))
      else from_version op (vp_version vpat))"

definition sp_only_release :: "specifier \<Rightarrow> specifier option" where
  "sp_only_release sp = map_option (\<lambda>v. sp\<lparr>sp_version := v\<rparr>) (only_release (sp_version sp))"

definition sp_only_minor_release :: "specifier \<Rightarrow> specifier option" where
  "sp_only_minor_release sp = map_option (\<lambda>v. sp\<lparr>sp_version := v\<rparr>) (only_minor_release (sp_version sp))"

definition equals_version :: "version \<Rightarrow> specifier" where
  "equals_version v = \<lparr>sp_operator = Equal, sp_version = v\<rparr>"

definition equals_star_version :: "version \<Rightarrow> specifier" where
  "equals_star_version v = \<lparr>sp_operator = EqualStar, sp_version = v\<rparr>"

definition not_equals_star_version :: "version \<Rightarrow> specifier" where
  "not_equals_star_version v = \<lparr>sp_operator = NotEqualStar, sp_version = v\<rparr>"

definition not_equals_version :: "version \<Rightarrow> specifier" where
  "not_equals_version v = \<lparr>sp_operator = NotEqual, sp_version = v\<rparr>"

definition greater_than_equal_version :: "version \<Rightarrow> specifier" where
  "greater_than_equal_version v = \<lparr>sp_operator = GreaterThanEqual, sp_version = v\<rparr>"

definition greater_than_version :: "version \<Rightarrow> specifier" where
  "greater_than_version v = \<lparr>sp_operator = GreaterThan, sp_version = v\<rparr>"

definition less_than_equal_version :: "version \<Rightarrow> specifier" where
  "less_than_equal_version v = \<lparr>sp_operator = LessThanEqual, sp_version = v\<rparr>"

definition less_than_version :: "version \<Rightarrow> specifier" where
  "less_than_version v = \<lparr>sp_operator = LessThan, sp_version = v\<rparr>"

definition sp_any_prerelease :: "specifier \<Rightarrow> bool" where
  "sp_any_prerelease sp = any_prerelease (sp_version sp)"

definition sp_contains :: "specifier \<Rightarrow> version \<Rightarrow> bool option" where
  "sp_contains sp v =
     (let this = sp_version sp;
          other = (if local_is_empty (v_local this) \<and> \<not> local_is_empty (v_local v) then without_local v else v)
      in case sp_operator sp of
           Equal \<Rightarrow> Some (version_eq other this)
         | EqualStar \<Rightarrow>
             Some (v_epoch this = v_epoch other \<and> star_matches (v_release this) (v_release other))
         | ExactEqual \<Rightarrow> Some (version_eq this v)
         | NotEqual \<Rightarrow> Some (\<not> version_eq this other)
         | NotEqualStar \<Rightarrow>
             Some (v_epoch this \<noteq> v_epoch other \<or> \<not> star_matches (v_release this) (v_release other))
         | TildeEqual \<Rightarrow>
             if \<not> 1 < length (v_release this) then None
             else if v_epoch this \<noteq> v_epoch other then Some False
             else if \<not> list_all (\<lambda>(a, b). a = b) (zip (butlast (v_release this)) (v_release other))
             then Some False
             else Some (version_le this other)
         | GreaterThan \<Rightarrow>
             if v_epoch this < v_epoch other then Some True
             else if \<not> is_post this \<and> is_post other \<and> without_post_and_dev_eq other this then Some False
             else Some (version_less this other)
         | GreaterThanEqual \<Rightarrow> Some (version_le this other)
         | LessThan \<Rightarrow>
             if v_epoch other < v_epoch this then Some True
             else if \<not> any_prerelease this \<and> any_prerelease other \<and> version_le (with_dev (Some 0) this) other
             then Some False
             else Some (version_less other this)
         | LessThanEqual \<Rightarrow> Some (version_le other this))"

fun has_lower_bound :: "operator \<Rightarrow> bool" where
  "has_lower_bound Equal = True"
| "has_lower_bound EqualStar = True"
| "has_lower_bound ExactEqual = True"
| "has_lower_bound TildeEqual = True"
| "has_lower_bound GreaterThan = True"
| "has_lower_bound GreaterThanEqual = True"
| "has_lower_bound LessThanEqual = False"
| "has_lower_bound LessThan = False"
| "has_lower_bound NotEqualStar = False"
| "has_lower_bound NotEqual = False"

definition show_specifier :: "specifier \<Rightarrow> string" where
  "show_specifier sp =
     (if sp_operator sp = EqualStar \<or> sp_operator sp = NotEqualStar
      then operator_as_str (sp_operator sp) @ show_version (sp_version sp) @ ''.*''
      else operator_as_str (sp_operator sp) @ show_version (sp_version sp))"

section \<open>Equality, order and hash of specifiers\<close>

definition sp_eq :: "specifier \<Rightarrow> specifier \<Rightarrow> bool" where
  "sp_eq a b \<longleftrightarrow>
     (if sp_operator a \<noteq> sp_operator b then False
      else if sp_operator a = TildeEqual \<and>
              length (v_release (sp_version a)) \<noteq> length (v_release (sp_version b)) then False
      else version_eq (sp_version a) (sp_version b))"

definition sp_hash where
  "sp_hash sp =
     (sp_operator sp,
      (if sp_operator sp = TildeEqual then Some (length (v_release (sp_version sp))) else None),
      version_hash (sp_version sp))"

definition sp_cmp :: "specifier \<Rightarrow> specifier \<Rightarrow> ordering" where
  "sp_cmp a b =
     then_with (cmp_of (sp_operator a) (sp_operator b))
       (then_with (version_cmp (sp_version a) (sp_version b))
         (if sp_operator a = TildeEqual
          then cmp_of (length (v_release (sp_version a))) (length (v_release (sp_version b)))
          else EQ))"

section \<open>Parsing a specifier\<close>

text \<open>
  The scanner of the crate \<open>unscanny\<close>: construction, \<open>eat_while\<close>, \<open>done\<close> and \<open>after\<close>. By its documentation
  \<open>eat_while\<close> consumes and returns the longest prefix of the remaining text whose characters match,
  \<open>after\<close> is the remaining text and \<open>done\<close> holds when there is none; \<open>rest\<close> is the remaining text.
\<close>

record 's scanner =
  scan_new :: "string \<Rightarrow> 's"
  eat_while :: "(char \<Rightarrow> bool) \<Rightarrow> 's \<Rightarrow> string \<times> 's"
  scan_done :: "'s \<Rightarrow> bool"
  scan_after :: "'s \<Rightarrow> string"

definition scanner_laws :: "'s scanner \<Rightarrow> ('s \<Rightarrow> string) \<Rightarrow> bool" where
  "scanner_laws S rest \<longleftrightarrow>
     (\<forall>text. rest (scan_new S text) = text) \<and>
     (\<forall>P st. fst (eat_while S P st) = takeWhile P (rest st) \<and>
             rest (snd (eat_while S P st)) = dropWhile P (rest st)) \<and>
     (\<forall>st. scan_done S st \<longleftrightarrow> rest st = []) \<and>
     (\<forall>st. scan_after S st = rest st)"

text \<open>\<open>char::is_whitespace\<close> on ASCII text.\<close>

definition is_whitespace :: "char \<Rightarrow> bool" where
  "is_whitespace c \<longleftrightarrow> byte_val c \<in> {9, 10, 11, 12, 13, 32}"

definition is_operator_char :: "char \<Rightarrow> bool" where
  "is_operator_char c \<longleftrightarrow> c \<in> set ''=!~<>''"

datatype parse_error_kind =
    InvalidOperator string
  | InvalidVersion pattern_error_kind
  | InvalidSpecifier build_error_kind
  | MissingOperator "version_pattern option"
  | MissingVersion
  | InvalidTrailing string

definition lift_err :: "('e \<Rightarrow> 'f) \<Rightarrow> 'e + 'a \<Rightarrow> ('f, 'a) res" where
  "lift_err f r = (case r of Inl e \<Rightarrow> Inl (Err (f e)) | Inr x \<Rightarrow> Inr x)"

definition res_ok :: "('e, 'a) res \<Rightarrow> ('f, 'a option) res" where
  "res_ok r = (case r of Inl (Err _) \<Rightarrow> Inr None | Inl Panic \<Rightarrow> Inl Panic | Inr x \<Rightarrow> Inr (Some x))"

definition specifier_from_str :: "'s scanner \<Rightarrow> string \<Rightarrow> (parse_error_kind, specifier) res" where
  "specifier_from_str S spec =
     (let s = snd (eat_while S is_whitespace (scan_new S spec));
          (op, s) = eat_while S is_operator_char s
      in if op = [] then
           let s = snd (eat_while S is_whitespace s);
               version = fst (eat_while S (\<lambda>c. \<not> is_whitespace c) s)
           in bind_res (res_ok (pattern_from_str version)) (\<lambda>pat. Inl (Err (MissingOperator pat)))
         else
           bind_res (lift_err InvalidOperator (operator_from_str op)) (\<lambda>op.
             let s = snd (eat_while S is_whitespace s);
                 (version, s) = eat_while S (\<lambda>c. \<not> is_whitespace c) s
             in if version = [] then Inl (Err MissingVersion)
                else
                  bind_res (map_err InvalidVersion (pattern_from_str version)) (\<lambda>vpat.
                  bind_res (lift_err InvalidSpecifier (from_pattern op vpat)) (\<lambda>sp.
                    let s = snd (eat_while S is_whitespace s)
                    in if \<not> scan_done S s then Inl (Err (InvalidTrailing (scan_after S s)))
                       else Inr sp))))"

text \<open>
  The message of a \<open>MissingOperator\<close> error suggests \<open>==\<close> with the version that was found; the builder's
  result is unwrapped.
\<close>

definition missing_operator_hint :: "version_pattern option \<Rightarrow> (build_error_kind, string option) res" where
  "missing_operator_hint pat =
     (case pat of
        None \<Rightarrow> Inr None
      | Some vpat \<Rightarrow>
          (case from_pattern Equal vpat of Inl _ \<Rightarrow> Inl Panic | Inr sp \<Rightarrow> Inr (Some (show_specifier sp))))"

section \<open>Lists of specifiers\<close>

type_synonym specifiers = "specifier list"

text \<open>\<open>sort_by\<close>, the stable sort of the standard library.\<close>

fun insert_by :: "('a \<Rightarrow> 'a \<Rightarrow> ordering) \<Rightarrow> 'a \<Rightarrow> 'a list \<Rightarrow> 'a list" where
  "insert_by cmp x [] = [x]"
| "insert_by cmp x (y # ys) = (if cmp x y = GT then y # insert_by cmp x ys else x # y # ys)"

definition sort_by :: "('a \<Rightarrow> 'a \<Rightarrow> ordering) \<Rightarrow> 'a list \<Rightarrow> 'a list" where
  "sort_by cmp xs = foldr (insert_by cmp) xs []"

definition from_unsorted :: "specifier list \<Rightarrow> specifiers" where
  "from_unsorted sps =
     sort_by (\<lambda>a b. then_with (version_cmp (sp_version a) (sp_version b))
                      (cmp_of (sp_operator a) (sp_operator b))) sps"

fun specifiers_contains :: "specifiers \<Rightarrow> version \<Rightarrow> bool option" where
  "specifiers_contains [] v = Some True"
| "specifiers_contains (sp # sps) v =
     (case sp_contains sp v of
        None \<Rightarrow> None
      | Some False \<Rightarrow> Some False
      | Some True \<Rightarrow> specifiers_contains sps v)"

record specifiers_error =
  se_err :: parse_error_kind
  se_line :: string
  se_start :: nat
  se_end :: nat

fun parse_parts ::
  "'s scanner \<Rightarrow> string \<Rightarrow> nat \<Rightarrow> string list \<Rightarrow> (specifiers_error, specifier list) res"
where
  "parse_parts S spec start [] = Inr []"
| "parse_parts S spec start (part # parts) =
     (case specifier_from_str S part of
        Inl (Err e) \<Rightarrow>
          Inl (Err \<lparr>se_err = e, se_line = spec, se_start = start, se_end = start + length part\<rparr>)
      | Inl Panic \<Rightarrow> Inl Panic
      | Inr sp \<Rightarrow>
          bind_res (parse_parts S spec (start + length part + length '','') parts) (\<lambda>sps.
            Inr (sp # sps)))"

definition parse_version_specifiers :: "'s scanner \<Rightarrow> string \<Rightarrow> (specifiers_error, specifier list) res" where
  "parse_version_specifiers S spec = parse_parts S spec 0 (split_on (CHR '','') spec)"

definition specifiers_from_str :: "'s scanner \<Rightarrow> string \<Rightarrow> (specifiers_error, specifiers) res" where
  "specifiers_from_str S s =
     (if length (filter (\<lambda>c. c = CHR '','') s) = 0 then
        if s = [] then Inr []
        else
          bind_res (map_err (\<lambda>e. \<lparr>se_err = e, se_line = s, se_start = 0, se_end = length s\<rparr>)
                      (specifier_from_str S s)) (\<lambda>sp. Inr [sp])
      else bind_res (parse_version_specifiers S s) (\<lambda>sps. Inr (from_unsorted sps)))"

fun show_specifiers :: "specifiers \<Rightarrow> string" where
  "show_specifiers [] = []"
| "show_specifiers (sp # sps) =
     show_specifier sp @ concat (map (\<lambda>sp. '', '' @ show_specifier sp) sps)"

section \<open>Specifiers for release-only ranges\<close>

datatype 'a bound = Included 'a | Excluded 'a | Unbounded

definition unwrap_spec :: "build_error_kind + specifier \<Rightarrow> specifier option" where
  "unwrap_spec r = (case r of Inl _ \<Rightarrow> None | Inr sp \<Rightarrow> Some sp)"

fun from_lower_bound :: "version bound \<Rightarrow> specifier list option" where
  "from_lower_bound (Included v) = map_option (\<lambda>sp. [sp]) (unwrap_spec (from_version GreaterThanEqual v))"
| "from_lower_bound (Excluded v) = map_option (\<lambda>sp. [sp]) (unwrap_spec (from_version GreaterThan v))"
| "from_lower_bound Unbounded = Some []"

fun from_upper_bound :: "version bound \<Rightarrow> specifier list option" where
  "from_upper_bound (Included v) = map_option (\<lambda>sp. [sp]) (unwrap_spec (from_version LessThanEqual v))"
| "from_upper_bound (Excluded v) = map_option (\<lambda>sp. [sp]) (unwrap_spec (from_version LessThan v))"
| "from_upper_bound Unbounded = Some []"

definition from_bounds :: "version bound \<Rightarrow> version bound \<Rightarrow> specifier list option" where
  "from_bounds lower upper =
     Option.bind (from_lower_bound lower) (\<lambda>l. map_option (\<lambda>u. l @ u) (from_upper_bound upper))"

definition sp_from_release_only_bounds :: "version bound \<times> version bound \<Rightarrow> specifier list option" where
  "sp_from_release_only_bounds bounds =
     (case bounds of
        (Included v1, Included v2) \<Rightarrow>
          if version_eq v1 v2 then Some [equals_version v1] else from_bounds (Included v1) (Included v2)
      | (Included v1, Excluded v2) \<Rightarrow>
          Option.bind (only_release_trimmed v1) (\<lambda>t1.
          Option.bind (only_release_trimmed v2) (\<lambda>t2.
            case v_release t1 of
              [major] \<Rightarrow>
                if v_release t2 = [major, 1]
                then map_option (\<lambda>v. [equals_star_version v]) (version_new [major, 0])
                else from_bounds (Included v1) (Excluded v2)
            | [major, minor] \<Rightarrow>
                if v_release t2 = [major, minor + 1]
                then map_option (\<lambda>v. [equals_star_version v]) (version_new [major, minor])
                else from_bounds (Included v1) (Excluded v2)
            | _ \<Rightarrow> from_bounds (Included v1) (Excluded v2)))
      | (lower, upper) \<Rightarrow> from_bounds lower upper)"

text \<open>The \<open>u64\<close> range \<open>a..b\<close>.\<close>

definition u64_range :: "u64 \<Rightarrow> u64 \<Rightarrow> u64 list" where
  "u64_range a b = map of_nat [unat a..<unat b]"

fun not_equal_minors :: "u64 \<Rightarrow> u64 list \<Rightarrow> specifier list option" where
  "not_equal_minors major [] = Some []"
| "not_equal_minors major (minor # minors) =
     Option.bind (version_new [major, minor]) (\<lambda>v.
       map_option (\<lambda>sps. not_equals_star_version v # sps) (not_equal_minors major minors))"

text \<open>The specifiers for the hole between an upper bound and the next lower bound.\<close>

definition gap_specifiers :: "version bound \<Rightarrow> version bound \<Rightarrow> specifier list option" where
  "gap_specifiers upper lower =
     (case (upper, lower) of
        (Excluded prev, Excluded lower) \<Rightarrow>
          if version_eq prev lower then Some [not_equals_version prev] else Some []
      | (Excluded prev, Included lower) \<Rightarrow>
          Option.bind (only_release_trimmed prev) (\<lambda>prev.
          Option.bind (only_release_trimmed lower) (\<lambda>lower.
            case (v_release prev, v_release lower) of
              ([major], [lower_major, lower_minor]) \<Rightarrow>
                if major = lower_major then not_equal_minors major (u64_range 0 lower_minor) else Some []
            | ([major, minor], [lower_major, lower_minor]) \<Rightarrow>
                if major = lower_major \<and> minor < lower_minor
                then not_equal_minors major (u64_range minor lower_minor) else Some []
            | _ \<Rightarrow> Some []))
      | _ \<Rightarrow> Some [])"

fun gaps_loop ::
  "version bound \<Rightarrow> (version bound \<times> version bound) list \<Rightarrow> (specifier list \<times> version bound) option"
where
  "gaps_loop upper [] = Some ([], upper)"
| "gaps_loop upper ((lower, next_upper) # bounds) =
     Option.bind (gap_specifiers upper lower) (\<lambda>gaps.
       map_option (\<lambda>(sps, last_upper). (gaps @ sps, last_upper)) (gaps_loop next_upper bounds))"

fun from_release_only_bounds :: "(version bound \<times> version bound) list \<Rightarrow> specifiers option" where
  "from_release_only_bounds [] = Some []"
| "from_release_only_bounds ((start, upper) # bounds) =
     Option.bind (gaps_loop upper bounds) (\<lambda>(gaps, last_upper).
       map_option (\<lambda>sps. from_unsorted (gaps @ sps)) (sp_from_release_only_bounds (start, last_upper)))"

section \<open>Compatible-release specifiers of two or three segments\<close>

text \<open>A \<open>TildeVersionSpecifier\<close> is the specifier it wraps; \<open>tilde_new\<close> is its checked constructor.\<close>

definition tilde_new :: "specifier \<Rightarrow> specifier option" where
  "tilde_new sp =
     (if sp_operator sp \<noteq> TildeEqual then None
      else if length (v_release (sp_version sp)) < 2 \<or> length (v_release (sp_version sp)) > 3 then None
      else if any_prerelease (sp_version sp) \<or> is_local (sp_version sp) \<or> is_post (sp_version sp) then None
      else Some sp)"

definition has_patch :: "specifier \<Rightarrow> bool" where
  "has_patch sp \<longleftrightarrow> length (v_release (sp_version sp)) = 3"

definition nth_or_panic :: "'a list \<Rightarrow> nat \<Rightarrow> 'a option" where
  "nth_or_panic xs i = (if i < length xs then Some (xs ! i) else None)"

definition bounding_specifiers :: "specifier \<Rightarrow> (specifier \<times> specifier) option" where
  "bounding_specifiers sp =
     (let release = v_release (sp_version sp) in
      Option.bind
        (if has_patch sp
         then Option.bind (nth_or_panic release 0) (\<lambda>major.
              Option.bind (nth_or_panic release 1) (\<lambda>minor. version_new [major, minor + 1]))
         else Option.bind (nth_or_panic release 0) (\<lambda>major. version_new [major + 1]))
        (\<lambda>upper. Some (greater_than_equal_version (sp_version sp), less_than_version upper)))"

definition with_patch_version :: "specifier \<Rightarrow> u64 \<Rightarrow> specifier option" where
  "with_patch_version sp patch =
     (let release = v_release (sp_version sp);
          release = (if has_patch sp then butlast release else release) @ [patch]
      in Option.bind (version_new release) (\<lambda>v.
         Option.bind (unwrap_spec (from_version TildeEqual v)) tilde_new))"

end
