(* ===== verification/VersionContains.thy ===== *)
theory VersionContains
  imports VersionSpecifier
begin

text \<open>
  Membership: what \<open>VersionSpecifier::contains\<close> accepts, operator by operator, as a condition on the cores
  of the specifier's version and of the candidate. Shared by the properties of specifiers and by the
  conversion to ranges.
\<close>

text \<open>
  The specifiers that the constructors and the parser build from parsed versions.
\<close>

definition valid_specifier :: "specifier \<Rightarrow> bool" where
  "valid_specifier sp \<longleftrightarrow>
     public_version (sp_version sp) \<and>
     (is_local (sp_version sp) \<longrightarrow> is_local_compatible (sp_operator sp)) \<and>
     (sp_operator sp = TildeEqual \<longrightarrow> 2 \<le> length (v_release (sp_version sp))) \<and>
     (is_star (sp_operator sp) \<longrightarrow>
        v_pre (sp_version sp) = None \<and> v_post (sp_version sp) = None \<and> v_dev (sp_version sp) = None)"

lemma full_core_local [simp]: "full_core (f\<lparr>full_local := l\<rparr>) = full_core f"
proof -
  have "fst (with_local_key (full_tuple (f\<lparr>full_local := l\<rparr>))) = fst (with_local_key (full_tuple f))"
    by (cases "full_min f"; cases "full_max f"; cases "full_pre f"; cases "full_post f"; cases "full_dev f";
        simp add: full_tuple_cases)
  then show ?thesis by (simp add: full_core_def)
qed

text \<open>The candidate as \<open>contains\<close> looks at it.\<close>

definition other_of :: "version \<Rightarrow> version \<Rightarrow> version" where
  "other_of this v =
     (if local_is_empty (v_local this) \<and> \<not> local_is_empty (v_local v) then without_local v else v)"

lemma sp_contains_other:
  "sp_contains sp v =
     (let this = sp_version sp; other = other_of this v
      in case sp_operator sp of
           Equal \<Rightarrow> Some (version_eq other this)
         | EqualStar \<Rightarrow>
             Some (v_epoch this = v_epoch other \<and> star_matches (v_release this) (v_release other))
         | ExactEqual \<Rightarrow> Some (version_eq this v)
         | NotEqual \<Rightarrow> Some (\<not> version_eq this other)
         | NotEqualStar \<Rightarrow>
             Some (v_epoch this \<noteq> v_epoch other \<or> \<not> star_matches (v_release this) (v_release other))
         | TildeEqual \<Rightarrow>
             if \<not> 1 < length (v_release this) then None
             else if v_epoch this \<noteq> v_epoch other then Some False
             else if \<not> list_all (\<lambda>(a, b). a = b) (zip (butlast (v_release this)) (v_release other))
             then Some False
             else Some (version_le this other)
         | GreaterThan \<Rightarrow>
             if v_epoch this < v_epoch other then Some True
             else if \<not> is_post this \<and> is_post other \<and> without_post_and_dev_eq other this then Some False
             else Some (version_less this other)
         | GreaterThanEqual \<Rightarrow> Some (version_le this other)
         | LessThan \<Rightarrow>
             if v_epoch other < v_epoch this then Some True
             else if \<not> any_prerelease this \<and> any_prerelease other \<and> version_le (with_dev (Some 0) this) other
             then Some False
             else Some (version_less other this)
         | LessThanEqual \<Rightarrow> Some (version_le other this))"
  by (simp add: sp_contains_def other_of_def Let_def)

lemma local_is_empty_iff: "local_is_empty l \<longleftrightarrow> l = Segments []"
  by (cases l) auto

lemma other_of_full:
  assumes "public_version v" "v_local this = Segments []"
  shows "ok_version (other_of this v) \<and>
    make_full (other_of this v) = (make_full v)\<lparr>full_local := Segments []\<rparr>"
proof (cases "v_local v = Segments []")
  case True
  then have "make_full v = (make_full v)\<lparr>full_local := Segments []\<rparr>" by (simp add: v_fields)
  with True show ?thesis using assms by (simp add: other_of_def local_is_empty_iff public_ok)
next
  case False
  then show ?thesis
    using assms without_local_full [of v] public_ok [of v]
    by (simp add: other_of_def local_is_empty_iff ok_version_full)
qed

text \<open>Comparisons with a version that has no local part ignore the candidate's local part.\<close>

lemma other_of_cmp:
  assumes "public_version v" "ok_version w" "v_local this = Segments []" "v_local w = Segments []"
  shows "version_eq (other_of this v) w \<longleftrightarrow> full_core (make_full v) = full_core (make_full w)"
    and "version_eq w (other_of this v) \<longleftrightarrow> full_core (make_full w) = full_core (make_full v)"
    and "version_less (other_of this v) w \<longleftrightarrow> full_core (make_full v) < full_core (make_full w)"
    and "version_less w (other_of this v) \<longleftrightarrow> full_core (make_full w) < full_core (make_full v)"
    and "version_le (other_of this v) w \<longleftrightarrow> full_core (make_full v) \<le> full_core (make_full w)"
    and "version_le w (other_of this v) \<longleftrightarrow> full_core (make_full w) \<le> full_core (make_full v)"
  using other_of_full [OF assms(1,3)] assms(2,4)
  by (auto simp: core_order v_fields order_le_less)

lemma other_of_fields:
  assumes "public_version v" "v_local this = Segments []"
  shows "v_epoch (other_of this v) = v_epoch v" "v_release (other_of this v) = v_release v"
    "v_pre (other_of this v) = v_pre v" "v_post (other_of this v) = v_post v"
    "v_dev (other_of this v) = v_dev v" "is_post (other_of this v) = is_post v"
    "any_prerelease (other_of this v) = any_prerelease v"
  using other_of_full [OF assms]
  by (simp_all add: v_fields is_post_def any_prerelease_def is_pre_def is_dev_def)

lemma valid_no_local:
  assumes "valid_specifier sp" "\<not> is_local_compatible (sp_operator sp)"
  shows "v_local (sp_version sp) = Segments []"
  using assms by (auto simp: valid_specifier_def is_local_def local_is_empty_iff)

lemma list_all_zip_eq2:
  "length ys \<le> length xs \<Longrightarrow> list_all (\<lambda>(a, b). a = b) (zip xs ys) \<longleftrightarrow> take (length ys) xs = ys"
proof (induction ys arbitrary: xs)
  case (Cons y ys)
  then show ?case by (cases xs) auto
qed simp

lemma zip_prefix_padded:
  assumes "trim_zeros (p @ [x]) \<le> trim_zeros r"
  shows "list_all (\<lambda>(a, b). a = b) (zip p r) \<longleftrightarrow> star_matches p r"
proof (cases "length p \<le> length r")
  case True
  then have "zip p (r @ replicate (length p) 0) = zip p r" by (simp add: zip_append2)
  then show ?thesis by (simp add: star_matches_def)
next
  case False
  have zip: "list_all (\<lambda>(a, b). a = b) (zip p r) \<longleftrightarrow> take (length r) p = r"
    using False by (simp add: list_all_zip_eq2)
  have pad: "take (length p) (zero_padded (length p + length r) r) = r @ replicate (length p - length r) 0"
    using False by (simp add: zero_padded_def min_def)
  show ?thesis
  proof
    assume "star_matches p r"
    then have "p = r @ replicate (length p - length r) 0" by (simp add: star_matches_take pad)
    then obtain z where "p = r @ z" by blast
    then have "take (length r) p = r" by simp
    then show "list_all (\<lambda>(a, b). a = b) (zip p r)" by (simp add: zip)
  next
    assume "list_all (\<lambda>(a, b). a = b) (zip p r)"
    then have "take (length r) p @ drop (length r) p = r @ drop (length r) p" by (simp add: zip)
    then obtain q where p: "p = r @ q" by simp
    have "\<not> r @ replicate (length q + 1) 0 < r @ q @ [x]"
      using assms trim_zeros_less_padded [of r "length r + length q + 1" "r @ q @ [x]"]
      by (simp add: p zero_padded_def not_less [symmetric])
    then have "\<not> replicate (length (q @ [x])) 0 < q @ [x]" by (simp add: append_less_iff)
    then have "q @ [x] = replicate (length (q @ [x])) 0"
      using zeros_least(1) [OF refl, of "q @ [x]"] by (simp only: not_less order_antisym)
    then have "q = replicate (length q) 0" by (simp add: replicate_append_same [symmetric] del: replicate_append_same)
    then have "p = r @ replicate (length p - length r) 0" using p by simp
    then show "star_matches p r" unfolding star_matches_take pad by (rule sym)
  qed
qed

lemma full_core_le_release:
  "full_epoch f = full_epoch g \<Longrightarrow> full_core f \<le> full_core g \<Longrightarrow> trim_zeros (full_release f) \<le> trim_zeros (full_release g)"
  by (auto simp: full_core_eq)

lemma contains_tilde:
  assumes "valid_specifier sp" "sp_operator sp = TildeEqual" "public_version v"
  shows "sp_contains sp v = Some (v_epoch (sp_version sp) = v_epoch v \<and>
    star_matches (butlast (v_release (sp_version sp))) (v_release v) \<and>
    full_core (make_full (sp_version sp)) \<le> full_core (make_full v))"
proof -
  let ?t = "sp_version sp"
  have t: "v_local ?t = Segments []" using valid_no_local [OF assms(1)] assms(2) by (simp add: is_local_compatible_def)
  have len: "1 < length (v_release ?t)" and ok: "ok_version ?t"
    using assms(1,2) by (auto simp: valid_specifier_def public_ok)
  then have "v_release ?t = butlast (v_release ?t) @ [last (v_release ?t)]"
    by (cases "v_release ?t" rule: rev_cases) auto
  then have prefix: "list_all (\<lambda>(a, b). a = b) (zip (butlast (v_release ?t)) (v_release v)) \<longleftrightarrow>
      star_matches (butlast (v_release ?t)) (v_release v)"
    if "v_epoch ?t = v_epoch v" "full_core (make_full ?t) \<le> full_core (make_full v)"
    using full_core_le_release [of "make_full ?t" "make_full v"] that zip_prefix_padded by (metis v_fields(1,2))
  show ?thesis
    using len prefix assms(2)
    by (auto simp: sp_contains_other Let_def other_of_fields [OF assms(3) t] other_of_cmp [OF assms(3) ok t t])
qed

lemma suffix_core_eq_pre:
  assumes "public_full f" "full_min g = None" "full_max g = None" "full_post g = None" "full_dev g = None"
    "suffix_core (f\<lparr>full_post := None, full_dev := None\<rparr>) = suffix_core g"
  shows "full_pre f = full_pre g"
  using assms
  by (cases "full_pre f"; cases "full_pre g")
    (auto simp: suffix_core_public public_full_def intro: prerelease.equality)

lemma sortable_tuple_with_cong:
  assumes "v_max v = v_max w" "v_min v = v_min w" "v_pre v = v_pre w" "v_local v = v_local w"
  shows "sortable_tuple_with v post dev = sortable_tuple_with w post dev"
  unfolding sortable_tuple_with_def assms by (rule refl)

text \<open>Excluding the post releases of a version, in terms of cores.\<close>

lemma without_post_and_dev_core:
  assumes "public_version v" "public_version w" "v_local w = Segments []"
  shows "without_post_and_dev_eq (other_of w v) w \<longleftrightarrow>
    full_core ((make_full v)\<lparr>full_post := None, full_dev := None\<rparr>) = full_core (make_full w)"
proof -
  let ?o = "other_of w v" and ?f = "(make_full v)\<lparr>full_post := None, full_dev := None\<rparr>"
  note o = other_of_full [OF assms(1,3)]
  have "sortable_tuple_with ?o None None = full_tuple (?f\<lparr>full_local := Segments []\<rparr>)"
    using o by (simp add: full_tuple_def sortable_tuple_def) (rule sortable_tuple_with_cong; simp add: v_fields)
  moreover have "sortable_tuple w = full_tuple (make_full w)"
    by (simp add: full_tuple_def sortable_tuple_def sortable_tuple_with_full [of w] v_fields)
  moreover have "full_local (make_full w) = Segments []" using assms(3) by (simp add: v_fields)
  moreover have "full_tuple (?f\<lparr>full_local := Segments []\<rparr>) = full_tuple g \<longleftrightarrow> suffix_core ?f = suffix_core g"
    if "full_local g = Segments []" for g
  proof -
    obtain a b c d where f: "suffix_core (?f\<lparr>full_local := Segments []\<rparr>) = (a, b, c, d)" by (metis prod_cases4)
    obtain a' b' c' d' where g: "suffix_core g = (a', b', c', d')" by (metis prod_cases4)
    have "suffix_core ?f = suffix_core (?f\<lparr>full_local := Segments []\<rparr>)"
      using full_core_local [where f = ?f and l = "Segments []"] by (simp add: full_core_eq del: full_core_local)
    then show ?thesis
      using full_tuple_split [OF f [unfolded suffix_core_def]] full_tuple_split [OF g [unfolded suffix_core_def]] f g that
      by simp
  qed
  ultimately show ?thesis
    using o without_post_and_dev_eq_slow_eq [of ?o w] public_ok [OF assms(2)]
    by (auto simp: without_post_and_dev_eq_slow_def compare_release_key full_core_eq v_fields)
qed

text \<open>Epoch and release decide first, then the suffix.\<close>

definition epoch_release :: "version_full \<Rightarrow> u64 \<times> u64 list" where
  "epoch_release f = (full_epoch f, trim_zeros (full_release f))"

lemma full_core_cmp:
  "full_core f < full_core g \<longleftrightarrow>
     epoch_release f < epoch_release g \<or> epoch_release f = epoch_release g \<and> suffix_core f < suffix_core g"
  "full_core f \<le> full_core g \<longleftrightarrow>
     epoch_release f < epoch_release g \<or> epoch_release f = epoch_release g \<and> suffix_core f \<le> suffix_core g"
  "full_core f = full_core g \<longleftrightarrow> epoch_release f = epoch_release g \<and> suffix_core f = suffix_core g"
  by (auto simp: full_core_eq epoch_release_def)

lemma epoch_release_upd [simp]:
  "epoch_release (f\<lparr>full_dev := d\<rparr>) = epoch_release f" "epoch_release (f\<lparr>full_post := d\<rparr>) = epoch_release f"
  "epoch_release (f\<lparr>full_pre := q\<rparr>) = epoch_release f" "epoch_release (f\<lparr>full_min := d\<rparr>) = epoch_release f"
  "epoch_release (f\<lparr>full_max := d\<rparr>) = epoch_release f" "epoch_release (f\<lparr>full_local := l\<rparr>) = epoch_release f"
  by (simp_all add: epoch_release_def)

lemma epoch_less: "full_epoch f < full_epoch g \<Longrightarrow> epoch_release f < epoch_release g"
  by (simp add: epoch_release_def)

abbreviation prerelease_full :: "version_full \<Rightarrow> bool" where
  "prerelease_full f \<equiv> full_pre f \<noteq> None \<or> full_dev f \<noteq> None"

lemma excluded_below:
  "x < y \<Longrightarrow> (x \<le> a \<Longrightarrow> a < y \<Longrightarrow> P) \<Longrightarrow> \<not> (P \<and> x \<le> a) \<and> a < y \<longleftrightarrow> a < x"
  for a x y :: "'a::linorder"
  by (meson less_trans not_le)

text \<open>Lifting an equivalence on suffixes to cores, with the shortcut on epochs.\<close>

lemma less_combine:
  fixes a b :: "'a::linorder" and s t d l :: "'b::linorder"
  assumes "\<not> (X \<and> d \<le> s) \<and> s < t \<longleftrightarrow> s < l" "e \<longrightarrow> a < b"
  shows "(e \<or> \<not> (X \<and> (b < a \<or> b = a \<and> d \<le> s)) \<and> (a < b \<or> a = b \<and> s < t)) \<longleftrightarrow> (a < b \<or> a = b \<and> s < l)"
  using assms by (cases a b rule: linorder_cases) auto

lemma suffix_less_post:
  assumes "public_full f" "public_full t" "full_pre t = None" "full_dev t = None" "full_post t = Some n"
  shows "\<not> (prerelease_full f \<and> suffix_core (t\<lparr>full_dev := Some 0\<rparr>) \<le> suffix_core f) \<and> suffix_core f < suffix_core t \<longleftrightarrow>
    suffix_core f < suffix_core (t\<lparr>full_dev := Some 0\<rparr>)"
proof -
  have t: "suffix_core t = (6, 0, Some n, u64_MAX)" "suffix_core (t\<lparr>full_dev := Some 0\<rparr>) = (6, 0, Some n, 0)"
    using assms(2-) by (simp_all add: suffix_core_public public_full_def)
  have between: "prerelease_full f" if "(6, 0, Some n, 0) \<le> suffix_core f" "suffix_core f < (6, 0, Some n, u64_MAX)"
  proof (rule ccontr)
    assume "\<not> prerelease_full f"
    then have "suffix_core f = (5, 0, None, 0) \<or> (\<exists>m. suffix_core f = (6, 0, Some m, u64_MAX))"
      using assms(1) by (auto simp: suffix_core_public public_full_def split: option.splits)
    with that show False by auto
  qed
  have "(6, 0, Some n, 0) < (6 :: u64, 0 :: u64, Some n, u64_MAX)" by simp
  from excluded_below [OF this between] show ?thesis unfolding t .
qed

lemma suffix_less_plain:
  assumes "public_full f" "public_full t" "full_pre t = None" "full_dev t = None" "full_post t = None"
  shows "\<not> (prerelease_full f \<and> suffix_core (t\<lparr>full_dev := Some 0\<rparr>) \<le> suffix_core f) \<and> suffix_core f < suffix_core t \<longleftrightarrow>
    suffix_core f < suffix_core (t\<lparr>full_min := Some 0\<rparr>)"
proof -
  have t: "suffix_core t = (5, 0, None, 0)" "suffix_core (t\<lparr>full_dev := Some 0\<rparr>) = (1, 0, None, 0)"
    "suffix_core (t\<lparr>full_min := Some 0\<rparr>) = (0, 0, None, 0)"
    using assms(2-) by (simp_all add: suffix_core_public suffix_core_min public_full_def)
  have "prerelease_full f" if "suffix_core f < (5, 0, None, 0)"
    using assms(1) that by (auto simp: suffix_core_public public_full_def split: option.splits)
  moreover have "\<not> suffix_core f < (0, 0, None, 0)"
    using dev0_least [OF assms(1)] by (cases "suffix_core f") (auto simp: not_less)
  ultimately show ?thesis using dev0_least [OF assms(1)] unfolding t by blast
qed

text \<open>What \<open><V\<close> accepts: everything before the bound that its conversion to a range uses.\<close>

definition less_bound :: "version_full \<Rightarrow> version_full" where
  "less_bound t =
     (if prerelease_full t then t
      else if full_post t \<noteq> None then t\<lparr>full_dev := Some 0\<rparr>
      else t\<lparr>full_min := Some 0\<rparr>)"

lemma contains_less:
  assumes "valid_specifier sp" "sp_operator sp = LessThan" "public_version v"
  shows "sp_contains sp v = Some (full_core (make_full v) < full_core (less_bound (make_full (sp_version sp))))"
proof -
  let ?t = "sp_version sp" and ?F = "make_full v" and ?T = "make_full (sp_version sp)"
  have t: "v_local ?t = Segments []" using valid_no_local [OF assms(1)] assms(2) by (simp add: is_local_compatible_def)
  have ok: "ok_version ?t" and pt: "public_full ?T" "wf_version ?t" and pf: "public_full ?F"
    using assms(1,3) by (auto simp: valid_specifier_def public_ok public_version_full)
  have okd: "ok_version (with_dev (Some 0) ?t)" "v_local (with_dev (Some 0) ?t) = Segments []"
    "make_full (with_dev (Some 0) ?t) = ?T\<lparr>full_dev := Some 0\<rparr>"
    using ok t by (auto simp: ok_version_full setters_wf setters_full v_fields)
  define X where "X \<longleftrightarrow> \<not> any_prerelease ?t \<and> any_prerelease v"
  have pre: "any_prerelease w \<longleftrightarrow> prerelease_full (make_full w)" for w
    by (simp add: any_prerelease_def is_pre_def is_dev_def v_fields)
  have suffix: "\<not> (X \<and> suffix_core (?T\<lparr>full_dev := Some 0\<rparr>) \<le> suffix_core ?F) \<and> suffix_core ?F < suffix_core ?T \<longleftrightarrow>
      suffix_core ?F < suffix_core (less_bound ?T)"
    using suffix_less_post [OF pf pt(1)] suffix_less_plain [OF pf pt(1)] by (auto simp: less_bound_def X_def pre)
  have er: "epoch_release (less_bound ?T) = epoch_release ?T" by (simp add: less_bound_def)
  have run: "sp_contains sp v = Some (v_epoch v < v_epoch ?t \<or>
      \<not> (X \<and> full_core (?T\<lparr>full_dev := Some 0\<rparr>) \<le> full_core ?F) \<and> full_core ?F < full_core ?T)"
    using assms(2)
    by (simp add: sp_contains_other Let_def other_of_fields [OF assms(3) t] other_of_cmp(3) [OF assms(3) ok t t]
        other_of_cmp(6) [OF assms(3) okd(1) t okd(2)] okd(3) X_def)
  have epoch: "v_epoch v < v_epoch ?t \<longrightarrow> epoch_release ?F < epoch_release ?T"
    using epoch_less [of ?F ?T] by (simp add: v_fields)
  show ?thesis
    unfolding run full_core_cmp er epoch_release_upd less_combine [OF suffix epoch] by (rule refl)
qed

lemma u64_MAX_greatest [simp]: "x \<le> u64_MAX" "\<not> u64_MAX < x"
proof -
  have "(- 1 :: u64) = u64_MAX" by simp
  then show "x \<le> u64_MAX" using word_n1_ge [of x] by metis
  then show "\<not> u64_MAX < x" by (simp only: not_less not_False_eq_True)
qed

lemma suffix_kinds_le [simp]: "\<not> (5 :: u64) \<le> 1" "\<not> (6 :: u64) \<le> 1" "\<not> (6 :: u64) \<le> 5"
  by (simp_all add: not_le)

lemma suffix_greater_plain:
  assumes "public_full f" "public_full t" "full_dev t = None" "full_post t = None"
  shows "\<not> (full_post f \<noteq> None \<and> suffix_core (f\<lparr>full_post := None, full_dev := None\<rparr>) = suffix_core t) \<and>
      suffix_core t < suffix_core f \<longleftrightarrow> suffix_core (t\<lparr>full_max := Some 0\<rparr>) < suffix_core f"
proof -
  have f: "full_min f = None" "full_max f = None" "pred_option (\<lambda>n. n < u64_MAX) (full_post f)"
    and t: "full_min t = None" "full_max t = None"
    using assms(1,2) by (simp_all add: public_full_def)
  show ?thesis
    using f t assms(3,4)
    by (cases "full_pre f"; cases "full_post f"; cases "full_dev f"; cases "full_pre t";
        auto simp: suffix_core_public suffix_core_max unwrap_or_def)
qed

text \<open>What \<open>>V\<close> accepts, in the three cases that its conversion to a range distinguishes.\<close>

definition greater_accepts :: "version_full \<Rightarrow> version_full \<Rightarrow> bool" where
  "greater_accepts t f \<longleftrightarrow>
     (case full_dev t of
        Some n \<Rightarrow> full_core (t\<lparr>full_dev := Some (n + 1)\<rparr>) \<le> full_core f
      | None \<Rightarrow>
          if full_post t \<noteq> None then full_core t < full_core f
          else full_core (t\<lparr>full_max := Some 0\<rparr>) < full_core f)"

lemma suffix_dev_succ:
  assumes "full_min t = None" "full_max t = None" "full_dev t = Some n" "n < u64_MAX"
  shows "s < suffix_core (t\<lparr>full_dev := Some (n + 1)\<rparr>) \<longleftrightarrow> s \<le> suffix_core t"
proof -
  obtain a b c d where s: "s = (a, b, c, d)" by (cases s)
  show ?thesis
    using assms by (cases "full_pre t"; cases "full_post t")
      (auto simp: suffix_core_public unwrap_or_def s u64_less_succ_iff)
qed

lemma suffix_strip_dev:
  assumes "public_full f" "public_full t" "full_dev t = Some n" "full_post t = None"
  shows "suffix_core (f\<lparr>full_post := None, full_dev := None\<rparr>) \<noteq> suffix_core t"
proof -
  have "n \<noteq> u64_MAX" using assms(2,3) by (auto simp: public_full_def)
  then show ?thesis
    using assms
    by (cases "full_pre f"; cases "full_pre t") (auto simp: public_full_def suffix_core_public unwrap_or_def)
qed

lemma suffix_greater:
  assumes "public_full f" "public_full t"
  shows "\<not> (full_post t = None \<and> full_post f \<noteq> None \<and>
        suffix_core (f\<lparr>full_post := None, full_dev := None\<rparr>) = suffix_core t) \<and> suffix_core t < suffix_core f \<longleftrightarrow>
      (case full_dev t of
        Some n \<Rightarrow> suffix_core (t\<lparr>full_dev := Some (n + 1)\<rparr>) \<le> suffix_core f
      | None \<Rightarrow>
          if full_post t \<noteq> None then suffix_core t < suffix_core f
          else suffix_core (t\<lparr>full_max := Some 0\<rparr>) < suffix_core f)"
proof (cases "full_dev t")
  case None
  then show ?thesis using suffix_greater_plain [OF assms None] by auto
next
  case (Some n)
  have "n < u64_MAX" "full_min t = None" "full_max t = None" using assms(2) Some by (auto simp: public_full_def)
  then have "suffix_core (t\<lparr>full_dev := Some (n + 1)\<rparr>) \<le> suffix_core f \<longleftrightarrow> suffix_core t < suffix_core f"
    using suffix_dev_succ [of t n "suffix_core f"] Some by (metis not_le)
  then show ?thesis using Some suffix_strip_dev [OF assms Some] by auto
qed

lemma greater_accepts_suffix:
  "greater_accepts t f \<longleftrightarrow> epoch_release t < epoch_release f \<or> epoch_release t = epoch_release f \<and>
     (case full_dev t of
        Some n \<Rightarrow> suffix_core (t\<lparr>full_dev := Some (n + 1)\<rparr>) \<le> suffix_core f
      | None \<Rightarrow>
          if full_post t \<noteq> None then suffix_core t < suffix_core f
          else suffix_core (t\<lparr>full_max := Some 0\<rparr>) < suffix_core f)"
  by (cases "full_dev t") (simp_all add: greater_accepts_def full_core_cmp)

lemma greater_combine:
  fixes a b :: "'a::linorder"
  assumes "\<not> X \<and> t < s \<longleftrightarrow> Q" "e \<longrightarrow> b < a"
  shows "(e \<or> \<not> (X \<and> a = b) \<and> (b < a \<or> b = a \<and> t < s)) \<longleftrightarrow> (b < a \<or> b = a \<and> Q)"
  using assms by (cases a b rule: linorder_cases) auto

lemma contains_greater:
  assumes "valid_specifier sp" "sp_operator sp = GreaterThan" "public_version v"
  shows "sp_contains sp v = Some (greater_accepts (make_full (sp_version sp)) (make_full v))"
proof -
  let ?t = "sp_version sp" and ?F = "make_full v" and ?T = "make_full (sp_version sp)"
  let ?S = "?F\<lparr>full_post := None, full_dev := None\<rparr>"
  have t: "v_local ?t = Segments []" using valid_no_local [OF assms(1)] assms(2) by (simp add: is_local_compatible_def)
  have pub: "public_version ?t" using assms(1) by (simp add: valid_specifier_def)
  then have ok: "ok_version ?t" and pt: "public_full ?T" and pf: "public_full ?F"
    using assms(3) by (auto simp: public_ok public_version_full)
  have er: "epoch_release ?S = epoch_release ?F" by simp
  have "sp_contains sp v = Some (v_epoch ?t < v_epoch v \<or>
      \<not> ((v_post ?t = None \<and> v_post v \<noteq> None \<and> suffix_core ?S = suffix_core ?T) \<and>
         epoch_release ?F = epoch_release ?T) \<and>
      (epoch_release ?T < epoch_release ?F \<or> epoch_release ?T = epoch_release ?F \<and> suffix_core ?T < suffix_core ?F))"
    using assms(2)
    by (auto simp: sp_contains_other Let_def other_of_fields [OF assms(3) t] other_of_cmp(4) [OF assms(3) ok t t]
        without_post_and_dev_core [OF assms(3) pub t] is_post_def full_core_cmp er)
  note run = this [unfolded v_fields]
  have epoch: "full_epoch ?T < full_epoch ?F \<longrightarrow> epoch_release ?T < epoch_release ?F"
    using epoch_less by blast
  show ?thesis
    unfolding run greater_accepts_suffix greater_combine [OF suffix_greater [OF pf pt] epoch] by (rule refl)
qed

lemma contains_equal:
  assumes "valid_specifier sp" "sp_operator sp = Equal \<or> sp_operator sp = NotEqual" "public_version v"
  shows "sp_contains sp v = Some ((sp_operator sp = Equal) =
    (if v_local (sp_version sp) = Segments [] then full_core (make_full v) = full_core (make_full (sp_version sp))
     else version_eq v (sp_version sp)))"
proof -
  let ?t = "sp_version sp"
  have ok: "ok_version ?t" "ok_version v" using assms(1,3) by (simp_all add: valid_specifier_def public_ok)
  have sym: "version_eq ?t v = version_eq v ?t" using ok by (auto simp: core_order)
  show ?thesis
  proof (cases "v_local ?t = Segments []")
    case True
    note eq = other_of_cmp(1,2) [OF assms(3) ok(1) True True]
    from assms(2) show ?thesis
      by (elim disjE) (simp_all add: sp_contains_other Let_def eq True eq_commute [of "full_core (make_full ?t)"])
  next
    case False
    then have "other_of ?t v = v" by (simp add: other_of_def local_is_empty_iff)
    with False assms(2) show ?thesis by (elim disjE) (simp_all add: sp_contains_other Let_def sym)
  qed
qed

lemma contains_ordered:
  assumes "valid_specifier sp" "public_version v"
  shows "sp_operator sp = LessThanEqual \<Longrightarrow>
      sp_contains sp v = Some (full_core (make_full v) \<le> full_core (make_full (sp_version sp)))"
    and "sp_operator sp = GreaterThanEqual \<Longrightarrow>
      sp_contains sp v = Some (full_core (make_full (sp_version sp)) \<le> full_core (make_full v))"
proof -
  let ?t = "sp_version sp"
  have ok: "ok_version ?t" using assms(1) by (simp add: valid_specifier_def public_ok)
  have t: "v_local ?t = Segments []" if "sp_operator sp \<in> {LessThanEqual, GreaterThanEqual}"
    using that valid_no_local [OF assms(1)] by (auto simp: is_local_compatible_def)
  show "sp_operator sp = LessThanEqual \<Longrightarrow>
      sp_contains sp v = Some (full_core (make_full v) \<le> full_core (make_full ?t))"
    using other_of_cmp(5) [OF assms(2) ok t t] by (simp add: sp_contains_other Let_def)
  show "sp_operator sp = GreaterThanEqual \<Longrightarrow>
      sp_contains sp v = Some (full_core (make_full ?t) \<le> full_core (make_full v))"
    using other_of_cmp(6) [OF assms(2) ok t t] by (simp add: sp_contains_other Let_def)
qed

lemma contains_star:
  assumes "valid_specifier sp" "is_star (sp_operator sp)" "public_version v"
  shows "sp_contains sp v = Some ((sp_operator sp = EqualStar) =
    (v_epoch (sp_version sp) = v_epoch v \<and> star_matches (v_release (sp_version sp)) (v_release v)))"
proof -
  have "v_local (sp_version sp) = Segments []"
    using assms(2) valid_no_local [OF assms(1)] by (auto simp: is_star_def is_local_compatible_def)
  note fields = other_of_fields [OF assms(3) this]
  from assms(2) have "sp_operator sp = EqualStar \<or> sp_operator sp = NotEqualStar" by (simp add: is_star_def)
  then show ?thesis by (elim disjE) (simp_all add: sp_contains_other Let_def fields)
qed

lemma contains_exact:
  "sp_operator sp = ExactEqual \<Longrightarrow> sp_contains sp v = Some (version_eq (sp_version sp) v)"
  by (simp add: sp_contains_other Let_def)

end
