(* ===== verification/SpecifierText.thy ===== *)
theory SpecifierText
  imports VersionContains
begin

text \<open>
  The text of version specifiers and the lists of them: wildcard patterns are plain releases, parsing
  never panics and returns valid specifiers, printing and parsing are inverse, sorting keeps membership,
  and equality, order and hash of specifiers agree with each other and with membership.
\<close>

section \<open>Wildcard patterns\<close>

text \<open>A pattern with a wildcard is a plain release: the parser stops before the other components.\<close>

definition parser_blank :: "parser \<Rightarrow> bool" where
  "parser_blank p \<longleftrightarrow> p_pre p = None \<and> p_post p = None \<and> p_dev p = None \<and> p_local p = [] \<and> \<not> p_wildcard p"

lemma moves_keep:
  "bump_while P p = Inr (x, p') \<Longrightarrow> parser_blank p' = parser_blank p \<and> p_wildcard p' = p_wildcard p"
  "bump_if s p = Inr (b, p') \<Longrightarrow> parser_blank p' = parser_blank p \<and> p_wildcard p' = p_wildcard p"
  "bump_if_byte_set bs p = Inr (c, p') \<Longrightarrow> p_wildcard p' = p_wildcard p"
  "bump_if_string_set ss p = Inr (i, p') \<Longrightarrow> p_wildcard p' = p_wildcard p"
  "unbump p = Inr (u, p') \<Longrightarrow> parser_blank p' = parser_blank p"
  "reset n p = Inr (u, p') \<Longrightarrow> p_wildcard p' = p_wildcard p"
  "push_number m p = Inr (u, p') \<Longrightarrow> parser_blank p' = parser_blank p"
  by (auto simp: bump_while_def bump_if_def bump_if_byte_set_def bump_if_string_set_def unbump_def reset_def
      push_number_def Let_def bind_res_eq_Inr_iff parser_blank_def split: if_splits option.splits)

lemma parse_number_keeps:
  "parse_number p = Inr (n, p') \<Longrightarrow> parser_blank p' = parser_blank p \<and> p_wildcard p' = p_wildcard p"
  by (auto simp: parse_number_def bind_res_eq_Inr_iff split: if_splits dest: moves_keep(1))

lemma parser_blank_epoch [simp]: "parser_blank (p\<lparr>p_epoch := e\<rparr>) = parser_blank p"
  by (simp add: parser_blank_def)

lemma ok_or_keeps: "bind_res r (ok_or e) = Inr (n, p') \<Longrightarrow> r = Inr (Some n, p')"
  by (auto simp: bind_res_eq_Inr_iff ok_or_def split: option.splits)

lemma parse_epoch_keeps:
  assumes "parse_epoch_and_initial_release p = Inr (u, p')" "parser_blank p"
  shows "parser_blank p'"
proof -
  from assms(1) obtain n p1 bang p2 m p3 where r: "bind_res (parse_number p) (ok_or (PatternVersion NoLeadingNumber)) = Inr (n, p1)"
    "bump_if ''!'' p1 = Inr (bang, p2)"
    "(if bang then bind_res (parse_number (p2\<lparr>p_epoch := n\<rparr>)) (ok_or (PatternVersion NoLeadingReleaseNumber))
      else Inr (n, p2)) = Inr (m, p3)" "push_number m p3 = Inr (u, p')"
    unfolding parse_epoch_and_initial_release_def by (fastforce simp: bind_res_eq_Inr_iff [of _ "\<lambda>(x, y). f x y" for f])
  have "parser_blank p2" using ok_or_keeps [OF r(1)] parse_number_keeps moves_keep(2) [OF r(2)] assms(2) by blast
  moreover have "parse_number (p2\<lparr>p_epoch := n\<rparr>) = Inr (Some m, p3) \<or> p3 = p2"
    using r(3) ok_or_keeps [of "parse_number (p2\<lparr>p_epoch := n\<rparr>)"] by (cases bang) auto
  ultimately have "parser_blank p3" using parse_number_keeps [of "p2\<lparr>p_epoch := n\<rparr>" "Some m" p3] by auto
  then show ?thesis using moves_keep(7) [OF r(4)] by simp
qed

lemma parse_rest_step:
  assumes "parse_rest_of_release p = Inr (u, p')"
  obtains p1 where "bump_if ''.'' p = Inr (False, p1)" "p' = p1"
  | p1 p2 where "bump_if ''.'' p = Inr (True, p1)" "parse_number p1 = Inr (None, p2)" "unbump p2 = Inr (u, p')"
  | p1 p2 p3 n where "bump_if ''.'' p = Inr (True, p1)" "parse_number p1 = Inr (Some n, p2)"
      "push_number n p2 = Inr ((), p3)" "parse_rest_of_release p3 = Inr (u, p')"
proof -
  from assms obtain dot p1 where dot: "bump_if ''.'' p = Inr (dot, p1)"
    by (auto simp: parse_rest_of_release.simps [of p] bind_res_eq_Inr_iff)
  show thesis
  proof (cases dot)
    case False
    then show thesis using that(1) assms dot by (simp add: parse_rest_of_release.simps [of p])
  next
    case True
    then obtain n p2 where n: "parse_number p1 = Inr (n, p2)"
      using assms dot by (auto simp: parse_rest_of_release.simps [of p] bind_res_eq_Inr_iff)
    show thesis
      using that(2) [of p1 p2] that(3) [of p1 _ p2] assms dot True n
      by (cases n) (auto simp: parse_rest_of_release.simps [of p] bind_res_eq_Inr_iff)
  qed
qed

lemma parse_rest_keeps:
  "parse_rest_of_release p = Inr (u, p') \<Longrightarrow> parser_blank p \<Longrightarrow> parser_blank p'"
proof (induction p rule: parse_rest_of_release.induct)
  case (1 p)
  from "1.prems"(1) show ?case
  proof (cases rule: parse_rest_step)
    case (1 p1)
    then show ?thesis using moves_keep(2) "1.prems"(2) by blast
  next
    case (2 p1 p2)
    then show ?thesis using moves_keep(2,5) parse_number_keeps "1.prems"(2) by blast
  next
    case (3 p1 p2 p3 n)
    then have "parser_blank p3" using moves_keep(2,7) parse_number_keeps "1.prems"(2) by blast
    then show ?thesis using "1.IH" [OF 3(1) refl _ 3(2) refl refl 3(3) refl] 3(4) by simp
  qed
qed

lemma parse_suffix_keeps:
  "parse_pre p = Inr (u, p') \<Longrightarrow> p_wildcard p' = p_wildcard p"
  "parse_post_spelled k p = Inr (u, p') \<Longrightarrow> p_wildcard p' = p_wildcard p"
  "parse_dev p = Inr (u, p') \<Longrightarrow> p_wildcard p' = p_wildcard p"
  by (fastforce simp: parse_pre_def parse_post_spelled_def parse_dev_def Let_def bind_res_eq_Inr_iff
      split: if_splits option.splits dest: moves_keep parse_number_keeps)+

lemma parse_post_keeps: "parse_post p = Inr (u, p') \<Longrightarrow> p_wildcard p' = p_wildcard p"
  by (fastforce simp: parse_post_def Let_def bind_res_eq_Inr_iff
      split: if_splits option.splits dest: moves_keep parse_number_keeps parse_suffix_keeps(2))

lemma parse_local_loop_keeps: "parse_local_loop c p = Inr (u, p') \<Longrightarrow> p_wildcard p' = p_wildcard p"
proof (induction c p rule: parse_local_loop.induct)
  case (1 c p)
  from "1.prems" obtain bytes p1 seg b p2 where r: "bump_while is_ascii_alphanumeric p = Inr (bytes, p1)" "bytes \<noteq> []"
    "local_segment_of bytes = Inr seg" "bump_if_byte_set SEPARATOR (p1\<lparr>p_local := p_local p1 @ [seg]\<rparr>) = Inr (b, p2)"
    "(case b of None \<Rightarrow> Inr ((), p2) | Some b \<Rightarrow> parse_local_loop b p2) = Inr (u, p')"
    by (auto simp: parse_local_loop.simps [of c p] bind_res_eq_Inr_iff split: if_splits)
  then have "p_wildcard p2 = p_wildcard p" using moves_keep(1) [OF r(1)] moves_keep(3) [OF r(4)] by simp
  then show ?case using r "1.IH" [OF r(1) refl r(2,3,4) refl] by (cases b) auto
qed

lemma parse_local_keeps: "parse_local p = Inr (u, p') \<Longrightarrow> p_wildcard p' = p_wildcard p"
  by (auto simp: parse_local_def bind_res_eq_Inr_iff split: if_splits dest!: moves_keep(2) parse_local_loop_keeps)


lemma parse_after_release_wildcard:
  assumes "parse_after_release p = Inr vpat" "parser_blank p" "vp_wildcard vpat"
  shows "full_pre (make_full (vp_version vpat)) = None" "full_post (make_full (vp_version vpat)) = None"
    "full_dev (make_full (vp_version vpat)) = None" "full_local (make_full (vp_version vpat)) = Segments []"
proof -
  from assms(1) obtain w p1 where w: "parse_wildcard p = Inr (w, p1)"
    by (auto simp: parse_after_release_def bind_res_eq_Inr_iff)
  have "w"
  proof (rule ccontr)
    assume n: "\<not> w"
    with w have "p_wildcard p1 = p_wildcard p"
      by (auto simp: parse_wildcard_def bind_res_eq_Inr_iff split: if_splits dest: moves_keep(2))
    moreover from assms(1) n w obtain p2 p3 p4 p5 p6 x where
      "parse_pre p1 = Inr ((), p2)" "parse_post p2 = Inr ((), p3)" "parse_dev p3 = Inr ((), p4)"
      "parse_local p4 = Inr ((), p5)" "bump_while is_ascii_whitespace p5 = Inr (x, p6)" "into_pattern p6 = Some vpat"
      by (auto simp: parse_after_release_def bind_res_eq_Inr_iff or_panic_def split: if_splits option.splits)
    moreover from this have "vp_wildcard vpat = p_wildcard p6" by (auto simp: into_pattern_def split: if_splits)
    ultimately show False
      using assms(2,3) parse_suffix_keeps parse_post_keeps parse_local_keeps moves_keep(1) unfolding parser_blank_def by metis
  qed
  then have "into_pattern p1 = Some vpat"
    using assms(1) w by (auto simp: parse_after_release_def or_panic_def split: option.splits)
  moreover have "p_pre p1 = None" "p_post p1 = None" "p_dev p1 = None" "p_local p1 = []"
    using w assms(2) by (auto simp: parse_wildcard_def bind_res_eq_Inr_iff bump_if_def parser_blank_def split: if_splits)
  ultimately show "full_pre (make_full (vp_version vpat)) = None" "full_post (make_full (vp_version vpat)) = None"
    "full_dev (make_full (vp_version vpat)) = None" "full_local (make_full (vp_version vpat)) = Segments []"
    using into_pattern_full [of p1] by (auto simp: parser_full_def into_pattern_def release_numbers_len_def split: if_splits)
qed

lemma pattern_wildcard_plain:
  assumes "pattern_from_str s = Inr vpat" "vp_wildcard vpat"
  shows "v_pre (vp_version vpat) = None" "v_post (vp_version vpat) = None" "v_dev (vp_version vpat) = None"
    "v_local (vp_version vpat) = Segments []"
proof -
  have "parse_slow (parser_new s) = Inr vpat" using assms(1) by (simp add: pattern_from_str_eq)
  then obtain x p1 b p2 p3 p4 where r: "bump_while is_ascii_whitespace (parser_new s) = Inr (x, p1)"
    "bump_if ''v'' p1 = Inr (b, p2)" "parse_epoch_and_initial_release p2 = Inr ((), p3)"
    "parse_rest_of_release p3 = Inr ((), p4)" "parse_after_release p4 = Inr vpat"
    unfolding parse_slow_def parse_after_release_def
    by (auto simp: bind_res_eq_Inr_iff [of _ "\<lambda>(x, y). f x y" for f] simp del: split_paired_Ex)
  have "parser_blank (parser_new s)" by (simp add: parser_blank_def parser_new_def)
  then have "parser_blank p4"
    using moves_keep(1) [OF r(1)] moves_keep(2) [OF r(2)] parse_epoch_keeps [OF r(3)] parse_rest_keeps [OF r(4)] by simp
  from parse_after_release_wildcard [OF r(5) this assms(2)] show
    "v_pre (vp_version vpat) = None" "v_post (vp_version vpat) = None" "v_dev (vp_version vpat) = None"
    "v_local (vp_version vpat) = Segments []"
    by (simp_all add: v_fields)
qed

section \<open>Parsing a specifier\<close>

text \<open>The parser on text, for a scanner that keeps its contract.\<close>

definition specifier_text :: "string \<Rightarrow> (parse_error_kind, specifier) res" where
  "specifier_text spec =
     (let text = dropWhile is_whitespace spec;
          op = takeWhile is_operator_char text;
          text = dropWhile is_whitespace (dropWhile is_operator_char text);
          version = takeWhile (\<lambda>c. \<not> is_whitespace c) text;
          text = dropWhile is_whitespace (dropWhile (\<lambda>c. \<not> is_whitespace c) text)
      in if op = [] then
           bind_res (res_ok (pattern_from_str version)) (\<lambda>pat. Inl (Err (MissingOperator pat)))
         else
           bind_res (lift_err InvalidOperator (operator_from_str op)) (\<lambda>op.
             if version = [] then Inl (Err MissingVersion)
             else
               bind_res (map_err InvalidVersion (pattern_from_str version)) (\<lambda>vpat.
               bind_res (lift_err InvalidSpecifier (from_pattern op vpat)) (\<lambda>sp.
                 if text \<noteq> [] then Inl (Err (InvalidTrailing text)) else Inr sp))))"

lemma specifier_from_str_text:
  assumes "scanner_laws S rest"
  shows "specifier_from_str S spec = specifier_text spec"
proof -
  have new: "rest (scan_new S t) = t" for t using assms by (simp add: scanner_laws_def)
  have eat: "\<exists>st'. eat_while S P st = (takeWhile P (rest st), st') \<and> rest st' = dropWhile P (rest st)" for P st
    using assms by (intro exI [of _ "snd (eat_while S P st)"]) (auto simp: scanner_laws_def prod_eq_iff)
  have fin: "scan_done S st \<longleftrightarrow> rest st = []" "scan_after S st = rest st" for st
    using assms by (simp_all add: scanner_laws_def)
  obtain s1 where s1: "eat_while S is_whitespace (scan_new S spec) = (takeWhile is_whitespace spec, s1)"
    "rest s1 = dropWhile is_whitespace spec"
    using eat [of is_whitespace "scan_new S spec"] new by auto
  obtain s2 where s2: "eat_while S is_operator_char s1 = (takeWhile is_operator_char (rest s1), s2)"
    "rest s2 = dropWhile is_operator_char (rest s1)"
    using eat by blast
  obtain s3 where s3: "eat_while S is_whitespace s2 = (takeWhile is_whitespace (rest s2), s3)"
    "rest s3 = dropWhile is_whitespace (rest s2)"
    using eat by blast
  obtain s4 where s4: "eat_while S (\<lambda>c. \<not> is_whitespace c) s3 = (takeWhile (\<lambda>c. \<not> is_whitespace c) (rest s3), s4)"
    "rest s4 = dropWhile (\<lambda>c. \<not> is_whitespace c) (rest s3)"
    using eat by blast
  obtain s5 where s5: "eat_while S is_whitespace s4 = (takeWhile is_whitespace (rest s4), s5)"
    "rest s5 = dropWhile is_whitespace (rest s4)"
    using eat by blast
  show ?thesis
    by (simp add: specifier_from_str_def specifier_text_def Let_def s1 s2 s3 s4 s5 fin cong: if_cong)
qed

lemma from_pattern_valid:
  assumes "parsed_version (vp_version vpat)"
    "vp_wildcard vpat \<Longrightarrow> v_pre (vp_version vpat) = None \<and> v_post (vp_version vpat) = None \<and>
       v_dev (vp_version vpat) = None \<and> v_local (vp_version vpat) = Segments []"
    "from_pattern op vpat = Inr sp" "\<not> is_star op"
  shows "valid_specifier sp \<and> parsed_version (sp_version sp)"
  using assms
  by (cases op) (auto simp: from_pattern_def from_version_def valid_specifier_def parsed_version_def is_star_def
      split: if_splits)

lemma operator_from_str_star: "operator_from_str s = Inr op \<Longrightarrow> \<not> is_star op"
  by (auto simp: operator_from_str_def is_star_def split: if_splits)

lemma specifier_text_valid:
  "ensures (specifier_text s) (\<lambda>sp. valid_specifier sp \<and> parsed_version (sp_version sp))"
proof -
  define version where "version = takeWhile (\<lambda>c. \<not> is_whitespace c)
    (dropWhile is_whitespace (dropWhile is_operator_char (dropWhile is_whitespace s)))"
  note pat = pattern_from_str_ensures [of version]
  have valid: "valid_specifier sp \<and> parsed_version (sp_version sp)"
    if "pattern_from_str version = Inr vpat" "operator_from_str t = Inr op" "from_pattern op vpat = Inr sp" for vpat t op sp
    using from_pattern_valid [of vpat op sp] pattern_wildcard_plain [OF that(1)] ensures_Inr [OF pat that(1)]
      operator_from_str_star [OF that(2)] that(3) by blast
  define op where "op = takeWhile is_operator_char (dropWhile is_whitespace s)"
  consider e where "pattern_from_str version = Inl (Err e)" | vpat where "pattern_from_str version = Inr vpat"
    using ensures_no_panic [OF pat] by (metis fault.exhaust sum.exhaust)
  then show ?thesis
  proof cases
    case (1 e)
    then show ?thesis
      by (cases "operator_from_str op")
        (simp_all add: specifier_text_def Let_def res_ok_def lift_err_def map_err_def flip: version_def op_def)
  next
    case (2 vpat)
    show ?thesis
    proof (cases "operator_from_str op")
      case (Inl e)
      with 2 show ?thesis
        by (simp add: specifier_text_def Let_def res_ok_def lift_err_def map_err_def flip: version_def op_def)
    next
      case (Inr oper)
      with 2 valid [OF 2 Inr] show ?thesis
        by (cases "from_pattern oper vpat")
          (simp_all add: specifier_text_def Let_def res_ok_def lift_err_def map_err_def flip: version_def op_def)
    qed
  qed
qed

lemma missing_operator_hint_ok:
  assumes "specifier_text s = Inl (Err (MissingOperator pat))"
  shows "missing_operator_hint pat \<noteq> Inl Panic"
proof (cases pat)
  case (Some vpat)
  define version where "version = takeWhile (\<lambda>c. \<not> is_whitespace c)
    (dropWhile is_whitespace (dropWhile is_operator_char (dropWhile is_whitespace s)))"
  define op where "op = takeWhile is_operator_char (dropWhile is_whitespace s)"
  have "op = []"
  proof (rule ccontr)
    assume "op \<noteq> []"
    then show False
      using assms
      by (cases "operator_from_str op"; cases "pattern_from_str version")
        (auto simp: specifier_text_def Let_def lift_err_def map_err_def bind_res_def simp flip: version_def op_def
          split: fault.splits if_splits sum.splits)
  qed
  then have "bind_res (res_ok (pattern_from_str version)) (\<lambda>pat. Inl (Err (MissingOperator pat))) =
      (Inl (Err (MissingOperator pat)) :: (parse_error_kind, specifier) res)"
    using assms by (simp add: specifier_text_def Let_def flip: version_def op_def)
  then have r: "pattern_from_str version = Inr vpat"
    using Some by (cases "pattern_from_str version") (auto simp: res_ok_def bind_res_def split: fault.splits)
  then have "vp_wildcard vpat \<Longrightarrow> v_local (vp_version vpat) = Segments []" by (rule pattern_wildcard_plain(4))
  then show ?thesis
    by (auto simp: Some missing_operator_hint_def from_pattern_def from_version_def is_local_def is_local_compatible_def
        split: if_splits)
qed (simp add: missing_operator_hint_def)


section \<open>Printing and parsing\<close>

lemma nonspace_chars:
  "is_ascii_alphanumeric c \<Longrightarrow> \<not> is_whitespace c \<and> c \<noteq> CHR '','' \<and> \<not> is_operator_char c"
  "is_ascii_digit c \<Longrightarrow> \<not> is_whitespace c \<and> c \<noteq> CHR '','' \<and> \<not> is_operator_char c"
  by (auto simp: is_ascii_alphanumeric_def is_whitespace_def is_operator_char_def byte_defs)

abbreviation text_char :: "char \<Rightarrow> bool" where
  "text_char c \<equiv> \<not> is_whitespace c \<and> c \<noteq> CHR '',''"

lemma text_char_consts [simp]:
  "\<not> is_whitespace CHR ''.''" "\<not> is_whitespace CHR ''!''" "\<not> is_whitespace CHR ''+''" "\<not> is_whitespace CHR ''*''"
  "\<not> is_whitespace CHR ''a''" "\<not> is_whitespace CHR ''b''" "\<not> is_whitespace CHR ''r''" "\<not> is_whitespace CHR ''c''"
  "\<not> is_whitespace CHR ''p''" "\<not> is_whitespace CHR ''o''" "\<not> is_whitespace CHR ''s''" "\<not> is_whitespace CHR ''t''"
  "\<not> is_whitespace CHR ''d''" "\<not> is_whitespace CHR ''e''" "\<not> is_whitespace CHR ''v''" "\<not> is_whitespace CHR ''=''"
  "\<not> is_whitespace CHR ''~''" "\<not> is_whitespace CHR ''<''" "\<not> is_whitespace CHR ''>''" "is_whitespace CHR '' ''"
  "\<not> is_whitespace CHR '',''"
  by code_simp+

lemma show_u64_text: "list_all text_char (show_u64 n)"
  using show_u64_digits [of n] nonspace_chars(2) by (auto simp: list_all_iff)

lemma show_dotted_text: "list_all (list_all text_char) xs \<Longrightarrow> list_all text_char (show_dotted xs)"
proof (cases xs)
  case (Cons x ys)
  assume "list_all (list_all text_char) xs"
  then have "list_all text_char x" "list_all (list_all text_char) ys" using Cons by simp_all
  then have "list_all text_char (concat (map (\<lambda>y. CHR ''.'' # y) ys))" by (induction ys) simp_all
  then show ?thesis using Cons \<open>list_all text_char x\<close> by simp
qed simp

lemma show_version_text:
  assumes "parsed_version v"
  shows "list_all text_char (show_version v)"
proof -
  from assms obtain segs where segs: "full_local (make_full v) = Segments segs" "list_all parsed_segment segs"
    by (rule parsed_version_full)
  have "list_all text_char (show_pre q)" "list_all text_char (show_post n)" "list_all text_char (show_dev n)" for q n
  proof -
    have "list_all text_char (show_kind k)" for k by (cases k) simp_all
    then show "list_all text_char (show_pre q)" "list_all text_char (show_post n)" "list_all text_char (show_dev n)"
      using show_u64_text by (cases q; simp) (cases n; simp add: show_u64_text)+
  qed
  moreover have "list_all text_char (show_segment x)" if "parsed_segment x" for x
    using show_segment_alnum [OF that] nonspace_chars(1) by (auto simp: list_all_iff)
  then have "list_all text_char (show_local_part (Segments segs))"
    using segs(2) show_dotted_text [of "map show_segment segs"] by (auto simp: show_local_part_def list_all_iff)
  moreover have "list_all text_char (show_dotted (map show_u64 (full_release (make_full v))))"
    using show_u64_text by (intro show_dotted_text) (simp add: list_all_iff)
  ultimately show ?thesis using segs(1) show_u64_text by (simp add: show_version_full show_suffix_def)
qed


lemma show_version_head:
  assumes "parsed_version v"
  shows "\<exists>c s. show_version v = c # s \<and> is_ascii_digit c"
proof -
  from assms have "full_release (make_full v) \<noteq> []" by (rule parsed_version_full)
  then obtain n ns where r: "full_release (make_full v) = n # ns" by (cases "full_release (make_full v)") auto
  obtain d ds where d: "show_u64 n = d # ds" "is_ascii_digit d" using show_u64_Cons by blast
  obtain e es where e: "show_u64 (full_epoch (make_full v)) = e # es" "is_ascii_digit e" using show_u64_Cons by blast
  show ?thesis by (simp add: show_version_full r d e)
qed

definition same_specifier :: "specifier \<Rightarrow> specifier \<Rightarrow> bool" where
  "same_specifier a b \<longleftrightarrow> sp_operator a = sp_operator b \<and> ok_version (sp_version a) \<and> ok_version (sp_version b) \<and>
     make_full (sp_version a) = make_full (sp_version b)"

lemma specifier_text_op:
  assumes "list_all is_whitespace w" "list_all is_operator_char op" "op \<noteq> []"
    "list_all text_char body" "body = c # body'" "\<not> is_operator_char c" "operator_from_str op = Inr oper"
  shows "specifier_text (w @ op @ body) =
    bind_res (map_err InvalidVersion (pattern_from_str body)) (\<lambda>vpat.
      bind_res (lift_err InvalidSpecifier (from_pattern oper vpat)) Inr)"
proof -
  have ops: "is_operator_char c \<Longrightarrow> \<not> is_whitespace c" for c by (auto simp: is_operator_char_def)
  have opw: "dropWhile is_whitespace (op @ body) = op @ body"
    using assms(2,3) ops by (cases op) auto
  have "dropWhile is_whitespace (w @ op @ body) = op @ body"
    using assms(1) by (simp add: dropWhile_append2 list_all_iff opw)
  moreover have "takeWhile is_operator_char (op @ body) = op" "dropWhile is_operator_char (op @ body) = body"
    using assms(2,5,6) by (simp_all add: takeWhile_append2 dropWhile_append2 list_all_iff)
  moreover have "dropWhile is_whitespace body = body" "takeWhile (\<lambda>c. \<not> is_whitespace c) body = body"
    "dropWhile (\<lambda>c. \<not> is_whitespace c) body = []"
    using assms(4,5) by (auto simp: list_all_iff takeWhile_eq_all_conv dropWhile_eq_Nil_conv)
  ultimately show ?thesis
    using assms(3,5,7) by (simp add: specifier_text_def Let_def lift_err_def)
qed

lemma specifier_text_show:
  assumes "valid_specifier sp" "parsed_version (sp_version sp)" "list_all is_whitespace w"
  shows "\<exists>sp'. specifier_text (w @ show_specifier sp) = Inr sp' \<and> same_specifier sp' sp"
proof -
  let ?v = "sp_version sp" and ?star = "is_star (sp_operator sp)"
  define body where "body = show_version ?v @ (if ?star then ''.*'' else [])"
  define oper where "oper = (case sp_operator sp of EqualStar \<Rightarrow> Equal | NotEqualStar \<Rightarrow> NotEqual | op \<Rightarrow> op)"
  have printed: "show_specifier sp = operator_as_str (sp_operator sp) @ body"
    by (auto simp: show_specifier_def body_def is_star_def)
  have op: "list_all is_operator_char (operator_as_str (sp_operator sp))" "operator_as_str (sp_operator sp) \<noteq> []"
    "operator_from_str (operator_as_str (sp_operator sp)) = Inr oper"
    by (cases "sp_operator sp"; simp add: is_operator_char_def operator_from_str_def oper_def)+
  obtain c s where c: "show_version ?v = c # s" "is_ascii_digit c" using show_version_head [OF assms(2)] by blast
  have chars: "list_all text_char body" using show_version_text [OF assms(2)] by (simp add: body_def)
  have plain: "v_pre ?v = None" "v_post ?v = None" "v_dev ?v = None" "v_local ?v = Segments []" if st: "is_star (sp_operator sp)"
    using st assms(1) valid_no_local [OF assms(1)] by (auto simp: valid_specifier_def is_star_def is_local_compatible_def)
  have suffix: "show_suffix (make_full ?v) = []" if st: "is_star (sp_operator sp)"
    using plain [OF st] by (simp add: show_suffix_def v_fields show_local_part_def)
  obtain vpat where v: "pattern_from_str body = Inr vpat" "vp_wildcard vpat = ?star" "wf_version (vp_version vpat)"
    "make_full (vp_version vpat) = make_full ?v"
    using parse_slow_show [OF assms(2)] parse_slow_show_star [OF assms(2) suffix plain]
    by (cases "is_star (sp_operator sp)") (auto simp: body_def pattern_from_str_eq)
  have pub: "public_version ?v" using assms(1) by (simp add: valid_specifier_def)
  then have ok: "ok_version ?v" "ok_version (vp_version vpat)"
    using v(3,4) by (simp_all add: public_ok) (simp add: ok_version_full public_version_full public_full_def)
  have loc: "is_local (vp_version vpat) = is_local ?v" "v_release (vp_version vpat) = v_release ?v"
    using v(4) by (simp_all add: is_local_def v_fields)
  have "from_pattern oper vpat = Inr \<lparr>sp_operator = sp_operator sp, sp_version = vp_version vpat\<rparr>"
    using assms(1) v(2) loc
    by (cases "sp_operator sp")
      (auto simp: from_pattern_def from_version_def oper_def is_star_def valid_specifier_def is_local_compatible_def)
  then show ?thesis
    using specifier_text_op [OF assms(3) op(1,2) chars _ _ op(3), of c "s @ (if ?star then ''.*'' else [])"] c v ok
      nonspace_chars(2) [OF c(2)]
    by (auto simp: printed body_def same_specifier_def map_err_def lift_err_def)
qed

section \<open>Lists of specifiers\<close>

definition list_key :: "specifier \<Rightarrow> _" where
  "list_key sp = (version_key (sp_version sp), sp_operator sp)"

lemma insert_by_set: "set (insert_by cmp x xs) = insert x (set xs)"
  by (induction xs) auto

lemma insert_by_insort_key:
  "(\<And>y. y \<in> set xs \<Longrightarrow> cmp x y = GT \<longleftrightarrow> \<not> f x \<le> f y) \<Longrightarrow> insert_by cmp x xs = insort_key f x xs"
  by (induction xs) auto

lemma sort_by_sort_key:
  assumes "\<And>x y. x \<in> set xs \<Longrightarrow> y \<in> set xs \<Longrightarrow> cmp x y = GT \<longleftrightarrow> \<not> f x \<le> f y"
  shows "sort_by cmp xs = sort_key f xs"
  using assms
proof (induction xs)
  case (Cons x xs)
  then have "sort_by cmp xs = sort_key f xs" by simp
  moreover have "insert_by cmp x (sort_key f xs) = insort_key f x (sort_key f xs)"
    using Cons.prems by (intro insert_by_insort_key) simp
  ultimately show ?case by (simp add: sort_by_def sort_key_def)
qed (simp add: sort_by_def)

lemma cmp_of_GT_iff: "cmp_of a b = GT \<longleftrightarrow> b < a"
  by (auto simp: cmp_of_def)

lemma from_unsorted_sort_key:
  assumes "list_all (\<lambda>sp. ok_version (sp_version sp)) sps"
  shows "from_unsorted sps = sort_key list_key sps"
  unfolding from_unsorted_def
proof (rule sort_by_sort_key)
  fix a b assume "a \<in> set sps" "b \<in> set sps"
  then have "ok_version (sp_version a)" "ok_version (sp_version b)" using assms by (simp_all add: list_all_iff)
  then show "then_with (version_cmp (sp_version a) (sp_version b)) (cmp_of (sp_operator a) (sp_operator b)) = GT \<longleftrightarrow>
      \<not> list_key a \<le> list_key b"
    by (auto simp: version_cmp_key list_key_def then_with_def cmp_of_def split: if_splits)
qed

lemma from_unsorted_idem:
  assumes "list_all (\<lambda>sp. ok_version (sp_version sp)) sps"
  shows "from_unsorted (from_unsorted sps) = from_unsorted sps"
proof -
  have "list_all (\<lambda>sp. ok_version (sp_version sp)) (sort_key list_key sps)" using assms by (simp add: list_all_iff)
  then show ?thesis
    by (simp add: from_unsorted_sort_key assms sort_key_id_if_sorted)
qed


lemma specifiers_contains_all:
  assumes "list_all (\<lambda>sp. sp_contains sp v \<noteq> None) sps"
  shows "specifiers_contains sps v = Some (list_all (\<lambda>sp. sp_contains sp v = Some True) sps)"
  using assms by (induction sps) (auto split: bool.splits)

lemma contains_total: "valid_specifier sp \<Longrightarrow> sp_contains sp v \<noteq> None"
  by (cases "sp_operator sp") (auto simp: sp_contains_def Let_def valid_specifier_def)

lemma specifiers_contains_sorted:
  assumes "list_all valid_specifier sps"
  shows "specifiers_contains (from_unsorted sps) v = specifiers_contains sps v"
proof -
  have ok: "list_all (\<lambda>sp. ok_version (sp_version sp)) sps"
    using assms by (auto simp: list_all_iff valid_specifier_def public_ok)
  have "list_all (\<lambda>sp. sp_contains sp v \<noteq> None) sps" "list_all (\<lambda>sp. sp_contains sp v \<noteq> None) (from_unsorted sps)"
    using assms contains_total by (auto simp: list_all_iff from_unsorted_sort_key [OF ok])
  from this [THEN specifiers_contains_all] show ?thesis
    by (simp add: from_unsorted_sort_key [OF ok] list_all_iff)
qed

text \<open>Splitting at commas undoes joining with commas.\<close>

lemma split_on_no: "c \<notin> set p \<Longrightarrow> split_on c p = [p]"
  by (induction p) auto

lemma split_on_append: "c \<notin> set p \<Longrightarrow> split_on c (p @ c # s) = p # split_on c s"
  by (induction p) auto

lemma split_on_join:
  "c \<notin> set p \<Longrightarrow> list_all (\<lambda>q. c \<notin> set q) ps \<Longrightarrow> split_on c (p @ concat (map (\<lambda>q. c # q) ps)) = p # ps"
  by (induction ps arbitrary: p) (auto simp: split_on_no split_on_append)

definition printable :: "specifier \<Rightarrow> bool" where
  "printable sp \<longleftrightarrow> valid_specifier sp \<and> parsed_version (sp_version sp)"

lemma show_specifier_text:
  assumes "printable sp"
  shows "CHR '','' \<notin> set (show_specifier sp)" "show_specifier sp \<noteq> []"
proof -
  have "list_all text_char (show_version (sp_version sp))"
    using assms show_version_text by (simp add: printable_def)
  moreover have "CHR '','' \<notin> set (operator_as_str op)" "operator_as_str op \<noteq> []" for op by (cases op; simp)+
  ultimately show "CHR '','' \<notin> set (show_specifier sp)" "show_specifier sp \<noteq> []"
    by (auto simp: show_specifier_def list_all_iff)
qed

lemma parse_parts_show:
  assumes "scanner_laws S rest" "list_all printable sps"
  shows "\<exists>sps'. parse_parts S spec start (map (\<lambda>sp. '' '' @ show_specifier sp) sps) = Inr sps' \<and> list_all2 same_specifier sps' sps"
  using assms(2)
proof (induction sps arbitrary: start)
  case (Cons sp sps)
  obtain sp' where sp': "specifier_from_str S ('' '' @ show_specifier sp) = Inr sp'" "same_specifier sp' sp"
    using specifier_text_show [of sp "'' ''"] Cons.prems
    by (auto simp: specifier_from_str_text [OF assms(1)] printable_def)
  from Cons.IH [of "start + length ('' '' @ show_specifier sp) + length '',''"] Cons.prems obtain sps' where
    "parse_parts S spec (start + length ('' '' @ show_specifier sp) + length '','')
       (map (\<lambda>sp. '' '' @ show_specifier sp) sps) = Inr sps'" "list_all2 same_specifier sps' sps"
    by auto
  with sp' show ?case by auto
qed simp

lemma list_key_same: "same_specifier a b \<Longrightarrow> list_key a = list_key b"
  by (simp add: same_specifier_def list_key_def version_key_full)

lemma list_all2_insort:
  assumes "list_all2 R xs ys" "R x y" "\<And>x y. R x y \<Longrightarrow> f x = f y"
  shows "list_all2 R (insort_key f x xs) (insort_key f y ys)"
  using assms(1,2)
proof (induction rule: list_all2_induct)
  case (Cons a as b bs)
  then show ?case using assms(3) [of x y] assms(3) [of a b] by simp
qed simp

lemma list_all2_sort_key:
  assumes "list_all2 R xs ys" "\<And>x y. R x y \<Longrightarrow> f x = f y"
  shows "list_all2 R (sort_key f xs) (sort_key f ys)"
  using assms(1) by (induction rule: list_all2_induct) (simp_all add: list_all2_insort assms(2))

lemma from_unsorted_same:
  assumes "list_all2 same_specifier xs ys"
  shows "list_all2 same_specifier (from_unsorted xs) (from_unsorted ys)"
proof -
  have "list_all (\<lambda>sp. ok_version (sp_version sp)) xs" "list_all (\<lambda>sp. ok_version (sp_version sp)) ys"
    using assms by (induction rule: list_all2_induct) (simp_all add: same_specifier_def)
  then show ?thesis
    using list_all2_sort_key [OF assms list_key_same] by (simp add: from_unsorted_sort_key)
qed

lemma specifiers_from_str_show:
  assumes "scanner_laws S rest" "list_all printable sps"
  shows "\<exists>sps'. specifiers_from_str S (show_specifiers sps) = Inr sps' \<and> list_all2 same_specifier sps' (from_unsorted sps)"
proof (cases sps)
  case Nil
  then show ?thesis by (simp add: specifiers_from_str_def from_unsorted_def sort_by_def)
next
  case (Cons sp rst)
  obtain sp' where sp': "specifier_from_str S (show_specifier sp) = Inr sp'" "same_specifier sp' sp"
    using specifier_text_show [of sp "[]"] assms(2) Cons by (auto simp: specifier_from_str_text [OF assms(1)] printable_def)
  note chars = show_specifier_text [of sp]
  show ?thesis
  proof (cases "rst = []")
    case True
    then show ?thesis
      using Cons sp' chars assms(2)
      by (auto simp: specifiers_from_str_def filter_empty_conv from_unsorted_def sort_by_def map_err_def)
  next
    case False
    let ?s = "show_specifiers sps"
    have s: "?s = show_specifier sp @ concat (map (\<lambda>q. CHR '','' # q) (map (\<lambda>sp. '' '' @ show_specifier sp) rst))"
      by (simp add: Cons comp_def)
    have "split_on CHR '','' ?s = show_specifier sp # map (\<lambda>sp. '' '' @ show_specifier sp) rst"
      unfolding s using chars(1) show_specifier_text(1) assms(2) Cons by (intro split_on_join) (auto simp: list_all_iff)
    moreover obtain rst' where "parse_parts S ?s (length (show_specifier sp) + length '','') (map (\<lambda>sp. '' '' @ show_specifier sp) rst) = Inr rst'"
      "list_all2 same_specifier rst' rst"
      using parse_parts_show [OF assms(1), of rst ?s "length (show_specifier sp) + length '',''"] assms(2) Cons by auto
    ultimately have "parse_version_specifiers S ?s = Inr (sp' # rst')" "list_all2 same_specifier (sp' # rst') sps"
      using sp' Cons by (auto simp: parse_version_specifiers_def)
    moreover have "filter (\<lambda>c. c = CHR '','') ?s \<noteq> []" using False by (cases rst) (auto simp: s filter_empty_conv)
    ultimately show ?thesis using from_unsorted_same [of "sp' # rst'" sps] by (simp add: specifiers_from_str_def)
  qed
qed

section \<open>Equality, order and hash of specifiers\<close>

definition sp_key :: "specifier \<Rightarrow> _" where
  "sp_key sp = (sp_operator sp, version_key (sp_version sp),
     if sp_operator sp = TildeEqual then length (v_release (sp_version sp)) else 0)"

interpretation spcmp: keyed_cmp sp_cmp sp_key "\<lambda>sp. ok_version (sp_version sp)"
proof
  fix a b :: specifier assume "ok_version (sp_version a)" "ok_version (sp_version b)"
  then show "sp_cmp a b = cmp_of (sp_key a) (sp_key b)"
    by (auto simp: sp_cmp_def sp_key_def version_cmp_key then_with_def cmp_of_def)
qed

lemma sp_eq_key:
  assumes "ok_version (sp_version a)" "ok_version (sp_version b)"
  shows "sp_eq a b \<longleftrightarrow> sp_key a = sp_key b"
  using assms by (auto simp: sp_eq_def sp_key_def version_order_keys)

lemma sp_cmp_EQ:
  assumes "ok_version (sp_version a)" "ok_version (sp_version b)"
  shows "sp_cmp a b = EQ \<longleftrightarrow> sp_eq a b"
  using assms by (simp add: sp_eq_key spcmp.cmp_key)

section \<open>Membership and equality\<close>

lemma star_matches_cong:
  assumes "p \<noteq> []" "last p < u64_MAX" "trim_zeros r = trim_zeros r'"
  shows "star_matches p r = star_matches p r'"
  by (simp add: star_matches_interval [OF assms(1,2)] assms(3))

lemma core_eqD:
  assumes "full_core f = full_core g"
  shows "full_epoch f = full_epoch g" "trim_zeros (full_release f) = trim_zeros (full_release g)"
  using assms by (simp_all add: full_core_eq)

lemma contains_candidate_cong:
  assumes "valid_specifier sp" "public_version v" "public_version w" "version_eq v w"
  shows "sp_contains sp v = sp_contains sp w"
proof -
  let ?t = "sp_version sp"
  have pub: "public_version ?t" using assms(1) by (simp add: valid_specifier_def)
  note ok = public_ok [OF assms(2)] public_ok [OF assms(3)] public_ok [OF pub]
  have core: "full_core (make_full v) = full_core (make_full w)" "full_local (make_full v) = full_local (make_full w)"
    using assms(4) by (simp_all add: core_order(1) [OF ok(1,2)])
  have rel: "v_release ?t \<noteq> []" "list_all (\<lambda>n. n < u64_MAX) (v_release ?t)" using pub by (simp_all add: public_version_def)
  have star: "v_epoch ?t = v_epoch v \<and> star_matches p (v_release v) \<longleftrightarrow> v_epoch ?t = v_epoch w \<and> star_matches p (v_release w)"
    if "p \<noteq> []" "set p \<subseteq> set (v_release ?t)" for p
  proof -
    have "last p < u64_MAX" using rel(2) last_in_set [OF that(1)] that(2) by (auto simp: list_all_iff)
    from star_matches_cong [OF that(1) this core_eqD(2) [OF core(1)]] show ?thesis
      using core_eqD(1) [OF core(1)] by (simp add: v_fields)
  qed
  have prefix: "butlast (v_release ?t) \<noteq> []" "set (butlast (v_release ?t)) \<subseteq> set (v_release ?t)"
    if "sp_operator sp = TildeEqual"
  proof -
    have "2 \<le> length (v_release ?t)" using assms(1) that by (simp add: valid_specifier_def)
    then show "butlast (v_release ?t) \<noteq> []" by (cases "v_release ?t" rule: rev_cases) auto
    show "set (butlast (v_release ?t)) \<subseteq> set (v_release ?t)" by (auto dest: in_set_butlastD)
  qed
  have eq: "version_eq v ?t = version_eq w ?t" "version_eq ?t v = version_eq ?t w"
    using core ok by (simp_all add: core_order)
  show ?thesis
  proof (cases "sp_operator sp")
    case TildeEqual
    then show ?thesis
      unfolding contains_tilde [OF assms(1) TildeEqual assms(2)] contains_tilde [OF assms(1) TildeEqual assms(3)]
      using star [OF prefix [OF TildeEqual]] core(1) by auto
  next
    case Equal
    then show ?thesis using contains_equal [OF assms(1) _ assms(2)] contains_equal [OF assms(1) _ assms(3)] core eq by simp
  next
    case NotEqual
    then show ?thesis using contains_equal [OF assms(1) _ assms(2)] contains_equal [OF assms(1) _ assms(3)] core eq by simp
  next
    case EqualStar
    then show ?thesis using contains_star [OF assms(1) _ assms(2)] contains_star [OF assms(1) _ assms(3)] star [OF rel(1)] by (simp add: is_star_def)
  next
    case NotEqualStar
    then show ?thesis using contains_star [OF assms(1) _ assms(2)] contains_star [OF assms(1) _ assms(3)] star [OF rel(1)] by (simp add: is_star_def)
  next
    case ExactEqual
    then show ?thesis by (simp add: contains_exact eq)
  next
    case LessThan
    then show ?thesis using contains_less [OF assms(1) _ assms(2)] contains_less [OF assms(1) _ assms(3)] core by simp
  next
    case GreaterThan
    then show ?thesis using contains_greater [OF assms(1) _ assms(2)] contains_greater [OF assms(1) _ assms(3)] by (simp add: greater_accepts_def core(1) cong: option.case_cong if_cong)
  qed (use contains_ordered [OF assms(1,2)] contains_ordered [OF assms(1,3)] core in simp_all)
qed


text \<open>A version without its trailing zeros denotes the same version for every comparison.\<close>

definition trim_full :: "version_full \<Rightarrow> version_full" where
  "trim_full f = f\<lparr>full_release := trim_zeros (full_release f)\<rparr>"

lemma full_core_trim [simp]: "full_core (trim_full f) = full_core f"
proof -
  have "suffix_core (f\<lparr>full_release := r\<rparr>) = suffix_core f" for r
    by (simp add: suffix_core_def full_tuple_def sortable_tuple_def) (rule arg_cong [OF sortable_tuple_with_cong]; simp)
  moreover have "trim_zeros (trim_zeros r) = trim_zeros r" for r by (induction r) auto
  ultimately show ?thesis by (simp add: full_core_eq trim_full_def)
qed

lemma trim_full_upd:
  "trim_full (f\<lparr>full_dev := d\<rparr>) = (trim_full f)\<lparr>full_dev := d\<rparr>"
  "trim_full (f\<lparr>full_min := d\<rparr>) = (trim_full f)\<lparr>full_min := d\<rparr>"
  "trim_full (f\<lparr>full_max := d\<rparr>) = (trim_full f)\<lparr>full_max := d\<rparr>"
  by (simp_all add: trim_full_def)

lemma version_eq_trim:
  assumes "public_version v" "public_version w" "version_eq v w"
  shows "trim_full (make_full v) = trim_full (make_full w)"
proof -
  have "full_epoch (make_full v) = full_epoch (make_full w)" "full_pre (make_full v) = full_pre (make_full w)"
    "full_post (make_full v) = full_post (make_full w)" "full_dev (make_full v) = full_dev (make_full w)"
    "full_local (make_full v) = full_local (make_full w)"
    "trim_zeros (full_release (make_full v)) = trim_zeros (full_release (make_full w))"
    using version_eq_hash [OF assms] by (simp_all add: version_hash_def v_fields trim_zeros_def)
  moreover have "full_min (make_full v) = full_min (make_full w)" "full_max (make_full v) = full_max (make_full w)"
    using assms(1,2) by (simp_all add: public_version_full public_full_def)
  ultimately show ?thesis by (simp add: trim_full_def)
qed

lemma trimmed_core_cong:
  assumes "trim_full f = trim_full g"
  shows "full_core f = full_core g" "full_core (less_bound f) = full_core (less_bound g)"
    "greater_accepts f h = greater_accepts g h" "full_local f = full_local g" "full_epoch f = full_epoch g"
proof -
  have upd: "full_core (f\<lparr>full_dev := d\<rparr>) = full_core (g\<lparr>full_dev := d\<rparr>)"
    "full_core (f\<lparr>full_min := d\<rparr>) = full_core (g\<lparr>full_min := d\<rparr>)"
    "full_core (f\<lparr>full_max := d\<rparr>) = full_core (g\<lparr>full_max := d\<rparr>)" for d
    using assms trim_full_upd full_core_trim by metis+
  show core: "full_core f = full_core g" using assms full_core_trim by metis
  have fields: "full_dev f = full_dev g" "full_post f = full_post g" "full_pre f = full_pre g"
    using arg_cong [OF assms, of full_dev] arg_cong [OF assms, of full_post] arg_cong [OF assms, of full_pre]
    by (simp_all add: trim_full_def)
  show "full_local f = full_local g" "full_epoch f = full_epoch g"
    using arg_cong [OF assms, of full_local] arg_cong [OF assms, of full_epoch] by (simp_all add: trim_full_def)
  show "full_core (less_bound f) = full_core (less_bound g)" "greater_accepts f h = greater_accepts g h"
    using upd core fields by (auto simp: less_bound_def greater_accepts_def split: option.splits)
qed

lemma trim_zeros_length_inject:
  "trim_zeros r = trim_zeros r' \<Longrightarrow> length r = length r' \<Longrightarrow> r = r'"
proof (induction r arbitrary: r')
  case (Cons x r)
  then obtain y s where "r' = y # s" by (cases r') auto
  with Cons show ?case by (auto split: if_splits)
qed simp

lemma contains_specifier_cong:
  assumes "valid_specifier a" "valid_specifier b" "public_version v" "sp_eq a b" "\<not> is_star (sp_operator a)"
  shows "sp_contains a v = sp_contains b v"
proof -
  have pub: "public_version (sp_version a)" "public_version (sp_version b)"
    using assms(1,2) by (simp_all add: valid_specifier_def)
  have op: "sp_operator b = sp_operator a" and eq: "version_eq (sp_version a) (sp_version b)"
    using assms(4) by (auto simp: sp_eq_def split: if_splits)
  note t = version_eq_trim [OF pub eq] and ok = public_ok [OF pub(1)] public_ok [OF pub(2)] public_ok [OF assms(3)]
  note core = trimmed_core_cong [OF t]
  have veq: "version_eq v (sp_version a) = version_eq v (sp_version b)" "version_eq (sp_version a) v = version_eq (sp_version b) v"
    "v_local (sp_version a) = v_local (sp_version b)"
    using core by (simp_all add: core_order ok v_fields)
  show ?thesis
  proof (cases "sp_operator a")
    case TildeEqual
    then have "length (v_release (sp_version a)) = length (v_release (sp_version b))"
      using assms(4) by (auto simp: sp_eq_def split: if_splits)
    then have "v_release (sp_version a) = v_release (sp_version b)"
      using core_eqD(2) [OF core(1)] trim_zeros_length_inject by (simp add: v_fields)
    moreover have "v_epoch (sp_version a) = v_epoch (sp_version b)" using core(5) by (simp add: v_fields)
    ultimately show ?thesis
      using contains_tilde [OF assms(1) _ assms(3)] contains_tilde [OF assms(2) _ assms(3)] TildeEqual op core(1) by simp
  next
    case LessThan
    then show ?thesis using contains_less [OF assms(1) _ assms(3)] contains_less [OF assms(2) _ assms(3)] op core by simp
  next
    case GreaterThan
    then show ?thesis using contains_greater [OF assms(1) _ assms(3)] contains_greater [OF assms(2) _ assms(3)] op core by simp
  next
    case Equal
    then show ?thesis
      using contains_equal [OF assms(1) _ assms(3)] contains_equal [OF assms(2) _ assms(3)] op core(1) veq by simp
  next
    case NotEqual
    then show ?thesis
      using contains_equal [OF assms(1) _ assms(3)] contains_equal [OF assms(2) _ assms(3)] op core(1) veq by simp
  qed (use contains_ordered [OF assms(1,3)] contains_ordered [OF assms(2,3)] op core(1) veq assms(5)
      in \<open>simp_all add: contains_exact is_star_def\<close>)
qed


section \<open>Properties\<close>


text \<open>A scanner that is the remaining text.\<close>

definition text_scanner :: "string scanner" where
  "text_scanner = \<lparr>
     scan_new = (\<lambda>s. s),
     eat_while = (\<lambda>P s. (takeWhile P s, dropWhile P s)),
     scan_done = (\<lambda>s. s = []),
     scan_after = (\<lambda>s. s)\<rparr>"

lemma text_scanner_laws: "scanner_laws text_scanner (\<lambda>s. s)"
  by (simp add: scanner_laws_def text_scanner_def)


text \<open>
  C16. Displaying a list of specifiers and parsing the text gives the same specifiers back, in the order
  in which \<open>VersionSpecifiers\<close> keeps them: the same operators and versions with the same components.
\<close>

theorem specifiers_roundtrip:
  assumes "scanner_laws S rest" "list_all (\<lambda>sp. valid_specifier sp \<and> parsed_version (sp_version sp)) sps"
  shows "\<exists>sps'. specifiers_from_str S (show_specifiers sps) = Inr sps' \<and>
    map sp_operator sps' = map sp_operator (from_unsorted sps) \<and>
    map (\<lambda>sp. make_full (sp_version sp)) sps' = map (\<lambda>sp. make_full (sp_version sp)) (from_unsorted sps)"
proof -
  have "list_all printable sps" using assms(2) by (simp add: list_all_iff printable_def)
  then obtain sps' where "specifiers_from_str S (show_specifiers sps) = Inr sps'"
    and same: "list_all2 same_specifier sps' (from_unsorted sps)"
    using specifiers_from_str_show [OF assms(1)] by blast
  moreover from same have "map sp_operator sps' = map sp_operator (from_unsorted sps) \<and>
      map (\<lambda>sp. make_full (sp_version sp)) sps' = map (\<lambda>sp. make_full (sp_version sp)) (from_unsorted sps)"
    by (induction rule: list_all2_induct) (simp_all add: same_specifier_def)
  ultimately show ?thesis by blast
qed

theorem specifiers_roundtrip_witness:
  "\<exists>sps'. specifiers_from_str text_scanner ''<2, ==1.4.*'' = Inr sps' \<and> map sp_operator sps' = [EqualStar, LessThan]"
proof -
  let ?sps = "[\<lparr>sp_operator = LessThan, sp_version = Full (plain_full [2])\<rparr>,
    \<lparr>sp_operator = EqualStar, sp_version = Full (plain_full [1, 4])\<rparr>]"
  have "list_all (\<lambda>sp. valid_specifier sp \<and> parsed_version (sp_version sp)) ?sps" by code_simp
  moreover have "show_specifiers ?sps = ''<2, ==1.4.*''" "map sp_operator (from_unsorted ?sps) = [EqualStar, LessThan]"
    by code_simp+
  ultimately show ?thesis using specifiers_roundtrip [OF text_scanner_laws, of ?sps] by auto
qed



text \<open>
  C18. The compatible-release operator has the meaning PEP 440 gives it: \<open>~=V.N\<close> accepts the same
  versions as \<open>>=V.N, ==V.*\<close>, also with an epoch and with pre-, post- and dev-releases in \<open>V.N\<close>.
\<close>

theorem tilde_expands:
  assumes "valid_specifier sp" "sp_operator sp = TildeEqual" "public_version v"
    "version_new (butlast (v_release (sp_version sp))) = Some prefix"
  shows "sp_contains sp v = specifiers_contains [greater_than_equal_version (sp_version sp),
    equals_star_version (with_epoch (v_epoch (sp_version sp)) prefix)] v"
proof -
  let ?t = "sp_version sp" and ?p = "with_epoch (v_epoch (sp_version sp)) prefix"
  have pub: "public_version ?t" using assms(1) by (simp add: valid_specifier_def)
  have loc: "v_local ?t = Segments []" using valid_no_local [OF assms(1)] assms(2) by (simp add: is_local_compatible_def)
  have ne: "butlast (v_release ?t) \<noteq> []" using assms(4) version_new_full(1) by auto
  have p: "wf_version ?p" "make_full ?p = (plain_full (butlast (v_release ?t)))\<lparr>full_epoch := v_epoch ?t\<rparr>"
    using version_new_full(2) [OF ne] assms(4) by (auto simp: setters_wf setters_full)
  have "list_all (\<lambda>n. n < u64_MAX) (butlast (v_release ?t))"
    using pub in_set_butlastD by (fastforce simp: public_version_def list_all_iff)
  then have "public_version ?p"
    using p ne pub by (simp add: public_version_full public_full_def plain_full_def v_fields)
  then have star: "valid_specifier (equals_star_version ?p)" and ge: "valid_specifier (greater_than_equal_version ?t)"
    using p(2) pub loc
    by (simp_all add: valid_specifier_def equals_star_version_def greater_than_equal_version_def is_star_def is_local_def
        v_fields plain_full_def)
  have "v_epoch ?p = v_epoch ?t" "v_release ?p = butlast (v_release ?t)"
    using p(2) by (simp_all add: v_fields plain_full_def)
  then show ?thesis
    using contains_tilde [OF assms(1-3)] contains_star [OF star _ assms(3)] contains_ordered(2) [OF ge assms(3)]
    by (auto simp: equals_star_version_def greater_than_equal_version_def is_star_def split: bool.splits)
qed

theorem tilde_expands_witness:
  "sp_contains \<lparr>sp_operator = TildeEqual, sp_version = Full ((plain_full [2, 2])\<lparr>full_post := Some 3\<rparr>)\<rparr> (Full (plain_full [2, 3])) = Some True"
proof -
  let ?sp = "\<lparr>sp_operator = TildeEqual, sp_version = Full ((plain_full [2, 2])\<lparr>full_post := Some 3\<rparr>)\<rparr>"
  let ?p = "Small \<lparr>repr = 0x0002000000500000, len = 1\<rparr>" and ?v = "Full (plain_full [2, 3])"
  have "valid_specifier ?sp" "public_version ?v" "version_new (butlast (v_release (sp_version ?sp))) = Some ?p" by code_simp+
  moreover have "specifiers_contains [greater_than_equal_version (sp_version ?sp),
      equals_star_version (with_epoch (v_epoch (sp_version ?sp)) ?p)] ?v = Some True" by code_simp
  ultimately show ?thesis using tilde_expands [of ?sp ?v ?p] by simp
qed

text \<open>
  C19. Membership respects equality: versions that compare equal are accepted by the same specifiers, and
  specifiers that compare equal, other than those with a wildcard, accept the same versions. \<open>Ord\<close> and
  \<open>Hash\<close> of specifiers agree with their equality.
\<close>

theorem contains_respects_equality:
  assumes "valid_specifier a" "valid_specifier b" "public_version v" "public_version w"
  shows "(version_eq v w \<longrightarrow> sp_contains a v = sp_contains a w) \<and>
    (sp_eq a b \<longrightarrow> \<not> is_star (sp_operator a) \<longrightarrow> sp_contains a v = sp_contains b v) \<and>
    (sp_cmp a b = EQ \<longleftrightarrow> sp_eq a b) \<and> (sp_eq a b \<longrightarrow> sp_hash a = sp_hash b)"
proof -
  have pub: "public_version (sp_version a)" "public_version (sp_version b)"
    using assms(1,2) by (simp_all add: valid_specifier_def)
  have "sp_eq a b \<Longrightarrow> sp_hash a = sp_hash b"
    using version_eq_hash [OF pub] by (auto simp: sp_eq_def sp_hash_def split: if_splits)
  then show ?thesis
    using contains_candidate_cong [OF assms(1,3,4)] contains_specifier_cong [OF assms(1,2,3)]
      sp_cmp_EQ [OF pub [THEN public_ok]] by blast
qed

theorem contains_respects_equality_witness:
  "sp_contains \<lparr>sp_operator = LessThan, sp_version = Full (plain_full [2, 0])\<rparr> (Full (plain_full [1, 9])) =
   sp_contains \<lparr>sp_operator = LessThan, sp_version = Full (plain_full [2])\<rparr> (Full (plain_full [1, 9]))"
proof -
  let ?a = "\<lparr>sp_operator = LessThan, sp_version = Full (plain_full [2, 0])\<rparr>"
  let ?b = "\<lparr>sp_operator = LessThan, sp_version = Full (plain_full [2])\<rparr>"
  have "valid_specifier ?a" "valid_specifier ?b" "public_version (Full (plain_full [1, 9]))" "sp_eq ?a ?b"
    "\<not> is_star (sp_operator ?a)" by code_simp+
  then show ?thesis using contains_respects_equality by blast
qed


end
