(* ===== verification/VersionRanges.thy ===== *)
theory VersionRanges
  imports VersionContains
begin

text \<open>
  Ranges of versions: \<open>crates/uv-pep440/src/version_ranges.rs\<close>, the conversion of specifiers to the
  \<open>Ranges\<close> that the resolver computes with, the canonical form of ranges with sentinel bounds, and lower
  and upper bounds.

  The set type \<open>Ranges\<close> comes from the crate \<open>version-ranges\<close>; it is the parameter \<open>ranges\<close> here, and
  \<open>ranges_laws\<close> states what its documentation promises about membership.
\<close>

section \<open>The range type\<close>

record 'r ranges =
  r_full :: 'r
  r_singleton :: "version \<Rightarrow> 'r"
  r_between :: "version \<Rightarrow> version \<Rightarrow> 'r"
  r_from_range :: "version \<Rightarrow> version \<Rightarrow> 'r"
  r_lower_than :: "version \<Rightarrow> 'r"
  r_strictly_lower_than :: "version \<Rightarrow> 'r"
  r_higher_than :: "version \<Rightarrow> 'r"
  r_strictly_higher_than :: "version \<Rightarrow> 'r"
  r_complement :: "'r \<Rightarrow> 'r"
  r_intersection :: "'r \<Rightarrow> 'r \<Rightarrow> 'r"
  r_contains :: "'r \<Rightarrow> version \<Rightarrow> bool"

text \<open>
  \<open>r_from_range a b\<close> is \<open>from_range_bounds(a..b)\<close>. The predicate \<open>R_ok\<close> holds of the ranges whose bounds
  are versions on which the order of versions is total (\<open>ok_version\<close>).
\<close>

definition ranges_laws :: "'r ranges \<Rightarrow> ('r \<Rightarrow> bool) \<Rightarrow> bool" where
  "ranges_laws R R_ok \<longleftrightarrow>
     R_ok (r_full R) \<and>
     (\<forall>a. ok_version a \<longrightarrow> R_ok (r_singleton R a) \<and> R_ok (r_lower_than R a) \<and> R_ok (r_strictly_lower_than R a) \<and>
        R_ok (r_higher_than R a) \<and> R_ok (r_strictly_higher_than R a)) \<and>
     (\<forall>a b. ok_version a \<longrightarrow> ok_version b \<longrightarrow> R_ok (r_between R a b) \<and> R_ok (r_from_range R a b)) \<and>
     (\<forall>r. R_ok r \<longrightarrow> R_ok (r_complement R r)) \<and>
     (\<forall>r s. R_ok r \<longrightarrow> R_ok s \<longrightarrow> R_ok (r_intersection R r s)) \<and>
     (\<forall>v. ok_version v \<longrightarrow>
        r_contains R (r_full R) v \<and>
        (\<forall>a. ok_version a \<longrightarrow>
           (r_contains R (r_singleton R a) v \<longleftrightarrow> version_eq v a) \<and>
           (r_contains R (r_lower_than R a) v \<longleftrightarrow> version_le v a) \<and>
           (r_contains R (r_strictly_lower_than R a) v \<longleftrightarrow> version_less v a) \<and>
           (r_contains R (r_higher_than R a) v \<longleftrightarrow> version_le a v) \<and>
           (r_contains R (r_strictly_higher_than R a) v \<longleftrightarrow> version_less a v)) \<and>
        (\<forall>a b. ok_version a \<longrightarrow> ok_version b \<longrightarrow>
           (r_contains R (r_between R a b) v \<longleftrightarrow> version_le a v \<and> version_less v b) \<and>
           (r_contains R (r_from_range R a b) v \<longleftrightarrow> version_le a v \<and> version_less v b)) \<and>
        (\<forall>r. R_ok r \<longrightarrow> (r_contains R (r_complement R r) v \<longleftrightarrow> \<not> r_contains R r v)) \<and>
        (\<forall>r s. R_ok r \<longrightarrow> R_ok s \<longrightarrow>
           (r_contains R (r_intersection R r s) v \<longleftrightarrow> r_contains R r v \<and> r_contains R s v)))"

section \<open>Specifiers as ranges\<close>

text \<open>The upper end of the range of \<open>==V.*\<close>, for the lower end \<open>low\<close>; \<open>None\<close> is the panic on an empty release.\<close>

definition star_high :: "version \<Rightarrow> version option" where
  "star_high low =
     (case v_post low of
        Some post \<Rightarrow> Some (with_post (Some (post + 1)) low)
      | None \<Rightarrow>
          (case v_pre low of
             Some pre \<Rightarrow> Some (with_pre (Some \<lparr>kind = kind pre, number = number pre + 1\<rparr>) low)
           | None \<Rightarrow>
               if v_release low = [] then None
               else with_release low (butlast (v_release low) @ [last (v_release low) + 1])))"

text \<open>The upper end of the range of \<open>~=V\<close>: \<open>None\<close> when the release has fewer than two segments.\<close>

definition tilde_upper :: "u64 list \<Rightarrow> version option" where
  "tilde_upper release =
     (case rev release of
        _ # lst # rest \<Rightarrow> version_new (rev rest @ [lst + 1])
      | _ \<Rightarrow> None)"

definition range_of_equal :: "'r ranges \<Rightarrow> version \<Rightarrow> 'r option" where
  "range_of_equal R v =
     (case v_local v of
        Segments [] \<Rightarrow> Some (r_between R v (with_local Max v))
      | Segments _ \<Rightarrow> Some (r_singleton R v)
      | Max \<Rightarrow> None)"

definition range_of_specifier :: "'r ranges \<Rightarrow> specifier \<Rightarrow> 'r option" where
  "range_of_specifier R sp =
     (let v = sp_version sp in
      case sp_operator sp of
        Equal \<Rightarrow> range_of_equal R v
      | ExactEqual \<Rightarrow> Some (r_singleton R v)
      | NotEqual \<Rightarrow> map_option (r_complement R) (range_of_equal R v)
      | TildeEqual \<Rightarrow>
          map_option (\<lambda>upper. r_from_range R v (with_dev (Some 0) (with_epoch (v_epoch v) upper)))
            (tilde_upper (v_release v))
      | LessThan \<Rightarrow>
          Some (if any_prerelease v then r_strictly_lower_than R v
                else if is_post v then r_strictly_lower_than R (with_dev (Some 0) v)
                else r_strictly_lower_than R (with_min (Some 0) v))
      | LessThanEqual \<Rightarrow> Some (r_lower_than R (with_local Max v))
      | GreaterThan \<Rightarrow>
          Some (case v_dev v of
                  Some dev \<Rightarrow> r_higher_than R (with_dev (Some (dev + 1)) v)
                | None \<Rightarrow>
                    if is_post v then r_strictly_higher_than R (with_local Max v)
                    else r_strictly_higher_than R (with_max (Some 0) v))
      | GreaterThanEqual \<Rightarrow> Some (r_higher_than R v)
      | EqualStar \<Rightarrow>
          (let low = with_dev (Some 0) v in map_option (r_from_range R low) (star_high low))
      | NotEqualStar \<Rightarrow>
          (let low = with_dev (Some 0) v in
           map_option (\<lambda>high. r_complement R (r_from_range R low high)) (star_high low)))"

fun intersect_specifiers :: "'r ranges \<Rightarrow> 'r \<Rightarrow> specifier list \<Rightarrow> 'r option" where
  "intersect_specifiers R rng [] = Some rng"
| "intersect_specifiers R rng (sp # sps) =
     Option.bind (range_of_specifier R sp) (\<lambda>r. intersect_specifiers R (r_intersection R rng r) sps)"

definition range_of_specifiers :: "'r ranges \<Rightarrow> specifiers \<Rightarrow> 'r option" where
  "range_of_specifiers R sps = intersect_specifiers R (r_full R) sps"

section \<open>Release-only semantics\<close>

definition release_star_high :: "version \<Rightarrow> version option" where
  "release_star_high v =
     Option.bind (only_release v) (\<lambda>low_full.
       if v_release low_full = [] then None
       else with_release low_full (butlast (v_release low_full) @ [last (v_release low_full) + 1]))"

definition release_specifier_to_range :: "'r ranges \<Rightarrow> specifier \<Rightarrow> bool \<Rightarrow> 'r option" where
  "release_specifier_to_range R sp trim =
     (let v = sp_version sp in
      Option.bind (if trim then only_release_trimmed v else only_release v) (\<lambda>version_trimmed.
        case sp_operator sp of
          Equal \<Rightarrow> Some (r_singleton R version_trimmed)
        | ExactEqual \<Rightarrow> Some (r_singleton R version_trimmed)
        | NotEqual \<Rightarrow> Some (r_complement R (r_singleton R version_trimmed))
        | LessThan \<Rightarrow> Some (r_strictly_lower_than R version_trimmed)
        | LessThanEqual \<Rightarrow> Some (r_lower_than R version_trimmed)
        | GreaterThan \<Rightarrow> Some (r_strictly_higher_than R version_trimmed)
        | GreaterThanEqual \<Rightarrow> Some (r_higher_than R version_trimmed)
        | TildeEqual \<Rightarrow> map_option (r_from_range R version_trimmed) (tilde_upper (v_release v))
        | EqualStar \<Rightarrow> map_option (r_from_range R v) (release_star_high v)
        | NotEqualStar \<Rightarrow>
            map_option (\<lambda>high. r_complement R (r_from_range R v high)) (release_star_high v)))"

fun intersect_release :: "'r ranges \<Rightarrow> 'r \<Rightarrow> specifier list \<Rightarrow> 'r option" where
  "intersect_release R rng [] = Some rng"
| "intersect_release R rng (sp # sps) =
     Option.bind (release_specifier_to_range R sp False) (\<lambda>r.
       intersect_release R (r_intersection R rng r) sps)"

definition release_specifiers_to_ranges :: "'r ranges \<Rightarrow> specifiers \<Rightarrow> 'r option" where
  "release_specifiers_to_ranges R sps = intersect_release R (r_full R) sps"

section \<open>Lower and upper bounds\<close>

fun bound_map :: "(version \<Rightarrow> version option) \<Rightarrow> version bound \<Rightarrow> version bound option" where
  "bound_map f (Included v) = map_option Included (f v)"
| "bound_map f (Excluded v) = map_option Excluded (f v)"
| "bound_map f Unbounded = Some Unbounded"

definition lower_bound_new :: "version bound \<Rightarrow> version bound option" where
  "lower_bound_new bound = bound_map only_release_trimmed bound"

fun lower_major_minor :: "version bound \<Rightarrow> version bound option" where
  "lower_major_minor (Included v) = map_option Included (version_new (take 2 (v_release v)))"
| "lower_major_minor (Excluded v) = map_option Included (version_new (take 2 (v_release v)))"
| "lower_major_minor Unbounded = Some Unbounded"

fun lower_contains :: "version bound \<Rightarrow> version \<Rightarrow> bool" where
  "lower_contains (Included bound) v = version_le bound v"
| "lower_contains (Excluded bound) v = version_less bound v"
| "lower_contains Unbounded v = True"

fun lower_specifier :: "version bound \<Rightarrow> specifier option" where
  "lower_specifier (Included v) = Some (greater_than_equal_version v)"
| "lower_specifier (Excluded v) = Some (greater_than_version v)"
| "lower_specifier Unbounded = None"

fun lower_cmp :: "version bound \<Rightarrow> version bound \<Rightarrow> ordering" where
  "lower_cmp Unbounded Unbounded = EQ"
| "lower_cmp (Included l) Unbounded = GT"
| "lower_cmp (Excluded l) Unbounded = GT"
| "lower_cmp Unbounded (Included r) = LT"
| "lower_cmp (Included l) (Included r) = version_cmp l r"
| "lower_cmp (Excluded l) (Included r) = (case version_cmp l r of LT \<Rightarrow> LT | EQ \<Rightarrow> GT | GT \<Rightarrow> GT)"
| "lower_cmp Unbounded (Excluded r) = LT"
| "lower_cmp (Included l) (Excluded r) = (case version_cmp l r of LT \<Rightarrow> LT | EQ \<Rightarrow> LT | GT \<Rightarrow> GT)"
| "lower_cmp (Excluded l) (Excluded r) = version_cmp l r"

definition upper_bound_new :: "version bound \<Rightarrow> version bound option" where
  "upper_bound_new bound = bound_map only_release_trimmed bound"

fun upper_major_minor :: "version bound \<Rightarrow> version bound option" where
  "upper_major_minor (Included v) = map_option Included (version_new (take 2 (v_release v)))"
| "upper_major_minor (Excluded v) =
     (if 2 < length (v_release v) \<and> 0 < v_release v ! 2
      then map_option Included (version_new (take 2 (v_release v)))
      else map_option Excluded (version_new (take 2 (v_release v))))"
| "upper_major_minor Unbounded = Some Unbounded"

fun upper_contains :: "version bound \<Rightarrow> version \<Rightarrow> bool" where
  "upper_contains (Included bound) v = version_le v bound"
| "upper_contains (Excluded bound) v = version_less v bound"
| "upper_contains Unbounded v = True"

fun upper_specifier :: "version bound \<Rightarrow> specifier option" where
  "upper_specifier (Included v) = Some (less_than_equal_version v)"
| "upper_specifier (Excluded v) = Some (less_than_version v)"
| "upper_specifier Unbounded = None"

fun upper_cmp :: "version bound \<Rightarrow> version bound \<Rightarrow> ordering" where
  "upper_cmp Unbounded Unbounded = EQ"
| "upper_cmp (Included l) Unbounded = LT"
| "upper_cmp (Excluded l) Unbounded = LT"
| "upper_cmp Unbounded (Included r) = GT"
| "upper_cmp (Included l) (Included r) = version_cmp l r"
| "upper_cmp (Excluded l) (Included r) = (case version_cmp l r of LT \<Rightarrow> LT | EQ \<Rightarrow> LT | GT \<Rightarrow> GT)"
| "upper_cmp Unbounded (Excluded r) = GT"
| "upper_cmp (Included l) (Excluded r) = (case version_cmp l r of LT \<Rightarrow> LT | EQ \<Rightarrow> GT | GT \<Rightarrow> GT)"
| "upper_cmp (Excluded l) (Excluded r) = version_cmp l r"

section \<open>Sentinel bounds\<close>

text \<open>
  A range as its segments: those that \<open>iter\<close> yields, and the ones that \<open>collect\<close> is documented to form
  the union of.
\<close>

record 'r range_segments =
  s_iter :: "'r \<Rightarrow> (version bound \<times> version bound) list"
  s_collect :: "(version bound \<times> version bound) list \<Rightarrow> 'r"
  s_is_empty :: "'r \<Rightarrow> bool"
  s_contains :: "'r \<Rightarrow> version \<Rightarrow> bool"

definition segment_contains :: "version bound \<times> version bound \<Rightarrow> version \<Rightarrow> bool" where
  "segment_contains sg v \<longleftrightarrow> lower_contains (fst sg) v \<and> upper_contains (snd sg) v"

definition ok_bound :: "version bound \<Rightarrow> bool" where
  "ok_bound b \<longleftrightarrow> (case b of Included v \<Rightarrow> ok_version v | Excluded v \<Rightarrow> ok_version v | Unbounded \<Rightarrow> True)"

definition segments_laws :: "'r range_segments \<Rightarrow> bool" where
  "segments_laws G \<longleftrightarrow>
     (\<forall>r v. ok_version v \<longrightarrow> list_all (\<lambda>(lo, hi). ok_bound lo \<and> ok_bound hi) (s_iter G r) \<longrightarrow>
        (s_contains G r v \<longleftrightarrow> list_ex (\<lambda>sg. segment_contains sg v) (s_iter G r))) \<and>
     (\<forall>segs v. ok_version v \<longrightarrow> list_all (\<lambda>(lo, hi). ok_bound lo \<and> ok_bound hi) segs \<longrightarrow>
        (s_contains G (s_collect G segs) v \<longleftrightarrow> list_ex (\<lambda>sg. segment_contains sg v) segs))"

definition PEP440_MIN_VERSION :: version where
  "PEP440_MIN_VERSION = with_dev (Some 0) (the (version_new [0]))"

definition strip_segment :: "version bound \<times> version bound \<Rightarrow> version bound \<times> version bound" where
  "strip_segment sg =
     (let lower_is_included = (case fst sg of Included _ \<Rightarrow> True | _ \<Rightarrow> False);
          lower = (case fst sg of
                     Included v \<Rightarrow> if v_local v = Max then Excluded (without_local v) else Included v
                   | Excluded v \<Rightarrow> if v_local v = Max then Excluded (without_local v) else Excluded v
                   | Unbounded \<Rightarrow> Unbounded);
          upper = (case snd sg of
                     Included v \<Rightarrow> if v_local v = Max then Included (without_local v) else Included v
                   | Excluded v \<Rightarrow>
                       if v_local v = Max then
                         if lower_is_included then Included (without_local v) else Excluded (without_local v)
                       else Excluded v
                   | Unbounded \<Rightarrow> Unbounded)
      in (lower, upper))"

definition strip_local_version_sentinels :: "'r range_segments \<Rightarrow> 'r \<Rightarrow> 'r" where
  "strip_local_version_sentinels G rng = s_collect G (map strip_segment (s_iter G rng))"

definition sentinel_successor :: "version \<Rightarrow> version option" where
  "sentinel_successor v =
     (if v_local v = Max then
        let v = without_local v in
        case v_dev v of
          Some dev \<Rightarrow> map_option (\<lambda>n. with_dev (Some n) v) (checked_add dev 1)
        | None \<Rightarrow>
            (case v_post v of
               Some post \<Rightarrow> map_option (\<lambda>n. with_dev (Some 0) (with_post (Some n) v)) (checked_add post 1)
             | None \<Rightarrow> Some (with_dev (Some 0) (with_post (Some 0) v)))
      else if v_min v \<noteq> None then Some (with_dev (Some 0) (with_min None v))
      else
        case (v_max v, v_pre v) of
          (Some _, Some prerelease) \<Rightarrow>
            map_option (\<lambda>n. with_dev (Some 0) (with_pre (Some \<lparr>kind = kind prerelease, number = n\<rparr>) (with_max None v)))
              (checked_add (number prerelease) 1)
        | _ \<Rightarrow> None)"

fun lower_bound_needs_canonicalization :: "version bound \<Rightarrow> bool" where
  "lower_bound_needs_canonicalization (Included v) \<longleftrightarrow> version_le v PEP440_MIN_VERSION \<or> sentinel_successor v \<noteq> None"
| "lower_bound_needs_canonicalization (Excluded v) \<longleftrightarrow> version_less v PEP440_MIN_VERSION \<or> sentinel_successor v \<noteq> None"
| "lower_bound_needs_canonicalization Unbounded \<longleftrightarrow> False"

fun upper_bound_needs_canonicalization :: "version bound \<Rightarrow> bool" where
  "upper_bound_needs_canonicalization (Included v) \<longleftrightarrow> version_less v PEP440_MIN_VERSION \<or> sentinel_successor v \<noteq> None"
| "upper_bound_needs_canonicalization (Excluded v) \<longleftrightarrow> version_le v PEP440_MIN_VERSION \<or> sentinel_successor v \<noteq> None"
| "upper_bound_needs_canonicalization Unbounded \<longleftrightarrow> False"

fun canonicalize_lower_bound :: "version bound \<Rightarrow> version bound" where
  "canonicalize_lower_bound (Included v) = (case sentinel_successor v of Some s \<Rightarrow> Included s | None \<Rightarrow> Included v)"
| "canonicalize_lower_bound (Excluded v) = (case sentinel_successor v of Some s \<Rightarrow> Included s | None \<Rightarrow> Excluded v)"
| "canonicalize_lower_bound Unbounded = Unbounded"

fun canonicalize_upper_bound :: "version bound \<Rightarrow> version bound" where
  "canonicalize_upper_bound (Included v) = (case sentinel_successor v of Some s \<Rightarrow> Excluded s | None \<Rightarrow> Included v)"
| "canonicalize_upper_bound (Excluded v) = (case sentinel_successor v of Some s \<Rightarrow> Excluded s | None \<Rightarrow> Excluded v)"
| "canonicalize_upper_bound Unbounded = Unbounded"

definition canonicalize_segment :: "version bound \<times> version bound \<Rightarrow> (version bound \<times> version bound) option" where
  "canonicalize_segment sg =
     (let lower = canonicalize_lower_bound (fst sg);
          upper = canonicalize_upper_bound (snd sg);
          lower = (case lower of
                     Included v \<Rightarrow> if version_le v PEP440_MIN_VERSION then Unbounded else Included v
                   | Excluded v \<Rightarrow> if version_less v PEP440_MIN_VERSION then Unbounded else Excluded v
                   | Unbounded \<Rightarrow> Unbounded);
          below_floor = (case upper of
                           Included v \<Rightarrow> version_less v PEP440_MIN_VERSION
                         | Excluded v \<Rightarrow> version_le v PEP440_MIN_VERSION
                         | Unbounded \<Rightarrow> False)
      in if \<not> below_floor then Some (lower, upper) else None)"

definition canonicalize_version_ranges :: "'r range_segments \<Rightarrow> 'r \<Rightarrow> 'r option" where
  "canonicalize_version_ranges G rng =
     (if \<not> list_ex (\<lambda>(lower, upper). lower_bound_needs_canonicalization lower \<or>
                                  upper_bound_needs_canonicalization upper) (s_iter G rng)
      then None
      else Some (s_collect G (List.map_filter canonicalize_segment (s_iter G rng))))"

section \<open>Display\<close>

definition show_segment_range :: "version bound \<times> version bound \<Rightarrow> string" where
  "show_segment_range sg =
     (let general =
        (let (has_lower, text) =
           (case fst sg of
              Unbounded \<Rightarrow> (False, [])
            | Included v \<Rightarrow> (True, ''>='' @ show_version v)
            | Excluded v \<Rightarrow> (True, ''>'' @ show_version v))
         in text @
           (case snd sg of
              Unbounded \<Rightarrow> if \<not> has_lower then ''*'' else []
            | Included v \<Rightarrow> (if has_lower then '', '' else []) @ ''<='' @ show_version v
            | Excluded v \<Rightarrow> (if has_lower then '', '' else []) @ ''<'' @ show_version v))
      in case sg of
           (Included lower, Included upper) \<Rightarrow>
             if version_eq lower upper then ''=='' @ show_version lower else general
         | _ \<Rightarrow> general)"

text \<open>The empty set is the three UTF-8 bytes of its symbol.\<close>

definition display_version_ranges :: "'r range_segments \<Rightarrow> 'r \<Rightarrow> string" where
  "display_version_ranges G rng =
     (if s_is_empty G rng then [CHR 0xE2, CHR 0x88, CHR 0x85]
      else case s_iter G rng of
             [] \<Rightarrow> []
           | sg # segs \<Rightarrow> show_segment_range sg @ concat (map (\<lambda>sg. '' | '' @ show_segment_range sg) segs))"

section \<open>Specifiers and their ranges accept the same versions\<close>

declare with_local.simps [simp del]

lemma ranges_membership:
  assumes "ranges_laws R R_ok" "ok_version v"
  shows "r_contains R (r_full R) v"
    "ok_version a \<Longrightarrow> r_contains R (r_singleton R a) v \<longleftrightarrow> version_eq v a"
    "ok_version a \<Longrightarrow> r_contains R (r_lower_than R a) v \<longleftrightarrow> version_le v a"
    "ok_version a \<Longrightarrow> r_contains R (r_strictly_lower_than R a) v \<longleftrightarrow> version_less v a"
    "ok_version a \<Longrightarrow> r_contains R (r_higher_than R a) v \<longleftrightarrow> version_le a v"
    "ok_version a \<Longrightarrow> r_contains R (r_strictly_higher_than R a) v \<longleftrightarrow> version_less a v"
    "ok_version a \<Longrightarrow> ok_version b \<Longrightarrow> r_contains R (r_between R a b) v \<longleftrightarrow> version_le a v \<and> version_less v b"
    "ok_version a \<Longrightarrow> ok_version b \<Longrightarrow> r_contains R (r_from_range R a b) v \<longleftrightarrow> version_le a v \<and> version_less v b"
    "R_ok r \<Longrightarrow> r_contains R (r_complement R r) v \<longleftrightarrow> \<not> r_contains R r v"
    "R_ok r \<Longrightarrow> R_ok s \<Longrightarrow> r_contains R (r_intersection R r s) v \<longleftrightarrow> r_contains R r v \<and> r_contains R s v"
  using assms by (simp_all add: ranges_laws_def)

lemma ranges_ok:
  assumes "ranges_laws R R_ok"
  shows "R_ok (r_full R)"
    "ok_version a \<Longrightarrow> R_ok (r_singleton R a)"
    "ok_version a \<Longrightarrow> R_ok (r_lower_than R a)"
    "ok_version a \<Longrightarrow> R_ok (r_strictly_lower_than R a)"
    "ok_version a \<Longrightarrow> R_ok (r_higher_than R a)"
    "ok_version a \<Longrightarrow> R_ok (r_strictly_higher_than R a)"
    "ok_version a \<Longrightarrow> ok_version b \<Longrightarrow> R_ok (r_between R a b)"
    "ok_version a \<Longrightarrow> ok_version b \<Longrightarrow> R_ok (r_from_range R a b)"
    "R_ok r \<Longrightarrow> R_ok (r_complement R r)"
    "R_ok r \<Longrightarrow> R_ok s \<Longrightarrow> R_ok (r_intersection R r s)"
  using assms by (simp_all add: ranges_laws_def)

text \<open>Comparisons with bounds that have no local part, or the greatest one.\<close>

lemma bound_order:
  assumes "ok_version b" "ok_version w" "full_local (make_full b) = Segments []"
  shows "version_le b w \<longleftrightarrow> full_core (make_full b) \<le> full_core (make_full w)"
    "version_less w b \<longleftrightarrow> full_core (make_full w) < full_core (make_full b)"
  using assms by (auto simp: core_order order_le_less [of "full_core f" for f])

lemma max_local_order:
  assumes "ok_version b" "ok_version w" "full_local (make_full b) = Max" "full_local (make_full w) \<noteq> Max"
  shows "version_le w b \<longleftrightarrow> full_core (make_full w) \<le> full_core (make_full b)"
    "version_less w b \<longleftrightarrow> full_core (make_full w) \<le> full_core (make_full b)"
    "version_less b w \<longleftrightarrow> full_core (make_full b) < full_core (make_full w)"
  using assms by (cases "full_local (make_full w)"; auto simp: core_order order_le_less)+

lemma public_facts:
  assumes "public_version v"
  shows "ok_version v" "wf_version v" "public_full (make_full v)" "full_local (make_full v) \<noteq> Max"
    "full_min (make_full v) = None" "full_max (make_full v) = None"
  using assms by (auto simp: public_ok public_version_full public_full_def)

lemma setters_ok:
  assumes "ok_version v"
  shows "ok_version (with_epoch e v)" "ok_version (with_pre p v)" "ok_version (with_post n v)"
    "ok_version (with_dev n v)" "ok_version (with_min n v)" "ok_version (with_max (Some 0) v)"
    "ok_version (with_local l v)"
  using assms by (simp_all add: ok_version_full setters_wf setters_full)

lemma epoch_release_order:
  "epoch_release f \<le> epoch_release g \<longleftrightarrow>
     full_epoch f < full_epoch g \<or> full_epoch f = full_epoch g \<and> trim_zeros (full_release f) \<le> trim_zeros (full_release g)"
  "epoch_release f < epoch_release g \<longleftrightarrow>
     full_epoch f < full_epoch g \<or> full_epoch f = full_epoch g \<and> trim_zeros (full_release f) < trim_zeros (full_release g)"
  by (auto simp: epoch_release_def)

text \<open>The first dev release of a release bounds all public versions of that release from below.\<close>

lemma dev0_bound:
  assumes "public_full f" "suffix_core t = (1, 0, None, 0)"
  shows "full_core t \<le> full_core f \<longleftrightarrow> epoch_release t \<le> epoch_release f"
    "full_core f < full_core t \<longleftrightarrow> epoch_release f < epoch_release t"
  using dev0_least [OF assms(1)] assms(2) by (auto simp: full_core_cmp order_le_less)

lemma star_interval:
  assumes "full_release t \<noteq> []" "last (full_release t) < u64_MAX"
    "full_epoch h = full_epoch t" "full_release h = bump_last (full_release t)"
  shows "full_epoch t = full_epoch f \<and> star_matches (full_release t) (full_release f) \<longleftrightarrow>
    epoch_release t \<le> epoch_release f \<and> epoch_release f < epoch_release h"
  using assms(3,4) by (auto simp: epoch_release_order star_matches_interval [OF assms(1,2)])

lemma trim_zeros_snoc_le: "trim_zeros p \<le> trim_zeros (p @ [x])"
proof -
  have "\<not> p @ [x] < p @ [0]" by (simp add: append_less_iff)
  then have "\<not> trim_zeros (p @ [x]) < trim_zeros p"
    using trim_zeros_less_padded [of "p @ [x]" "length p + 1" p] by (simp add: zero_padded_def)
  then show ?thesis by (simp add: not_less)
qed


lemma star_high_full:
  assumes "valid_specifier sp" "is_star (sp_operator sp)"
  defines "low \<equiv> with_dev (Some 0) (sp_version sp)"
  shows "\<exists>high. star_high low = Some high \<and> ok_version high \<and>
    make_full high = (make_full (sp_version sp))\<lparr>full_dev := Some 0, full_release := bump_last (v_release (sp_version sp))\<rparr>"
proof -
  have pub: "public_version (sp_version sp)" using assms(1) by (simp add: valid_specifier_def)
  have low: "ok_version low" "wf_version low" "make_full low = (make_full (sp_version sp))\<lparr>full_dev := Some 0\<rparr>"
    using public_facts [OF pub] by (simp_all add: low_def setters_ok setters_wf setters_full)
  have none: "v_post low = None" "v_pre low = None" and rel: "v_release low = v_release (sp_version sp)"
    using assms(1,2) low(3) by (auto simp: valid_specifier_def v_fields)
  have ne: "v_release (sp_version sp) \<noteq> []"
    using public_facts(3) [OF pub] by (simp add: public_full_def v_fields)
  obtain h where h: "with_release low (bump_last (v_release (sp_version sp))) = Some h" "wf_version h"
    "make_full h = (make_full low)\<lparr>full_release := bump_last (v_release (sp_version sp))\<rparr>"
    using with_release_full(2) [OF low(2), of "bump_last (v_release (sp_version sp))"] by (auto simp: bump_last_def)
  then have "ok_version h" using low(1) by (simp add: ok_version_full)
  then show ?thesis using h low(3) none ne by (simp add: star_high_def rel bump_last_def)
qed

lemma plain_dev0_suffix:
  assumes "full_min t = None" "full_max t = None" "full_pre t = None" "full_post t = None" "full_dev t = Some 0"
  shows "suffix_core t = (1, 0, None, 0)"
  using assms by (simp add: suffix_core_public)

lemma star_range_contains:
  assumes "ranges_laws R R_ok" "valid_specifier sp" "is_star (sp_operator sp)" "public_version v"
    "star_high (with_dev (Some 0) (sp_version sp)) = Some high"
  shows "R_ok (r_from_range R (with_dev (Some 0) (sp_version sp)) high) \<and>
    (r_contains R (r_from_range R (with_dev (Some 0) (sp_version sp)) high) v \<longleftrightarrow>
     v_epoch (sp_version sp) = v_epoch v \<and> star_matches (v_release (sp_version sp)) (v_release v))"
proof -
  let ?t = "sp_version sp" and ?T = "make_full (sp_version sp)" and ?low = "with_dev (Some 0) (sp_version sp)"
  have pub: "public_version ?t" using assms(2) by (simp add: valid_specifier_def)
  note t = public_facts [OF pub] and f = public_facts [OF assms(4)]
  have high: "ok_version high" "make_full high = ?T\<lparr>full_dev := Some 0, full_release := bump_last (v_release ?t)\<rparr>"
    using star_high_full [OF assms(2,3)] assms(5) by auto
  have low: "ok_version ?low" "make_full ?low = ?T\<lparr>full_dev := Some 0\<rparr>"
    using t by (simp_all add: setters_ok setters_full)
  have plain: "full_pre ?T = None" "full_post ?T = None" "full_local ?T = Segments []"
    using assms(2,3) valid_no_local [OF assms(2)]
    by (auto simp: valid_specifier_def v_fields is_star_def is_local_compatible_def)
  have rel: "full_release ?T \<noteq> []" "last (full_release ?T) < u64_MAX"
    using t(3) by (auto simp: public_full_def list_all_iff)
  have suffix: "suffix_core (make_full ?low) = (1, 0, None, 0)" "suffix_core (make_full high) = (1, 0, None, 0)"
    using t plain by (simp_all add: low high plain_dev0_suffix)
  have loc: "full_local (make_full ?low) = Segments []" "full_local (make_full high) = Segments []"
    using plain by (simp_all add: low high)
  have er: "epoch_release (make_full ?low) = epoch_release ?T" by (simp add: low)
  have hi: "full_epoch (make_full high) = full_epoch ?T" "full_release (make_full high) = bump_last (full_release ?T)"
    by (simp_all add: high v_fields)
  have "version_le ?low v \<and> version_less v high \<longleftrightarrow>
      full_epoch ?T = full_epoch (make_full v) \<and> star_matches (full_release ?T) (full_release (make_full v))"
    unfolding star_interval [OF rel hi] bound_order [OF low(1) f(1) loc(1)] bound_order [OF high(1) f(1) loc(2)]
      dev0_bound [OF f(3) suffix(1)] dev0_bound [OF f(3) suffix(2)] er by (rule refl)
  then show ?thesis
    using ranges_membership(8) [OF assms(1) f(1) low(1) high(1)] ranges_ok(8) [OF assms(1) low(1) high(1)] by (simp add: v_fields)
qed


lemma tilde_upper_full:
  assumes "2 \<le> length release"
  shows "\<exists>u. tilde_upper release = Some u \<and> ok_version u \<and> make_full u = plain_full (bump_last (butlast release))"
proof -
  obtain p x y where r: "release = p @ [x, y]"
  proof -
    obtain q y where "release = q @ [y]" using assms by (cases release rule: rev_cases) auto
    moreover obtain p x where "q = p @ [x]" using assms calculation by (cases q rule: rev_cases) auto
    ultimately show ?thesis using that by simp
  qed
  obtain u where "version_new (p @ [x + 1]) = Some u" "wf_version u" "make_full u = plain_full (p @ [x + 1])"
    using version_new_full(2) [of "p @ [x + 1]"] by auto
  moreover from this have "ok_version u" by (simp add: ok_version_full plain_full_def)
  moreover have "bump_last (butlast release) = p @ [x + 1]" by (simp add: r bump_last_def butlast_append)
  ultimately show ?thesis by (simp add: tilde_upper_def r)
qed

lemma tilde_range_contains:
  assumes "ranges_laws R R_ok" "valid_specifier sp" "sp_operator sp = TildeEqual" "public_version v"
  shows "\<exists>r. range_of_specifier R sp = Some r \<and> R_ok r \<and> sp_contains sp v = Some (r_contains R r v)"
proof -
  let ?t = "sp_version sp" and ?T = "make_full (sp_version sp)" and ?F = "make_full v"
  have pub: "public_version ?t" using assms(2) by (simp add: valid_specifier_def)
  note t = public_facts [OF pub] and f = public_facts [OF assms(4)]
  have len: "2 \<le> length (full_release ?T)" using assms(2,3) by (simp add: valid_specifier_def v_fields)
  then obtain u where u: "tilde_upper (full_release ?T) = Some u" "ok_version u"
    "make_full u = plain_full (bump_last (butlast (full_release ?T)))"
    using tilde_upper_full by blast
  define h where "h = with_dev (Some 0) (with_epoch (v_epoch ?t) u)"
  have "wf_version u" using u(2) by (simp add: ok_version_full)
  then have h: "ok_version h" "make_full h =
      (plain_full (bump_last (butlast (full_release ?T))))\<lparr>full_epoch := full_epoch ?T, full_dev := Some 0\<rparr>"
    by (simp_all add: h_def setters_ok u(2,3) setters_full setters_wf v_fields)
  have suffix: "suffix_core (make_full h) = (1, 0, None, 0)" "full_local (make_full h) = Segments []"
    by (simp_all add: h plain_dev0_suffix plain_full_def)
  let ?P = "?T\<lparr>full_release := butlast (full_release ?T)\<rparr>"
  have split: "full_release ?T = butlast (full_release ?T) @ [last (full_release ?T)]"
    using len by (cases "full_release ?T" rule: rev_cases) auto
  have p: "full_release ?P \<noteq> []" "last (full_release ?P) < u64_MAX"
  proof -
    show ne: "full_release ?P \<noteq> []" using len by (cases "full_release ?T" rule: rev_cases) auto
    have "last (full_release ?P) \<in> set (full_release ?T)"
      using ne in_set_butlastD [OF last_in_set, of "full_release ?T"] by simp
    then show "last (full_release ?P) < u64_MAX" using t(3) by (auto simp: public_full_def list_all_iff)
  qed
  have hi: "full_epoch (make_full h) = full_epoch ?P" "full_release (make_full h) = bump_last (full_release ?P)"
    by (simp_all add: h plain_full_def)
  have below: "epoch_release ?P \<le> epoch_release ?F" if "full_core ?T \<le> full_core ?F"
  proof -
    have "epoch_release ?P \<le> epoch_release ?T"
      using trim_zeros_snoc_le [of "butlast (full_release ?T)" "last (full_release ?T)"] split
      by (simp add: epoch_release_order)
    also have "epoch_release ?T \<le> epoch_release ?F" using that by (auto simp: full_core_cmp order_le_less)
    finally show ?thesis .
  qed
  have loc: "full_local ?T = Segments []"
    using valid_no_local [OF assms(2)] assms(3) by (simp add: is_local_compatible_def v_fields)
  have "version_le ?t v \<and> version_less v h \<longleftrightarrow>
      full_core ?T \<le> full_core ?F \<and> epoch_release ?F < epoch_release (make_full h)"
    unfolding bound_order [OF t(1) f(1) loc] bound_order [OF h(1) f(1) suffix(2)] dev0_bound [OF f(3) suffix(1)]
    by (rule refl)
  moreover have "v_epoch ?t = v_epoch v \<and> star_matches (butlast (v_release ?t)) (v_release v) \<longleftrightarrow>
      epoch_release ?P \<le> epoch_release ?F \<and> epoch_release ?F < epoch_release (make_full h)"
    using star_interval [OF p hi, of ?F] by (simp add: v_fields)
  ultimately have "sp_contains sp v = Some (version_le ?t v \<and> version_less v h)"
    using below unfolding contains_tilde [OF assms(2-4)] by blast
  moreover have "range_of_specifier R sp = Some (r_from_range R ?t h)"
    using assms(3) u(1) by (simp add: range_of_specifier_def h_def v_fields Let_def)
  ultimately show ?thesis
    using ranges_membership(8) [OF assms(1) f(1) t(1) h(1)] ranges_ok(8) [OF assms(1) t(1) h(1)] by simp
qed


lemma equal_range_contains:
  assumes "ranges_laws R R_ok" "public_version t" "public_version v"
  shows "\<exists>r. range_of_equal R t = Some r \<and> R_ok r \<and>
    r_contains R r v = (if v_local t = Segments [] then full_core (make_full v) = full_core (make_full t)
                        else version_eq v t)"
proof -
  note t = public_facts [OF assms(2)] and f = public_facts [OF assms(3)]
  have hi: "ok_version (with_local Max t)" "make_full (with_local Max t) = (make_full t)\<lparr>full_local := Max\<rparr>"
    using t by (simp_all add: setters_ok setters_full)
  then have mx: "full_local (make_full (with_local Max t)) = Max" by simp
  show ?thesis
  proof (cases "v_local t = Segments []")
    case True
    then have lt: "full_local (make_full t) = Segments []" by (simp add: v_fields)
    have "version_le t v \<and> version_less v (with_local Max t) \<longleftrightarrow> full_core (make_full v) = full_core (make_full t)"
      unfolding bound_order(1) [OF t(1) f(1) lt] max_local_order(2) [OF hi(1) f(1) mx f(4)] hi(2) full_core_local
      by auto
    then show ?thesis
      using True ranges_membership(7) [OF assms(1) f(1) t(1) hi(1)] ranges_ok(7) [OF assms(1) t(1) hi(1)]
      by (simp add: range_of_equal_def)
  next
    case False
    then obtain x xs where "v_local t = Segments (x # xs)"
      using t(4) by (metis local_version.exhaust list.exhaust v_fields(6))
    with False show ?thesis
      using ranges_membership(2) [OF assms(1) f(1) t(1)] ranges_ok(2) [OF assms(1) t(1)]
      by (simp add: range_of_equal_def)
  qed
qed

lemma less_range_contains:
  assumes "ranges_laws R R_ok" "valid_specifier sp" "sp_operator sp = LessThan" "public_version v"
  shows "\<exists>r. range_of_specifier R sp = Some r \<and> R_ok r \<and> sp_contains sp v = Some (r_contains R r v)"
proof -
  let ?t = "sp_version sp" and ?T = "make_full (sp_version sp)"
  have pub: "public_version ?t" using assms(2) by (simp add: valid_specifier_def)
  note t = public_facts [OF pub] and f = public_facts [OF assms(4)]
  define b where "b = (if any_prerelease ?t then ?t else if is_post ?t then with_dev (Some 0) ?t else with_min (Some 0) ?t)"
  have b: "ok_version b" "make_full b = less_bound ?T"
    using t by (simp_all add: b_def less_bound_def setters_ok setters_full any_prerelease_def is_pre_def is_dev_def
        is_post_def v_fields)
  have loc: "full_local (make_full b) = Segments []"
    using valid_no_local [OF assms(2)] assms(3) by (simp add: b less_bound_def is_local_compatible_def v_fields)
  have "range_of_specifier R sp = Some (r_strictly_lower_than R b)"
    using assms(3) by (simp add: range_of_specifier_def b_def Let_def)
  then show ?thesis
    using ranges_membership(4) [OF assms(1) f(1) b(1)] ranges_ok(4) [OF assms(1) b(1)]
    by (simp add: contains_less [OF assms(2-4)] bound_order(2) [OF b(1) f(1) loc] b(2))
qed

lemma max_core_neq:
  assumes "public_full f" "full_min t = None"
  shows "full_core (t\<lparr>full_max := Some 0\<rparr>) \<noteq> full_core f"
proof -
  have "full_post f \<noteq> Some u64_MAX" "full_min f = None" "full_max f = None"
    using assms(1) by (auto simp: public_full_def)
  then have "suffix_core (t\<lparr>full_max := Some 0\<rparr>) \<noteq> suffix_core f"
    using assms(2)
    by (cases "full_pre t"; cases "full_pre f"; cases "full_post f"; cases "full_dev f")
      (auto simp: suffix_core_public suffix_core_max)
  then show ?thesis by (simp add: full_core_eq)
qed

lemma greater_range_contains:
  assumes "ranges_laws R R_ok" "valid_specifier sp" "sp_operator sp = GreaterThan" "public_version v"
  shows "\<exists>r. range_of_specifier R sp = Some r \<and> R_ok r \<and> sp_contains sp v = Some (r_contains R r v)"
proof -
  let ?t = "sp_version sp" and ?T = "make_full (sp_version sp)" and ?F = "make_full v"
  have pub: "public_version ?t" using assms(2) by (simp add: valid_specifier_def)
  note t = public_facts [OF pub] and f = public_facts [OF assms(4)]
  have loc: "full_local ?T = Segments []"
    using valid_no_local [OF assms(2)] assms(3) by (simp add: is_local_compatible_def v_fields)
  have range: "range_of_specifier R sp = Some (case full_dev ?T of
        Some dev \<Rightarrow> r_higher_than R (with_dev (Some (dev + 1)) ?t)
      | None \<Rightarrow> if full_post ?T \<noteq> None then r_strictly_higher_than R (with_local Max ?t)
                else r_strictly_higher_than R (with_max (Some 0) ?t))"
    using assms(3) by (simp add: range_of_specifier_def Let_def is_post_def v_fields del: not_None_eq split: option.splits)
  have ok: "ok_version (with_dev n ?t)" "ok_version (with_local Max ?t)" "ok_version (with_max (Some 0) ?t)" for n
    using t by (simp_all add: setters_ok)
  have "version_le (with_dev n ?t) v \<longleftrightarrow> full_core (?T\<lparr>full_dev := n\<rparr>) \<le> full_core ?F" for n
    using bound_order(1) [OF ok(1) [of n] f(1)] loc t by (simp add: setters_full)
  moreover have "version_less (with_local Max ?t) v \<longleftrightarrow> full_core ?T < full_core ?F"
    using max_local_order(3) [OF ok(2) f(1) _ f(4)] t by (simp add: setters_full)
  moreover have "version_less (with_max (Some 0) ?t) v \<longleftrightarrow> full_core (?T\<lparr>full_max := Some 0\<rparr>) < full_core ?F"
    using core_order(2) [OF ok(3) f(1)] max_core_neq [OF f(3), of ?T] t by (simp add: setters_full)
  ultimately show ?thesis
    unfolding range contains_greater [OF assms(2-4)] greater_accepts_def
    using ranges_membership(5,6) [OF assms(1) f(1)] ranges_ok(5,6) [OF assms(1)] ok
    by (cases "full_dev ?T") auto
qed

lemma range_of_specifier_contains:
  assumes "ranges_laws R R_ok" "valid_specifier sp" "public_version v"
  shows "\<exists>r. range_of_specifier R sp = Some r \<and> R_ok r \<and> sp_contains sp v = Some (r_contains R r v)"
proof -
  let ?t = "sp_version sp"
  have pub: "public_version ?t" using assms(2) by (simp add: valid_specifier_def)
  note t = public_facts [OF pub] and f = public_facts [OF assms(3)]
  have star: ?thesis if op: "is_star (sp_operator sp)"
  proof -
    obtain high where high: "star_high (with_dev (Some 0) ?t) = Some high"
      using star_high_full [OF assms(2) op] by blast
    from star_range_contains [OF assms(1,2) op assms(3) high] contains_star [OF assms(2) op assms(3)] high op
    show ?thesis
      using ranges_membership(9) [OF assms(1) f(1)] ranges_ok(9) [OF assms(1)]
      by (cases "sp_operator sp") (simp_all add: range_of_specifier_def Let_def is_star_def)
  qed
  have equal: ?thesis if op: "sp_operator sp = Equal \<or> sp_operator sp = NotEqual"
  proof -
    obtain r where "range_of_equal R ?t = Some r" "R_ok r"
      "r_contains R r v = (if v_local ?t = Segments [] then full_core (make_full v) = full_core (make_full ?t)
                        else version_eq v ?t)"
      using equal_range_contains [OF assms(1) pub assms(3)] by blast
    then show ?thesis
      using op ranges_membership(9) [OF assms(1) f(1)] ranges_ok(9) [OF assms(1)] contains_equal [OF assms(2) op assms(3)]
      by (elim disjE) (simp_all add: range_of_specifier_def Let_def)
  qed
  show ?thesis
  proof (cases "sp_operator sp")
    case ExactEqual
    have "version_eq ?t v = version_eq v ?t" using t f by (auto simp: core_order)
    with ExactEqual show ?thesis
      using ranges_membership(2) [OF assms(1) f(1) t(1)] ranges_ok(2) [OF assms(1) t(1)]
      by (simp add: range_of_specifier_def contains_exact Let_def)
  next
    case LessThanEqual
    have "ok_version (with_local Max ?t)" using t by (simp add: setters_ok)
    with LessThanEqual show ?thesis
      using ranges_membership(3) [OF assms(1) f(1)] ranges_ok(3) [OF assms(1)] t f
        max_local_order(1) [of "with_local Max ?t" v]
      by (simp add: range_of_specifier_def contains_ordered(1) [OF assms(2,3)] setters_full Let_def)
  next
    case GreaterThanEqual
    have "full_local (make_full ?t) = Segments []"
      using valid_no_local [OF assms(2)] GreaterThanEqual by (simp add: is_local_compatible_def v_fields)
    with GreaterThanEqual show ?thesis
      using ranges_membership(5) [OF assms(1) f(1) t(1)] ranges_ok(5) [OF assms(1) t(1)] bound_order(1) [OF t(1) f(1)]
      by (simp add: range_of_specifier_def contains_ordered(2) [OF assms(2,3)] Let_def)
  qed (use star equal less_range_contains [OF assms(1,2) _ assms(3)] greater_range_contains [OF assms(1,2) _ assms(3)]
      tilde_range_contains [OF assms(1,2) _ assms(3)] in \<open>simp_all add: is_star_def\<close>)
qed

section \<open>Canonical forms keep membership\<close>

text \<open>
  The versions that occur as bounds of the ranges built above: public versions, and the three kinds of
  sentinels derived from them.
\<close>

definition known_bound :: "version \<Rightarrow> bool" where
  "known_bound b \<longleftrightarrow>
     wf_version b \<and>
     (let f = make_full b in
      if full_local f = Max then public_full (f\<lparr>full_local := Segments []\<rparr>)
      else if full_min f \<noteq> None
      then full_pre f = None \<and> full_post f = None \<and> full_dev f = None \<and> full_max f = None \<and>
           full_local f = Segments []
      else if full_max f \<noteq> None
      then full_max f = Some 0 \<and> full_post f = None \<and> full_dev f = None \<and> full_local f = Segments [] \<and>
           pred_option (\<lambda>p. number p < u64_MAX) (full_pre f)
      else public_full f)"

lemma known_bound_ok: "known_bound b \<Longrightarrow> ok_version b"
  by (auto simp: known_bound_def ok_version_full public_full_def Let_def split: if_splits)

lemma checked_succ: "n < u64_MAX \<Longrightarrow> checked_add n 1 = Some (n + 1)"
  using u64_less_succ [of n] by (simp add: checked_add_code less_imp_le)

lemma u64_neq_MAX: "n \<noteq> u64_MAX \<Longrightarrow> n < u64_MAX"
  using u64_MAX_greatest(1) [of n] by (simp only: order_le_less) blast

text \<open>On suffixes: the entry after a boundary, position by position.\<close>

lemma suffix_post_succ:
  assumes "full_min t = None" "full_max t = None" "full_dev t = None" "full_post t = Some n" "n < u64_MAX"
  shows "s < suffix_core (t\<lparr>full_post := Some (n + 1), full_dev := Some 0\<rparr>) \<longleftrightarrow> s \<le> suffix_core t"
proof -
  obtain a b c d where s: "s = (a, b, c, d)" by (cases s)
  show ?thesis
    using assms by (cases "full_pre t"; cases c)
      (auto simp: suffix_core_public unwrap_or_def s u64_less_succ_iff order_le_less intro: u64_neq_MAX)
qed

lemma suffix_post_first:
  assumes "public_full f" "full_min t = None" "full_max t = None" "full_dev t = None" "full_post t = None"
  shows "suffix_core f < suffix_core (t\<lparr>full_post := Some 0, full_dev := Some 0\<rparr>) \<longleftrightarrow> suffix_core f \<le> suffix_core t"
proof -
  have f: "full_min f = None" "full_max f = None" using assms(1) by (simp_all add: public_full_def)
  show ?thesis
    using f assms(2-)
    by (cases "full_pre f"; cases "full_post f"; cases "full_dev f"; cases "full_pre t")
      (auto simp: suffix_core_public unwrap_or_def)
qed

lemma suffix_pre_succ:
  assumes "public_full f" "full_min t = None" "full_max t = Some m" "full_pre t = Some p" "number p < u64_MAX"
    "full_post t = None" "full_dev t = None"
  shows "suffix_core f < suffix_core (t\<lparr>full_max := None, full_pre := Some \<lparr>kind = kind p, number = number p + 1\<rparr>,
      full_dev := Some 0\<rparr>) \<longleftrightarrow> suffix_core f \<le> suffix_core t"
proof -
  have f: "full_min f = None" "full_max f = None" "full_post f \<noteq> Some u64_MAX"
    using assms(1) by (auto simp: public_full_def)
  show ?thesis
    using f assms(2-)
    by (cases "full_pre f"; cases "full_post f"; cases "full_dev f")
      (auto simp: suffix_core_public suffix_core_max unwrap_or_def u64_less_succ_iff order_le_less intro: u64_neq_MAX)
qed


lemma dev_successor:
  assumes "full_min t = None" "full_max t = None" "full_dev t = Some n" "n < u64_MAX"
  shows "full_core f < full_core (t\<lparr>full_dev := Some (n + 1)\<rparr>) \<longleftrightarrow> full_core f \<le> full_core t"
  using suffix_dev_succ [OF assms] by (simp add: full_core_cmp)

lemma local_successor:
  assumes "public_full f" "full_min t = None" "full_max t = None" "full_dev t = None" "pred_option (\<lambda>n. n < u64_MAX) (full_post t)"
  shows "full_core f < full_core (t\<lparr>full_post := Some (case full_post t of Some n \<Rightarrow> n + 1 | None \<Rightarrow> 0), full_dev := Some 0\<rparr>) \<longleftrightarrow>
    full_core f \<le> full_core t"
  using suffix_post_first [OF assms(1-4)] suffix_post_succ [OF assms(2-4)] assms(5)
  by (cases "full_post t") (simp_all add: full_core_cmp)

lemma min_successor:
  assumes "public_full f" "full_min t = Some n" "full_max t = None" "full_pre t = None" "full_post t = None"
  shows "full_core f < full_core (t\<lparr>full_min := None, full_dev := Some 0\<rparr>) \<longleftrightarrow> full_core f \<le> full_core t"
proof -
  have "(1, 0, None, 0) \<le> suffix_core f" by (rule dev0_least [OF assms(1)])
  moreover have "suffix_core t = (0, 0, None, n)" using assms by (simp add: suffix_core_min)
  moreover have "suffix_core (t\<lparr>full_min := None, full_dev := Some 0\<rparr>) = (1, 0, None, 0)"
    using assms by (simp add: plain_dev0_suffix)
  ultimately show ?thesis by (cases "suffix_core f") (auto simp: full_core_cmp)
qed

lemma max_successor:
  assumes "public_full f" "full_min t = None" "full_max t = Some m" "full_pre t = Some p" "number p < u64_MAX"
    "full_post t = None" "full_dev t = None"
  shows "full_core f < full_core (t\<lparr>full_max := None, full_pre := Some \<lparr>kind = kind p, number = number p + 1\<rparr>,
      full_dev := Some 0\<rparr>) \<longleftrightarrow> full_core f \<le> full_core t"
  using suffix_pre_succ [OF assms] by (simp add: full_core_cmp)

text \<open>
  The least public version above a sentinel: a public version is below the successor exactly when it is
  below the sentinel, and no public version equals the sentinel.
\<close>

lemma sentinel_successor_least:
  assumes "known_bound b" "sentinel_successor b = Some s" "public_version v"
  shows "ok_version s" "version_less v s \<longleftrightarrow> version_less v b" "version_le v b \<longleftrightarrow> version_less v b"
proof -
  let ?B = "make_full b" and ?F = "make_full v"
  note f = public_facts [OF assms(3)]
  have b: "ok_version b" "wf_version b" using assms(1) known_bound_ok by (auto simp: known_bound_def)
  have key: "ok_version s \<and> full_local (make_full s) = Segments [] \<and>
      (full_core ?F < full_core (make_full s) \<longleftrightarrow> full_core ?F \<le> full_core ?B) \<and>
      (full_local ?B = Max \<or> full_core ?F \<noteq> full_core ?B)"
  proof (cases "full_local ?B = Max")
    case True
    then have pub: "public_full (?B\<lparr>full_local := Segments []\<rparr>)" using assms(1) by (simp add: known_bound_def Let_def)
    have w: "wf_version (without_local b)" "make_full (without_local b) = ?B\<lparr>full_local := Segments []\<rparr>"
      "ok_version (without_local b)"
      using without_local_full [OF b(2)] pub by (auto simp: ok_version_full public_full_def)
    show ?thesis
    proof (cases "full_dev ?B")
      case (Some n)
      then have n: "n < u64_MAX" using pub by (simp add: public_full_def)
      then have s: "s = with_dev (Some (n + 1)) (without_local b)"
        using assms(2) True Some by (simp add: sentinel_successor_def v_fields w Let_def checked_succ)
      show ?thesis
        using dev_successor [of "?B\<lparr>full_local := Segments []\<rparr>" n ?F] pub Some n True w(1,3)
        by (simp add: s setters_ok setters_full w(2) public_full_def)
    next
      case None
      have s: "s = with_dev (Some 0) (with_post (Some (case full_post ?B of Some n \<Rightarrow> n + 1 | None \<Rightarrow> 0)) (without_local b))"
        using assms(2) True None pub
        by (cases "full_post ?B") (simp_all add: sentinel_successor_def v_fields w Let_def checked_succ public_full_def)
      show ?thesis
        using local_successor [OF f(3), of "?B\<lparr>full_local := Segments []\<rparr>"] pub None True w(1,3)
        by (simp add: s setters_ok setters_full setters_wf w(2) public_full_def)
    qed
  next
    case False
    show ?thesis
    proof (cases "full_min ?B")
      case (Some n)
      then have k: "full_pre ?B = None" "full_post ?B = None" "full_dev ?B = None" "full_max ?B = None"
        "full_local ?B = Segments []"
        using assms(1) False by (simp_all add: known_bound_def Let_def)
      have s: "s = with_dev (Some 0) (with_min None b)"
        using assms(2) False Some by (simp add: sentinel_successor_def v_fields)
      have "full_core ?F \<noteq> full_core ?B"
        using dev0_least [OF f(3)] k Some by (auto simp: full_core_eq suffix_core_min)
      then show ?thesis
        using min_successor [OF f(3) Some k(4,1,2)] b k
        by (simp add: s setters_ok setters_full setters_wf)
    next
      case None
      then obtain m p where mp: "full_max ?B = Some m" "full_pre ?B = Some p"
        using assms(2) False by (auto simp: sentinel_successor_def v_fields split: option.splits)
      then have k: "full_max ?B = Some 0" "full_post ?B = None" "full_dev ?B = None" "full_local ?B = Segments []"
        "number p < u64_MAX"
        using assms(1) False None by (simp_all add: known_bound_def Let_def)
      have s: "s = with_dev (Some 0) (with_pre (Some \<lparr>kind = kind p, number = number p + 1\<rparr>) (with_max None b))"
        using assms(2) False None mp k by (simp add: sentinel_successor_def v_fields checked_succ)
      have "?B = ?B\<lparr>full_max := Some 0\<rparr>" using k by simp
      then have "full_core ?F \<noteq> full_core ?B" using max_core_neq [OF f(3) None] by metis
      moreover have "ok_version (with_max None b)" using b by (simp add: ok_version_full setters_wf setters_full)
      ultimately show ?thesis
        using max_successor [OF f(3) None mp k(5,2,3)] b k
        by (simp add: s setters_ok setters_full setters_wf)
    qed
  qed
  then show "ok_version s" by blast
  have lb: "full_local ?B = Max \<or> full_local ?B = Segments [] \<and> full_core ?F \<noteq> full_core ?B"
    using key assms(1,2) by (auto simp: known_bound_def sentinel_successor_def v_fields Let_def split: if_splits option.splits)
  show "version_le v b \<longleftrightarrow> version_less v b"
    using lb max_local_order(1,2) [OF b(1) f(1) _ f(4)] core_order(2,3) [OF f(1) b(1)] by auto
  show "version_less v s \<longleftrightarrow> version_less v b"
    using key lb bound_order(2) [of s v] f(1) max_local_order(2) [OF b(1) f(1) _ f(4)] bound_order(2) [OF b(1) f(1)]
    by (auto simp: order_le_less)
qed


definition known_bounds :: "version bound \<times> version bound \<Rightarrow> bool" where
  "known_bounds sg \<longleftrightarrow>
     (case fst sg of Included v \<Rightarrow> known_bound v | Excluded v \<Rightarrow> known_bound v | Unbounded \<Rightarrow> True) \<and>
     (case snd sg of Included v \<Rightarrow> known_bound v | Excluded v \<Rightarrow> known_bound v | Unbounded \<Rightarrow> True)"

lemma known_bounds_ok: "known_bounds sg \<Longrightarrow> ok_bound (fst sg) \<and> ok_bound (snd sg)"
  by (cases "fst sg"; cases "snd sg"; simp add: known_bounds_def ok_bound_def known_bound_ok)

lemma version_not_less:
  assumes "ok_version v" "ok_version w"
  shows "\<not> version_less v w \<longleftrightarrow> version_le w v" "\<not> version_le v w \<longleftrightarrow> version_less w v"
  using assms by (simp_all add: version_order_keys not_less not_le)

lemma canonical_bounds:
  assumes "known_bounds sg" "public_version v"
  shows "lower_contains (canonicalize_lower_bound (fst sg)) v \<longleftrightarrow> lower_contains (fst sg) v"
    "upper_contains (canonicalize_upper_bound (snd sg)) v \<longleftrightarrow> upper_contains (snd sg) v"
    "ok_bound (canonicalize_lower_bound (fst sg))" "ok_bound (canonicalize_upper_bound (snd sg))"
proof -
  note f = public_facts [OF assms(2)]
  have b: "(version_le s v \<longleftrightarrow> version_le b v) \<and> (version_le s v \<longleftrightarrow> version_less b v) \<and>
      (version_less v s \<longleftrightarrow> version_le v b) \<and> (version_less v s \<longleftrightarrow> version_less v b) \<and> ok_version s"
    if "known_bound b" "sentinel_successor b = Some s" for b s
    using sentinel_successor_least [OF that assms(2)] version_not_less [OF f(1), of s]
      version_not_less [OF f(1) known_bound_ok [OF that(1)]] by blast
  show "lower_contains (canonicalize_lower_bound (fst sg)) v \<longleftrightarrow> lower_contains (fst sg) v"
    "ok_bound (canonicalize_lower_bound (fst sg))"
    using b assms(1) by (cases "fst sg"; auto simp: known_bounds_def ok_bound_def known_bound_ok split: option.splits)+
  show "upper_contains (canonicalize_upper_bound (snd sg)) v \<longleftrightarrow> upper_contains (snd sg) v"
    "ok_bound (canonicalize_upper_bound (snd sg))"
    using b assms(1) by (cases "snd sg"; auto simp: known_bounds_def ok_bound_def known_bound_ok split: option.splits)+
qed

lemma pep440_min_full:
  "ok_version PEP440_MIN_VERSION" "make_full PEP440_MIN_VERSION = (plain_full [0])\<lparr>full_dev := Some 0\<rparr>"
proof -
  obtain w where "version_new [0] = Some w" "wf_version w" "make_full w = plain_full [0]"
    using version_new_full(2) [of "[0]"] by auto
  then show "ok_version PEP440_MIN_VERSION" "make_full PEP440_MIN_VERSION = (plain_full [0])\<lparr>full_dev := Some 0\<rparr>"
    by (simp_all add: PEP440_MIN_VERSION_def ok_version_full setters_wf setters_full plain_full_def)
qed

lemma pep440_min_least:
  assumes "public_version v"
  shows "version_le PEP440_MIN_VERSION v"
proof -
  note f = public_facts [OF assms]
  have "suffix_core (make_full PEP440_MIN_VERSION) = (1, 0, None, 0)" "full_local (make_full PEP440_MIN_VERSION) = Segments []"
    by (simp_all add: pep440_min_full plain_dev0_suffix plain_full_def)
  then have "version_le PEP440_MIN_VERSION v \<longleftrightarrow> epoch_release (make_full PEP440_MIN_VERSION) \<le> epoch_release (make_full v)"
    using bound_order(1) [OF pep440_min_full(1) f(1)] dev0_bound [OF f(3)] by simp
  also have "epoch_release (make_full PEP440_MIN_VERSION) = (0, [])"
    by (simp add: pep440_min_full epoch_release_def plain_full_def trim_zeros_def)
  also have "(0, []) \<le> epoch_release (make_full v)" by (simp add: epoch_release_def word_gt_0)
  finally show ?thesis by simp
qed

lemma floor_cut:
  assumes "ok_version b" "public_version v"
  shows "version_le b PEP440_MIN_VERSION \<Longrightarrow> version_le b v \<and> \<not> version_less v b"
    "version_less b PEP440_MIN_VERSION \<Longrightarrow> version_less b v \<and> \<not> version_le v b"
  using pep440_min_least [OF assms(2)] assms(1) pep440_min_full(1) public_facts(1) [OF assms(2)]
  by (auto simp: version_order_keys)

lemma canonicalize_segment_contains:
  assumes "known_bounds sg" "public_version v"
  shows "case canonicalize_segment sg of
      Some sg' \<Rightarrow> (ok_bound (fst sg') \<and> ok_bound (snd sg')) \<and> (segment_contains sg' v \<longleftrightarrow> segment_contains sg v)
    | None \<Rightarrow> \<not> segment_contains sg v"
proof -
  note c = canonical_bounds [OF assms]
  define lo up where "lo = canonicalize_lower_bound (fst sg)" and "up = canonicalize_upper_bound (snd sg)"
  have lo: "ok_bound lo" "lower_contains lo v \<longleftrightarrow> lower_contains (fst sg) v"
    and up: "ok_bound up" "upper_contains up v \<longleftrightarrow> upper_contains (snd sg) v"
    using c by (simp_all add: lo_def up_def)
  define lo' where "lo' = (case lo of
      Included v \<Rightarrow> if version_le v PEP440_MIN_VERSION then Unbounded else Included v
    | Excluded v \<Rightarrow> if version_less v PEP440_MIN_VERSION then Unbounded else Excluded v
    | Unbounded \<Rightarrow> Unbounded)"
  define fl where "fl = (case up of
      Included v \<Rightarrow> version_less v PEP440_MIN_VERSION
    | Excluded v \<Rightarrow> version_le v PEP440_MIN_VERSION
    | Unbounded \<Rightarrow> False)"
  have "ok_bound lo'" "lower_contains lo' v \<longleftrightarrow> lower_contains lo v"
    using lo(1) floor_cut [OF _ assms(2)] by (cases lo; simp add: lo'_def ok_bound_def)+
  moreover have "fl \<Longrightarrow> \<not> upper_contains up v"
    using up(1) floor_cut [OF _ assms(2)] by (cases up; simp add: fl_def ok_bound_def)
  moreover have "canonicalize_segment sg = (if \<not> fl then Some (lo', up) else None)"
    by (simp add: canonicalize_segment_def Let_def lo_def up_def lo'_def fl_def)
  ultimately show ?thesis using lo up by (auto simp: segment_contains_def)
qed

lemma canonicalize_segments_contains:
  assumes "list_all known_bounds sgs" "public_version v"
  shows "list_ex (\<lambda>sg. segment_contains sg v) (List.map_filter canonicalize_segment sgs) \<longleftrightarrow>
      list_ex (\<lambda>sg. segment_contains sg v) sgs"
    "list_all (\<lambda>(lo, hi). ok_bound lo \<and> ok_bound hi) (List.map_filter canonicalize_segment sgs)"
  using assms(1) canonicalize_segment_contains [OF _ assms(2)]
  by (induction sgs; force simp: map_filter_simps split: option.splits)+

lemma canonicalize_contains:
  assumes "segments_laws G" "list_all known_bounds (s_iter G rng)" "public_version v"
    "canonicalize_version_ranges G rng = Some rng'"
  shows "s_contains G rng' v \<longleftrightarrow> s_contains G rng v"
proof -
  have rng': "rng' = s_collect G (List.map_filter canonicalize_segment (s_iter G rng))"
    using assms(4) by (auto simp: canonicalize_version_ranges_def split: if_splits)
  have "list_all (\<lambda>(lo, hi). ok_bound lo \<and> ok_bound hi) (s_iter G rng)"
    using assms(2) known_bounds_ok by (fastforce simp: list_all_iff)
  then show ?thesis
    using assms(1) canonicalize_segments_contains [OF assms(2,3)] public_facts(1) [OF assms(3)]
    by (simp add: segments_laws_def rng')
qed


section \<open>The order of bounds\<close>

fun lower_key where
  "lower_key Unbounded = None"
| "lower_key (Included v) = Some (version_key v, 0 :: nat)"
| "lower_key (Excluded v) = Some (version_key v, 1)"

fun upper_key where
  "upper_key (Excluded v) = (0 :: nat, Some (version_key v), 0 :: nat)"
| "upper_key (Included v) = (0, Some (version_key v), 1)"
| "upper_key Unbounded = (1, None, 0)"

interpretation lower: keyed_cmp lower_cmp lower_key ok_bound
proof
  fix a b assume "ok_bound a" "ok_bound b"
  then show "lower_cmp a b = cmp_of (lower_key a) (lower_key b)"
    by (cases a; cases b) (auto simp: ok_bound_def version_cmp_key cmp_of_def)
qed

interpretation upper: keyed_cmp upper_cmp upper_key ok_bound
proof
  fix a b assume "ok_bound a" "ok_bound b"
  then show "upper_cmp a b = cmp_of (upper_key a) (upper_key b)"
    by (cases a; cases b) (auto simp: ok_bound_def version_cmp_key cmp_of_def)
qed

lemma lower_cmp_antitone:
  assumes "ok_bound a" "ok_bound b" "ok_version v" "lower_cmp a b \<noteq> GT" "lower_contains b v"
  shows "lower_contains a v"
  using assms
  by (cases a; cases b) (auto simp: ok_bound_def version_order_keys version_cmp_key cmp_of_def split: if_splits)

lemma upper_cmp_monotone:
  assumes "ok_bound a" "ok_bound b" "ok_version v" "upper_cmp a b \<noteq> GT" "upper_contains a v"
  shows "upper_contains b v"
  using assms
  by (cases a; cases b) (auto simp: ok_bound_def version_order_keys version_cmp_key cmp_of_def split: if_splits)

section \<open>Release-only ranges\<close>

text \<open>Versions that consist of a release only, the ones release-only ranges are tested with.\<close>

definition release_only :: "version \<Rightarrow> bool" where
  "release_only v \<longleftrightarrow> public_version v \<and> make_full v = plain_full (v_release v)"

lemma release_only_facts:
  assumes "release_only v"
  shows "public_version v" "ok_version v" "make_full v = plain_full (full_release (make_full v))"
    "full_local (make_full v) = Segments []" "full_epoch (make_full v) = 0" "suffix_core (make_full v) = (5, 0, None, 0)"
    "full_release (make_full v) \<noteq> []" "list_all (\<lambda>n. n < u64_MAX) (full_release (make_full v))"
proof -
  show p: "public_version v" "ok_version v" using assms by (auto simp: release_only_def public_ok)
  show f: "make_full v = plain_full (full_release (make_full v))" using assms by (simp add: release_only_def v_fields)
  show "full_local (make_full v) = Segments []" "full_epoch (make_full v) = 0" "suffix_core (make_full v) = (5, 0, None, 0)"
    by (subst f; simp add: plain_full_def suffix_core_public)+
  show "full_release (make_full v) \<noteq> []" "list_all (\<lambda>n. n < u64_MAX) (full_release (make_full v))"
    using public_facts(3) [OF p(1)] by (simp_all add: public_full_def)
qed

lemma plain_core: "full_core (plain_full ns) = (0, trim_zeros ns, 5, 0, None, 0)"
  by (simp add: full_core_eq plain_full_def suffix_core_public)

lemma release_only_core:
  "release_only v \<Longrightarrow> full_core (make_full v) = (0, trim_zeros (full_release (make_full v)), 5, 0, None, 0)"
  by (metis plain_core release_only_facts(3))

text \<open>Bounds that are plain releases compare by trimmed release.\<close>

lemma plain_core_order:
  fixes x y :: "u64 list"
  defines "core \<equiv> \<lambda>x. (0 :: u64, x, 5 :: u64, 0 :: u64, None :: u64 option, 0 :: u64)"
  shows "core x \<le> core y \<longleftrightarrow> x \<le> y" "core x < core y \<longleftrightarrow> x < y" "core x = core y \<longleftrightarrow> x = y"
  by (auto simp: core_def order_le_less)

lemma plain_bound_order:
  assumes "ok_version b" "make_full b = plain_full ns" "release_only v"
  shows "version_le b v \<longleftrightarrow> trim_zeros ns \<le> trim_zeros (full_release (make_full v))"
    "version_less v b \<longleftrightarrow> trim_zeros (full_release (make_full v)) < trim_zeros ns"
    "version_le v b \<longleftrightarrow> trim_zeros (full_release (make_full v)) \<le> trim_zeros ns"
    "version_less b v \<longleftrightarrow> trim_zeros ns < trim_zeros (full_release (make_full v))"
    "version_eq v b \<longleftrightarrow> trim_zeros (full_release (make_full v)) = trim_zeros ns"
proof -
  note v = release_only_facts [OF assms(3)]
  have b: "full_local (make_full b) = Segments []" "full_core (make_full b) = (0, trim_zeros ns, 5, 0, None, 0)"
    by (simp_all add: assms(2) plain_core) (simp add: plain_full_def)
  note cores = release_only_core [OF assms(3)] b v(4) plain_core_order
  show "version_le b v \<longleftrightarrow> trim_zeros ns \<le> trim_zeros (full_release (make_full v))"
    "version_less v b \<longleftrightarrow> trim_zeros (full_release (make_full v)) < trim_zeros ns"
    using bound_order [OF assms(1) v(2) b(1)] unfolding cores by simp_all
  show "version_le v b \<longleftrightarrow> trim_zeros (full_release (make_full v)) \<le> trim_zeros ns"
    using bound_order(1) [OF v(2) assms(1) v(4)] unfolding cores by simp
  show "version_less b v \<longleftrightarrow> trim_zeros ns < trim_zeros (full_release (make_full v))"
    using bound_order(2) [OF v(2) assms(1) v(4)] unfolding cores by simp
  show "version_eq v b \<longleftrightarrow> trim_zeros (full_release (make_full v)) = trim_zeros ns"
    using core_order(1) [OF v(2) assms(1)] unfolding cores by simp
qed

lemma rposition_less: "rposition P xs = Some i \<Longrightarrow> i < length xs"
  by (induction xs arbitrary: i) (auto split: option.splits if_splits)

lemma trim_zeros_take_rposition:
  "(case rposition (\<lambda>x. x \<noteq> 0) ns of Some i \<Rightarrow> take (Suc i) ns | None \<Rightarrow> []) = trim_zeros ns"
proof (induction ns)
  case (Cons n ns)
  then show ?case
    using rposition_less [of _ ns] by (cases "rposition (\<lambda>x. x \<noteq> 0) ns") (cases ns; auto)+
qed simp

lemma trim_zeros_idem [simp]: "trim_zeros (trim_zeros ns) = trim_zeros ns"
  by (induction ns) auto

lemma only_release_full:
  assumes "release_only v"
  shows "\<exists>w. (if trim then only_release_trimmed v else only_release v) = Some w \<and> ok_version w \<and>
    (\<exists>ns. make_full w = plain_full ns \<and> trim_zeros ns = trim_zeros (full_release (make_full v)))"
proof -
  note v = release_only_facts [OF assms]
  let ?r = "full_release (make_full v)"
  have new: "\<exists>w. version_new ns = Some w \<and> ok_version w \<and> make_full w = plain_full ns" if "ns \<noteq> []" for ns
    using version_new_full(2) [OF that] by (auto simp: ok_version_full plain_full_def)
  have trimmed: "\<exists>w. only_release_trimmed v = Some w \<and> ok_version w \<and>
      (\<exists>ns. make_full w = plain_full ns \<and> trim_zeros ns = trim_zeros ?r)"
  proof (cases "rposition (\<lambda>x. x \<noteq> 0) ?r")
    case None
    have "trim_zeros ?r = trim_zeros [0]" using trim_zeros_take_rposition [of ?r] None by simp
    moreover have "only_release_trimmed v = version_new [0]" using None by (simp add: only_release_trimmed_def v_fields)
    ultimately show ?thesis using new [of "[0]"] by (metis list.distinct(1))
  next
    case (Some i)
    then have "trim_zeros (take (Suc i) ?r) = trim_zeros ?r" "take (Suc i) ?r \<noteq> []"
      using trim_zeros_take_rposition [of ?r] trim_zeros_idem [of ?r] v(7) by auto
    then obtain w where w: "version_new (take (Suc i) ?r) = Some w" "ok_version w"
      "make_full w = plain_full (take (Suc i) ?r)" "trim_zeros (take (Suc i) ?r) = trim_zeros ?r"
      using new by blast
    have "only_release_trimmed v = Some v \<or> only_release_trimmed v = version_new (take (Suc i) ?r)"
      using Some by (simp add: only_release_trimmed_def v_fields)
    then show ?thesis using w v(2,3) by metis
  qed
  moreover have "only_release v = version_new ?r" by (simp add: only_release_def v_fields)
  ultimately show ?thesis using new [OF v(7)] by (cases trim) metis+
qed


lemma release_only_er:
  "release_only v \<Longrightarrow> epoch_release (make_full v) = (0, trim_zeros (full_release (make_full v)))"
  by (simp add: epoch_release_def release_only_facts(5))

lemma contains_release_strict:
  assumes "valid_specifier sp" "release_only (sp_version sp)" "release_only v"
  shows "sp_operator sp = LessThan \<Longrightarrow>
      sp_contains sp v = Some (trim_zeros (full_release (make_full v)) < trim_zeros (full_release (make_full (sp_version sp))))"
    "sp_operator sp = GreaterThan \<Longrightarrow>
      sp_contains sp v = Some (trim_zeros (full_release (make_full (sp_version sp))) < trim_zeros (full_release (make_full v)))"
proof -
  let ?T = "make_full (sp_version sp)"
  note t = release_only_facts [OF assms(2)] and f = release_only_facts [OF assms(3)]
  have none: "full_pre ?T = None" "full_post ?T = None" "full_dev ?T = None" "full_max ?T = None" "full_min ?T = None"
    by (subst t(3); simp add: plain_full_def)+
  then have "less_bound ?T = ?T\<lparr>full_min := Some 0\<rparr>" "suffix_core (?T\<lparr>full_min := Some 0\<rparr>) = (0, 0, None, 0)"
    "suffix_core (?T\<lparr>full_max := Some 0\<rparr>) = (6, 0, Some u64_MAX, u64_MAX)"
    by (simp_all add: less_bound_def suffix_core_min suffix_core_max unwrap_or_def)
  note suffixes = this f(6)
  show "sp_operator sp = LessThan \<Longrightarrow>
      sp_contains sp v = Some (trim_zeros (full_release (make_full v)) < trim_zeros (full_release ?T))"
    by (simp add: contains_less [OF assms(1) _ f(1)] full_core_cmp suffixes release_only_er assms(2,3))
  show "sp_operator sp = GreaterThan \<Longrightarrow>
      sp_contains sp v = Some (trim_zeros (full_release ?T) < trim_zeros (full_release (make_full v)))"
    by (simp add: contains_greater [OF assms(1) _ f(1)] greater_accepts_def none full_core_cmp suffixes release_only_er
        assms(2,3))
qed

lemma release_star_high_full:
  assumes "release_only v"
  shows "\<exists>h. release_star_high v = Some h \<and> ok_version h \<and> make_full h = plain_full (bump_last (full_release (make_full v)))"
proof -
  note v = release_only_facts [OF assms]
  let ?r = "full_release (make_full v)"
  obtain w where w: "version_new ?r = Some w" "wf_version w" "make_full w = plain_full ?r"
    using version_new_full(2) [OF v(7)] by blast
  have "bump_last ?r \<noteq> []" by (simp add: bump_last_def)
  then obtain h where h: "with_release w (bump_last ?r) = Some h" "wf_version h"
    "make_full h = (make_full w)\<lparr>full_release := bump_last ?r\<rparr>"
    using with_release_full(2) [OF w(2)] by blast
  have rel: "full_release (plain_full ?r) = ?r" by (simp add: plain_full_def)
  have full: "make_full h = plain_full (bump_last ?r)" by (simp add: h(3) w(3) plain_full_def)
  then have "ok_version h" using h(2) by (simp add: ok_version_full plain_full_def)
  then show ?thesis
    using h(1) full v(7) by (simp add: release_star_high_def only_release_def v_fields w(1,3) rel bump_last_def)
qed

lemma release_interval:
  assumes "p \<noteq> []" "last p < u64_MAX" "ok_version h" "make_full h = plain_full (bump_last p)" "release_only v"
  shows "version_less v h \<and> trim_zeros p \<le> trim_zeros (full_release (make_full v)) \<longleftrightarrow>
    star_matches p (full_release (make_full v))"
  unfolding plain_bound_order(2) [OF assms(3,4,5)] star_matches_interval [OF assms(1,2)] by blast


lemma release_star_contains:
  assumes "ranges_laws R R_ok" "valid_specifier sp" "is_star (sp_operator sp)" "release_only (sp_version sp)" "release_only v"
  shows "\<exists>h. release_star_high (sp_version sp) = Some h \<and> R_ok (r_from_range R (sp_version sp) h) \<and>
    sp_contains sp v = Some ((sp_operator sp = EqualStar) = r_contains R (r_from_range R (sp_version sp) h) v)"
proof -
  let ?t = "sp_version sp" and ?T = "make_full (sp_version sp)"
  note t = release_only_facts [OF assms(4)] and f = release_only_facts [OF assms(5)]
  obtain h where h: "release_star_high ?t = Some h" "ok_version h" "make_full h = plain_full (bump_last (full_release ?T))"
    using release_star_high_full [OF assms(4)] by blast
  have "last (full_release ?T) < u64_MAX" using t(7,8) by (simp add: list_all_iff)
  then have "version_le ?t v \<and> version_less v h \<longleftrightarrow> star_matches (full_release ?T) (full_release (make_full v))"
    using release_interval [OF t(7) _ h(2,3) assms(5)] plain_bound_order(1) [OF t(2,3) assms(5)] by blast
  then show ?thesis
    using h(1) ranges_membership(8) [OF assms(1) f(2) t(2) h(2)] ranges_ok(8) [OF assms(1) t(2) h(2)] t(5) f(5)
    by (simp add: contains_star [OF assms(2,3) f(1)] v_fields)
qed

lemma release_tilde_contains:
  assumes "ranges_laws R R_ok" "valid_specifier sp" "sp_operator sp = TildeEqual" "release_only (sp_version sp)"
    "release_only v" "ok_version w" "make_full w = plain_full ns" "trim_zeros ns = trim_zeros (full_release (make_full (sp_version sp)))"
  shows "\<exists>u. tilde_upper (v_release (sp_version sp)) = Some u \<and> R_ok (r_from_range R w u) \<and>
    sp_contains sp v = Some (r_contains R (r_from_range R w u) v)"
proof -
  let ?r = "full_release (make_full (sp_version sp))" and ?f = "full_release (make_full v)"
  note t = release_only_facts [OF assms(4)] and f = release_only_facts [OF assms(5)]
  have len: "2 \<le> length ?r" using assms(2,3) by (simp add: valid_specifier_def v_fields)
  then obtain u where u: "tilde_upper ?r = Some u" "ok_version u" "make_full u = plain_full (bump_last (butlast ?r))"
    using tilde_upper_full by blast
  have split: "?r = butlast ?r @ [last ?r]" and ne: "butlast ?r \<noteq> []"
    using len by (cases ?r rule: rev_cases; auto)+
  have lst: "last (butlast ?r) < u64_MAX"
    using t(8) in_set_butlastD [OF last_in_set [OF ne]] by (simp add: list_all_iff)
  have below: "trim_zeros (butlast ?r) \<le> trim_zeros ?r"
    using trim_zeros_snoc_le [of "butlast ?r" "last ?r"] split by simp
  have "version_le w v \<and> version_less v u \<longleftrightarrow> trim_zeros ?r \<le> trim_zeros ?f \<and> star_matches (butlast ?r) ?f"
    using release_interval [OF ne lst u(2,3) assms(5)] plain_bound_order(1) [OF assms(6,7,5)] assms(8) below order_trans
    by metis
  moreover have "full_core (make_full (sp_version sp)) \<le> full_core (make_full v) \<longleftrightarrow> trim_zeros ?r \<le> trim_zeros ?f"
    unfolding release_only_core [OF assms(4)] release_only_core [OF assms(5)] plain_core_order by (rule refl)
  ultimately show ?thesis
    using u(1) ranges_membership(8) [OF assms(1) f(2) assms(6) u(2)] ranges_ok(8) [OF assms(1) assms(6) u(2)] t(5) f(5)
    by (auto simp: contains_tilde [OF assms(2,3) f(1)] v_fields)
qed

lemma release_range_contains:
  assumes "ranges_laws R R_ok" "valid_specifier sp" "release_only (sp_version sp)" "release_only v"
  shows "\<exists>r. release_specifier_to_range R sp trim = Some r \<and> R_ok r \<and> sp_contains sp v = Some (r_contains R r v)"
proof -
  let ?t = "sp_version sp" and ?f = "trim_zeros (full_release (make_full v))"
  note t = release_only_facts [OF assms(3)] and f = release_only_facts [OF assms(4)]
  let ?r = "trim_zeros (full_release (make_full ?t))"
  obtain w ns where w: "(if trim then only_release_trimmed ?t else only_release ?t) = Some w" "ok_version w"
    "make_full w = plain_full ns" "trim_zeros ns = ?r"
    using only_release_full [OF assms(3), of trim] by blast
  note order = plain_bound_order [OF w(2,3) assms(4), unfolded w(4)]
  note mem = ranges_membership [OF assms(1) f(2)] and okr = ranges_ok [OF assms(1)]
  have run: "release_specifier_to_range R sp trim = (case sp_operator sp of
          Equal \<Rightarrow> Some (r_singleton R w)
        | ExactEqual \<Rightarrow> Some (r_singleton R w)
        | NotEqual \<Rightarrow> Some (r_complement R (r_singleton R w))
        | LessThan \<Rightarrow> Some (r_strictly_lower_than R w)
        | LessThanEqual \<Rightarrow> Some (r_lower_than R w)
        | GreaterThan \<Rightarrow> Some (r_strictly_higher_than R w)
        | GreaterThanEqual \<Rightarrow> Some (r_higher_than R w)
        | TildeEqual \<Rightarrow> map_option (r_from_range R w) (tilde_upper (v_release ?t))
        | EqualStar \<Rightarrow> map_option (r_from_range R ?t) (release_star_high ?t)
        | NotEqualStar \<Rightarrow> map_option (\<lambda>high. r_complement R (r_from_range R ?t high)) (release_star_high ?t))"
    using w(1) by (simp add: release_specifier_to_range_def Let_def)
  have cores: "full_core (make_full v) = full_core (make_full ?t) \<longleftrightarrow> ?f = ?r"
    "full_core (make_full v) \<le> full_core (make_full ?t) \<longleftrightarrow> ?f \<le> ?r"
    "full_core (make_full ?t) \<le> full_core (make_full v) \<longleftrightarrow> ?r \<le> ?f"
    unfolding release_only_core [OF assms(3)] release_only_core [OF assms(4)] plain_core_order by (rule refl)+
  have star: ?thesis if op: "is_star (sp_operator sp)"
    using release_star_contains [OF assms(1,2) op assms(3,4)] op run mem(9) okr(9)
    by (cases "sp_operator sp") (auto simp: is_star_def)
  show ?thesis
  proof (cases "sp_operator sp")
    case TildeEqual
    then show ?thesis using release_tilde_contains [OF assms(1,2) TildeEqual assms(3,4) w(2-4)] run by auto
  next
    case Equal
    then show ?thesis using contains_equal [OF assms(2) _ f(1)] run mem(2) okr(2) w(2) t(4) by (simp add: cores order v_fields)
  next
    case NotEqual
    then show ?thesis
      using contains_equal [OF assms(2) _ f(1)] run mem(2,9) okr(2,9) w(2) t(4) by (simp add: cores order v_fields)
  next
    case ExactEqual
    then show ?thesis
      using contains_exact run mem(2) okr(2) w(2) core_order(1) [OF t(2) f(2)] t(4) f(4) cores(1)
      by (auto simp: order)
  qed (use star run mem okr w(2) order cores contains_ordered [OF assms(2) f(1)] contains_release_strict [OF assms(2-4)]
      in \<open>simp_all add: is_star_def\<close>)
qed

section \<open>Properties\<close>

lemma specifiers_range_contains:
  assumes "ranges_laws R R_ok" "list_all valid_specifier sps" "public_version v" "R_ok acc"
  shows "\<exists>r. intersect_specifiers R acc sps = Some r \<and>
    (r_contains R r v \<longleftrightarrow> r_contains R acc v \<and> specifiers_contains sps v = Some True) \<and>
    specifiers_contains sps v \<noteq> None"
  using assms(2,4)
proof (induction sps arbitrary: acc)
  case (Cons sp sps)
  then obtain r where r: "range_of_specifier R sp = Some r" "R_ok r" "sp_contains sp v = Some (r_contains R r v)"
    using range_of_specifier_contains [OF assms(1) _ assms(3)] by auto
  have "R_ok (r_intersection R acc r)" using ranges_ok(10) [OF assms(1)] Cons.prems(2) r(2) .
  with Cons r ranges_membership(10) [OF assms(1) public_facts(1) [OF assms(3)] Cons.prems(2) r(2)]
  show ?case by (fastforce split: bool.splits)
qed simp

text \<open>
  C11. For every list of valid specifiers the conversion to a range succeeds, and the range contains a
  public version exactly when the specifiers do: the resolver, which computes with ranges, and the code
  that tests candidates with \<open>contains\<close>, agree on every operator, with epochs, pre-, post- and dev
  releases and local versions.
\<close>

theorem specifiers_range_agree:
  assumes "ranges_laws R R_ok" "list_all valid_specifier sps" "public_version v"
  shows "\<exists>r. range_of_specifiers R sps = Some r \<and> specifiers_contains sps v = Some (r_contains R r v)"
proof -
  obtain r where "range_of_specifiers R sps = Some r"
    "r_contains R r v \<longleftrightarrow> specifiers_contains sps v = Some True" "specifiers_contains sps v \<noteq> None"
    using specifiers_range_contains [OF assms ranges_ok(1) [OF assms(1)]]
      ranges_membership(1) [OF assms(1) public_facts(1) [OF assms(3)]]
    by (auto simp: range_of_specifiers_def)
  then show ?thesis by auto
qed

text \<open>Sets of versions as predicates: an instance of the range type.\<close>

definition predicate_ranges :: "(version \<Rightarrow> bool) ranges" where
  "predicate_ranges = \<lparr>
     r_full = (\<lambda>v. True),
     r_singleton = (\<lambda>a v. version_eq v a),
     r_between = (\<lambda>a b v. version_le a v \<and> version_less v b),
     r_from_range = (\<lambda>a b v. version_le a v \<and> version_less v b),
     r_lower_than = (\<lambda>a v. version_le v a),
     r_strictly_lower_than = (\<lambda>a v. version_less v a),
     r_higher_than = (\<lambda>a v. version_le a v),
     r_strictly_higher_than = (\<lambda>a v. version_less a v),
     r_complement = (\<lambda>r v. \<not> r v),
     r_intersection = (\<lambda>r s v. r v \<and> s v),
     r_contains = (\<lambda>r v. r v)\<rparr>"

lemma predicate_ranges_laws: "ranges_laws predicate_ranges (\<lambda>_. True)"
  by (simp add: ranges_laws_def predicate_ranges_def)

theorem specifiers_range_agree_witness:
  "\<exists>r. range_of_specifiers predicate_ranges
         [\<lparr>sp_operator = TildeEqual, sp_version = Full (plain_full [1, 4, 2])\<rparr>,
          \<lparr>sp_operator = GreaterThan, sp_version = Full (plain_full [1, 4, 3])\<rparr>] = Some r \<and>
     r_contains predicate_ranges r (Full ((plain_full [1, 4, 4])\<lparr>full_post := Some 2\<rparr>))"
proof -
  let ?sps = "[\<lparr>sp_operator = TildeEqual, sp_version = Full (plain_full [1, 4, 2])\<rparr>,
    \<lparr>sp_operator = GreaterThan, sp_version = Full (plain_full [1, 4, 3])\<rparr>]"
  let ?v = "Full ((plain_full [1, 4, 4])\<lparr>full_post := Some 2\<rparr>)"
  have "list_all valid_specifier ?sps" "public_version ?v" by code_simp+
  moreover have "specifiers_contains ?sps ?v = Some True" by code_simp
  ultimately show ?thesis
    using specifiers_range_agree [OF predicate_ranges_laws, of ?sps ?v] by auto
qed



text \<open>
  C13. Canonicalizing a range keeps its public versions: replacing a sentinel bound by the least public
  version above it, opening bounds below the least version and dropping segments that end below it
  changes no membership.
\<close>

theorem canonicalize_keeps_members:
  assumes "segments_laws G" "list_all known_bounds (s_iter G rng)" "public_version v"
    "canonicalize_version_ranges G rng = Some rng'"
  shows "s_contains G rng' v \<longleftrightarrow> s_contains G rng v"
  using assms by (rule canonicalize_contains)

text \<open>Ranges as lists of segments.\<close>

definition list_segments :: "(version bound \<times> version bound) list range_segments" where
  "list_segments = \<lparr>
     s_iter = (\<lambda>segs. segs),
     s_collect = (\<lambda>segs. segs),
     s_is_empty = (\<lambda>segs. segs = []),
     s_contains = (\<lambda>segs v. list_ex (\<lambda>sg. segment_contains sg v) segs)\<rparr>"

lemma list_segments_laws: "segments_laws list_segments"
  by (simp add: segments_laws_def list_segments_def)

theorem canonicalize_keeps_members_witness:
  "\<exists>rng'. canonicalize_version_ranges list_segments
            [(Excluded (Full ((plain_full [1, 2])\<lparr>full_local := Max\<rparr>)), Excluded (Full ((plain_full [2])\<lparr>full_min := Some 0\<rparr>)))]
          = Some rng' \<and>
     s_contains list_segments rng' (Full ((plain_full [1, 2])\<lparr>full_post := Some 0\<rparr>))"
proof -
  let ?rng = "[(Excluded (Full ((plain_full [1, 2])\<lparr>full_local := Max\<rparr>)), Excluded (Full ((plain_full [2])\<lparr>full_min := Some 0\<rparr>)))]"
  let ?v = "Full ((plain_full [1, 2])\<lparr>full_post := Some 0\<rparr>)"
  have "canonicalize_version_ranges list_segments ?rng \<noteq> None" by code_simp
  then obtain rng' where rng': "canonicalize_version_ranges list_segments ?rng = Some rng'" by blast
  have "list_all known_bounds (s_iter list_segments ?rng)" "public_version ?v" by code_simp+
  moreover have "s_contains list_segments ?rng ?v" by code_simp
  ultimately show ?thesis
    using canonicalize_keeps_members [OF list_segments_laws _ _ rng', of ?v] rng' by blast
qed

text \<open>
  C14. The orders of lower and of upper bounds are total orders that agree with containment: a smaller
  lower bound contains every version that a larger one contains, and a larger upper bound every version
  that a smaller one contains.
\<close>

theorem bound_orders_contain:
  assumes "ok_bound a" "ok_bound b" "ok_version v"
  shows "lower_cmp b a = rev_ordering (lower_cmp a b) \<and> upper_cmp b a = rev_ordering (upper_cmp a b) \<and>
    (lower_cmp a b \<noteq> GT \<longrightarrow> lower_contains b v \<longrightarrow> lower_contains a v) \<and>
    (upper_cmp a b \<noteq> GT \<longrightarrow> upper_contains a v \<longrightarrow> upper_contains b v)"
  using lower.cmp_sym upper.cmp_sym lower_cmp_antitone upper_cmp_monotone assms by blast

theorem bound_orders_contain_witness:
  "upper_contains (Included (Full (plain_full [3, 10]))) (Full (plain_full [3, 9, 7]))"
proof -
  have "ok_bound (Excluded (Full (plain_full [3, 10, 0])))" "ok_bound (Included (Full (plain_full [3, 10])))"
    "ok_version (Full (plain_full [3, 9, 7]))" by code_simp+
  moreover have "upper_cmp (Excluded (Full (plain_full [3, 10, 0]))) (Included (Full (plain_full [3, 10]))) \<noteq> GT"
    "upper_contains (Excluded (Full (plain_full [3, 10, 0]))) (Full (plain_full [3, 9, 7]))" by code_simp+
  ultimately show ?thesis using bound_orders_contain by blast
qed

end
