(* ===== verification/MarkerAlgebra.thy ===== *)
theory MarkerAlgebra
  imports VersionRanges "HOL-Library.Monad_Syntax"
begin

text \<open>
  Marker trees: \<open>crates/uv-pep508/src/marker/algebra.rs\<close>, the interned decision diagrams that represent
  environment markers, and the evaluation of \<open>marker/tree.rs\<close>. This theory holds the data (node ids with
  a complement bit, variables, edges, the interner) and the operations.

  Node ids are natural numbers with the bit layout of the source; the number of nodes is the length of a
  list in memory. The crate \<open>version-ranges\<close> is the parameter \<open>range_ops\<close>, once for versions and once for
  strings, and the hash function of the interner's table is a parameter too. An operation returns
  \<open>None\<close> where the code panics. The recursive operations carry fuel; the wrappers choose the sum of the
  ids of their arguments, and \<open>MarkerSemantics\<close> shows that this is enough.
\<close>

section \<open>Node ids\<close>

type_synonym node_id = nat

definition NODE_TRUE :: node_id where
  "NODE_TRUE = 0"

definition NODE_FALSE :: node_id where
  "NODE_FALSE = 1"

definition node_new :: "nat \<Rightarrow> bool \<Rightarrow> node_id" where
  "node_new index complement = push_bit 1 (index + 1) OR of_bool complement"

text \<open>\<open>None\<close> for the terminals, whose index underflows.\<close>

definition node_index :: "node_id \<Rightarrow> nat option" where
  "node_index i = (if drop_bit 1 i = 0 then None else Some (drop_bit 1 i - 1))"

definition is_complement :: "node_id \<Rightarrow> bool" where
  "is_complement i \<longleftrightarrow> i AND 1 = 1"

definition node_not :: "node_id \<Rightarrow> node_id" where
  "node_not i = i XOR 1"

definition node_negate :: "node_id \<Rightarrow> node_id \<Rightarrow> node_id" where
  "node_negate i parent = (if is_complement parent then node_not i else i)"

definition node_is_false :: "node_id \<Rightarrow> bool" where
  "node_is_false i \<longleftrightarrow> i = NODE_FALSE"

definition node_is_true :: "node_id \<Rightarrow> bool" where
  "node_is_true i \<longleftrightarrow> i = NODE_TRUE"

definition and_trivial :: "node_id \<Rightarrow> node_id \<Rightarrow> node_id option" where
  "and_trivial x y =
     (if node_is_true x then Some y
      else if node_is_true y then Some x
      else if x = y then Some x
      else if node_is_false x \<or> node_is_false y then Some NODE_FALSE
      else if node_not x = y then Some NODE_FALSE
      else None)"

definition or_trivial :: "node_id \<Rightarrow> node_id \<Rightarrow> node_id option" where
  "or_trivial x y = map_option node_not (and_trivial (node_not x) (node_not y))"

definition is_disjoint_trivial :: "node_id \<Rightarrow> node_id \<Rightarrow> bool option" where
  "is_disjoint_trivial x y = map_option node_is_false (and_trivial x y)"

section \<open>Variables\<close>

datatype canonical_version = ImplementationVersion | PythonFullVersion

datatype canonical_string =
    OsName | SysPlatform | PlatformSystem | PlatformMachine | PlatformPythonImplementation
  | PlatformRelease | PlatformVersion | ImplementationName

type_synonym extra_name = string

type_synonym group_name = string

datatype marker_value_list = Extras | DependencyGroups

datatype list_pair =
    PairExtras extra_name
  | PairDependencyGroup group_name
  | PairArbitrary marker_value_list string

datatype variable =
    VString canonical_string
  | VVersionString canonical_string
  | VVersion canonical_version
  | VIn canonical_string string
  | VContains canonical_string string
  | VExtra extra_name
  | VList list_pair

text \<open>The derived \<open>Ord\<close>: declaration order of the constructors, then the fields.\<close>

primrec canonical_version_rank :: "canonical_version \<Rightarrow> nat" where
  "canonical_version_rank ImplementationVersion = 0"
| "canonical_version_rank PythonFullVersion = 1"

primrec canonical_string_rank :: "canonical_string \<Rightarrow> nat" where
  "canonical_string_rank OsName = 0"
| "canonical_string_rank SysPlatform = 1"
| "canonical_string_rank PlatformSystem = 2"
| "canonical_string_rank PlatformMachine = 3"
| "canonical_string_rank PlatformPythonImplementation = 4"
| "canonical_string_rank PlatformRelease = 5"
| "canonical_string_rank PlatformVersion = 6"
| "canonical_string_rank ImplementationName = 7"

primrec value_list_rank :: "marker_value_list \<Rightarrow> nat" where
  "value_list_rank Extras = 0"
| "value_list_rank DependencyGroups = 1"

primrec list_pair_key :: "list_pair \<Rightarrow> nat \<times> nat \<times> string" where
  "list_pair_key (PairExtras name) = (0, 0, name)"
| "list_pair_key (PairDependencyGroup name) = (1, 0, name)"
| "list_pair_key (PairArbitrary k s) = (2, value_list_rank k, s)"

primrec variable_key :: "variable \<Rightarrow> nat \<times> nat \<times> nat \<times> string" where
  "variable_key (VString k) = (0, canonical_string_rank k, 0, [])"
| "variable_key (VVersionString k) = (1, canonical_string_rank k, 0, [])"
| "variable_key (VVersion k) = (2, canonical_version_rank k, 0, [])"
| "variable_key (VIn k s) = (3, canonical_string_rank k, 0, s)"
| "variable_key (VContains k s) = (4, canonical_string_rank k, 0, s)"
| "variable_key (VExtra name) = (5, 0, 0, name)"
| "variable_key (VList p) = (6, list_pair_key p)"

lemma canonical_version_rank_inject [simp]:
  "canonical_version_rank a = canonical_version_rank b \<longleftrightarrow> a = b"
  by (cases a; cases b) simp_all

lemma canonical_string_rank_inject [simp]:
  "canonical_string_rank a = canonical_string_rank b \<longleftrightarrow> a = b"
  by (cases a; cases b) simp_all

lemma value_list_rank_inject [simp]: "value_list_rank a = value_list_rank b \<longleftrightarrow> a = b"
  by (cases a; cases b) simp_all

lemma list_pair_key_inject [simp]: "list_pair_key a = list_pair_key b \<longleftrightarrow> a = b"
  by (cases a; cases b) simp_all

lemma variable_key_inject [simp]: "variable_key a = variable_key b \<longleftrightarrow> a = b"
  by (cases a; cases b) (simp_all)

instantiation variable :: linorder
begin

definition less_eq_variable :: "variable \<Rightarrow> variable \<Rightarrow> bool" where
  "less_eq_variable a b \<longleftrightarrow> variable_key a \<le> variable_key b"

definition less_variable :: "variable \<Rightarrow> variable \<Rightarrow> bool" where
  "less_variable a b \<longleftrightarrow> variable_key a < variable_key b"

instance
  by standard (auto simp: less_eq_variable_def less_variable_def simp flip: variable_key_inject)

end

definition canonical_is_conflicting :: "canonical_string \<Rightarrow> bool" where
  "canonical_is_conflicting k \<longleftrightarrow> canonical_string_rank k \<le> canonical_string_rank PlatformSystem"

fun is_conflicting_variable :: "variable \<Rightarrow> bool" where
  "is_conflicting_variable (VString k) = canonical_is_conflicting k"
| "is_conflicting_variable _ = False"

section \<open>Ranges\<close>

text \<open>
  The operations of \<open>Ranges<T>\<close> that the algebra calls, with the \<open>PartialEq\<close> and \<open>Ord\<close> of \<open>T\<close> in
  \<open>value_eq\<close> and \<open>value_cmp\<close>. \<open>i_eq\<close> is the \<open>PartialEq\<close> of \<open>Ranges\<close>, which compares bounds by \<open>value_eq\<close>.
\<close>

record ('t, 'r) range_ops =
  value_eq :: "'t \<Rightarrow> 't \<Rightarrow> bool"
  value_cmp :: "'t \<Rightarrow> 't \<Rightarrow> ordering"
  i_eq :: "'r \<Rightarrow> 'r \<Rightarrow> bool"
  i_contains :: "'r \<Rightarrow> 't \<Rightarrow> bool"
  i_is_empty :: "'r \<Rightarrow> bool"
  i_is_disjoint :: "'r \<Rightarrow> 'r \<Rightarrow> bool"
  i_empty :: 'r
  i_singleton :: "'t \<Rightarrow> 'r"
  i_lower_than :: "'t \<Rightarrow> 'r"
  i_strictly_lower_than :: "'t \<Rightarrow> 'r"
  i_higher_than :: "'t \<Rightarrow> 'r"
  i_strictly_higher_than :: "'t \<Rightarrow> 'r"
  i_complement :: "'r \<Rightarrow> 'r"
  i_intersection :: "'r \<Rightarrow> 'r \<Rightarrow> 'r"
  i_union :: "'r \<Rightarrow> 'r \<Rightarrow> 'r"
  i_bounding_range :: "'r \<Rightarrow> ('t bound \<times> 't bound) option"
  i_iter :: "'r \<Rightarrow> ('t bound \<times> 't bound) list"
  i_from_range_bounds :: "'t bound \<times> 't bound \<Rightarrow> 'r"
  i_collect :: "('t bound \<times> 't bound) list \<Rightarrow> 'r"

definition can_conjoin :: "('t, 'r) range_ops \<Rightarrow> 'r \<Rightarrow> 'r \<Rightarrow> bool" where
  "can_conjoin I range1 range2 =
     (case i_bounding_range I range1 of
        None \<Rightarrow> False
      | Some (_, bound_end) \<Rightarrow>
          (case i_bounding_range I range2 of
             None \<Rightarrow> False
           | Some (start, _) \<Rightarrow>
               (case (bound_end, start) of
                  (Included v1, Excluded v2) \<Rightarrow> value_eq I v1 v2
                | (Excluded v1, Included v2) \<Rightarrow> value_eq I v1 v2
                | _ \<Rightarrow> False)))"

fun compare_starts :: "('t, 'r) range_ops \<Rightarrow> 't bound \<Rightarrow> 't bound \<Rightarrow> ordering" where
  "compare_starts I Unbounded _ = LT"
| "compare_starts I _ Unbounded = GT"
| "compare_starts I (Included v1) (Excluded v2) = (if value_eq I v1 v2 then LT else value_cmp I v1 v2)"
| "compare_starts I (Excluded v1) (Included v2) = (if value_eq I v1 v2 then GT else value_cmp I v1 v2)"
| "compare_starts I (Included v1) (Included v2) = value_cmp I v1 v2"
| "compare_starts I (Excluded v1) (Excluded v2) = value_cmp I v1 v2"

text \<open>\<open>None\<close> is the panic on a range without a bounding range.\<close>

definition compare_disjoint_range_start :: "('t, 'r) range_ops \<Rightarrow> 'r \<Rightarrow> 'r \<Rightarrow> ordering option" where
  "compare_disjoint_range_start I range1 range2 =
     do { (start1, _) \<leftarrow> i_bounding_range I range1;
          (start2, _) \<leftarrow> i_bounding_range I range2;
          Some (compare_starts I start1 start2) }"

section \<open>Edges\<close>

type_synonym 'r edge_map = "('r \<times> node_id) list"

datatype ('r, 'q) edges =
    EVersion "'r edge_map"
  | EString "'q edge_map"
  | EBoolean (high: node_id) (low: node_id)

primrec edge_nodes :: "('r, 'q) edges \<Rightarrow> node_id list" where
  "edge_nodes (EVersion es) = map snd es"
| "edge_nodes (EString es) = map snd es"
| "edge_nodes (EBoolean hi lo) = [hi, lo]"

definition has_multiple_nonterminal_children :: "('r, 'q) edges \<Rightarrow> bool" where
  "has_multiple_nonterminal_children es \<longleftrightarrow>
     2 \<le> length (filter (\<lambda>i. \<not> node_is_true i \<and> \<not> node_is_false i) (edge_nodes es))"

primrec edges_not :: "('r, 'q) edges \<Rightarrow> ('r, 'q) edges" where
  "edges_not (EVersion es) = EVersion (map (map_prod id node_not) es)"
| "edges_not (EString es) = EString (map (map_prod id node_not) es)"
| "edges_not (EBoolean hi lo) = EBoolean (node_not hi) (node_not lo)"

definition edges_from_bool :: "bool \<Rightarrow> ('r, 'q) edges" where
  "edges_from_bool complemented =
     (if complemented then EBoolean NODE_TRUE NODE_FALSE else EBoolean NODE_FALSE NODE_TRUE)"

text \<open>
  \<open>Edges::from_range\<close>: one edge per segment of the range and of its complement, sorted by their starts.
  The comparison panics on an edge without a bounding range.
\<close>

definition edge_cmp :: "('t, 'r) range_ops \<Rightarrow> 'r \<times> node_id \<Rightarrow> 'r \<times> node_id \<Rightarrow> ordering" where
  "edge_cmp I e1 e2 =
     (case compare_disjoint_range_start I (fst e1) (fst e2) of Some o1 \<Rightarrow> o1 | None \<Rightarrow> EQ)"

definition edges_from_range :: "('t, 'r) range_ops \<Rightarrow> 'r \<Rightarrow> 'r edge_map option" where
  "edges_from_range I rng =
     (let es = map (\<lambda>b. (i_from_range_bounds I b, NODE_TRUE)) (i_iter I rng) @
               map (\<lambda>b. (i_from_range_bounds I b, NODE_FALSE)) (i_iter I (i_complement I rng))
      in if 2 \<le> length es \<and> list_ex (\<lambda>e. i_bounding_range I (fst e) = None) es then None
         else Some (sort_by (edge_cmp I) es))"

text \<open>Append an edge, widening the last one when it leads to the same child and no gap is introduced.\<close>

definition push_edge :: "('t, 'r) range_ops \<Rightarrow> 'r edge_map \<Rightarrow> 'r \<Rightarrow> node_id \<Rightarrow> 'r edge_map" where
  "push_edge I es rng i =
     (if es \<noteq> [] \<and> snd (last es) = i \<and> can_conjoin I (fst (last es)) rng
      then butlast es @ [(i_union I (fst (last es)) rng, snd (last es))]
      else es @ [(rng, i)])"

fun map_ranges ::
  "('t, 'r) range_ops \<Rightarrow> node_id \<Rightarrow> (node_id \<Rightarrow> 's \<Rightarrow> (node_id \<times> 's) option) \<Rightarrow>
   'r edge_map \<Rightarrow> 'r edge_map \<Rightarrow> 's \<Rightarrow> ('r edge_map \<times> 's) option" where
  "map_ranges I parent f mapped [] s = Some (mapped, s)"
| "map_ranges I parent f mapped ((rng, child) # es) s =
     do { (child', s') \<leftarrow> f (node_negate child parent) s;
          map_ranges I parent f (push_edge I mapped rng child') es s' }"

fun apply_ranges_row ::
  "('t, 'r) range_ops \<Rightarrow> (node_id \<Rightarrow> node_id \<Rightarrow> 's \<Rightarrow> (node_id \<times> 's) option) \<Rightarrow> node_id \<Rightarrow>
   'r \<Rightarrow> node_id \<Rightarrow> 'r edge_map \<Rightarrow> 'r edge_map \<Rightarrow> 's \<Rightarrow> ('r edge_map \<times> 's) option" where
  "apply_ranges_row I f right_parent left_range left_child combined [] s = Some (combined, s)"
| "apply_ranges_row I f right_parent left_range left_child combined ((right_range, right_child) # res) s =
     (let intersection = i_intersection I right_range left_range in
      if i_is_empty I intersection
      then apply_ranges_row I f right_parent left_range left_child combined res s
      else do { (i, s') \<leftarrow> f left_child (node_negate right_child right_parent) s;
                apply_ranges_row I f right_parent left_range left_child
                  (push_edge I combined intersection i) res s' })"

fun apply_ranges ::
  "('t, 'r) range_ops \<Rightarrow> (node_id \<Rightarrow> node_id \<Rightarrow> 's \<Rightarrow> (node_id \<times> 's) option) \<Rightarrow> node_id \<Rightarrow> node_id \<Rightarrow>
   'r edge_map \<Rightarrow> 'r edge_map \<Rightarrow> 'r edge_map \<Rightarrow> 's \<Rightarrow> ('r edge_map \<times> 's) option" where
  "apply_ranges I f left_parent right_parent combined [] res s = Some (combined, s)"
| "apply_ranges I f left_parent right_parent combined ((left_range, left_child) # les) res s =
     do { (combined', s') \<leftarrow>
            apply_ranges_row I f right_parent left_range (node_negate left_child left_parent) combined res s;
          apply_ranges I f left_parent right_parent combined' les res s' }"

section \<open>The interner\<close>

record ('r, 'q) node =
  var :: variable
  children :: "('r, 'q) edges"

text \<open>The code the algebra calls in other crates: ranges of versions and strings, and the hash of a node.\<close>

record ('r, 'q) algebra_deps =
  version_ranges :: "(version, 'r) range_ops"
  string_ranges :: "(string, 'q) range_ops"
  specifier_ranges :: "'r ranges"
  hash_one :: "variable \<times> ('r, 'q) edges \<Rightarrow> u64"

record ('r, 'q) interner =
  nodes :: "('r, 'q) node list"
  unique :: "(u64 \<times> node_id) list"
  and_cache :: "node_id \<times> node_id \<Rightarrow> node_id option"
  known_exclusions :: "node_id option"

definition interner_default :: "('r, 'q) interner" where
  "interner_default = \<lparr>nodes = [], unique = [], and_cache = Map.empty, known_exclusions = None\<rparr>"

definition node_of :: "('r, 'q) interner \<Rightarrow> node_id \<Rightarrow> ('r, 'q) node option" where
  "node_of st i =
     do { k \<leftarrow> node_index i; if k < length (nodes st) then Some (nodes st ! k) else None }"

definition edge_map_eq :: "('t, 'r) range_ops \<Rightarrow> 'r edge_map \<Rightarrow> 'r edge_map \<Rightarrow> bool" where
  "edge_map_eq I = list_all2 (\<lambda>(r1, i1) (r2, i2). i_eq I r1 r2 \<and> i1 = i2)"

fun edges_eq :: "('r, 'q) algebra_deps \<Rightarrow> ('r, 'q) edges \<Rightarrow> ('r, 'q) edges \<Rightarrow> bool" where
  "edges_eq P (EVersion es1) (EVersion es2) = edge_map_eq (version_ranges P) es1 es2"
| "edges_eq P (EString es1) (EString es2) = edge_map_eq (string_ranges P) es1 es2"
| "edges_eq P (EBoolean h1 l1) (EBoolean h2 l2) = (h1 = h2 \<and> l1 = l2)"
| "edges_eq P _ _ = False"

text \<open>The lookup in the table of unique nodes; the outer \<open>None\<close> is a panic.\<close>

fun find_unique ::
  "('r, 'q) algebra_deps \<Rightarrow> ('r, 'q) interner \<Rightarrow> u64 \<Rightarrow> variable \<Rightarrow> ('r, 'q) edges \<Rightarrow>
   (u64 \<times> node_id) list \<Rightarrow> node_id option option" where
  "find_unique P st h v es [] = Some None"
| "find_unique P st h v es ((stored, i) # entries) =
     (if stored = h
      then do { n \<leftarrow> node_of st i;
                if var n = v \<and> edges_eq P (children n) es then Some (Some i)
                else find_unique P st h v es entries }
      else find_unique P st h v es entries)"

definition create_node ::
  "('r, 'q) algebra_deps \<Rightarrow> variable \<Rightarrow> ('r, 'q) edges \<Rightarrow> ('r, 'q) interner \<Rightarrow>
   (node_id \<times> ('r, 'q) interner) option" where
  "create_node P v children0 st =
     (case edge_nodes children0 of
        [] \<Rightarrow> None
      | first0 # _ \<Rightarrow>
          let flipped = is_complement first0;
              es = (if flipped then edges_not children0 else children0);
              first = (if flipped then node_not first0 else first0)
          in
          if list_all (\<lambda>i. i = first) (edge_nodes es)
          then Some (if flipped then node_not first else first, st)
          else
            let h = hash_one P (v, es) in
            do { found \<leftarrow> find_unique P st h v es (unique st);
                 (case found of
                    Some i \<Rightarrow> Some (if flipped then node_not i else i, st)
                  | None \<Rightarrow>
                      let i = node_new (length (nodes st)) False in
                      Some (if flipped then node_not i else i,
                            st\<lparr>nodes := nodes st @ [\<lparr>var = v, children = es\<rparr>],
                               unique := unique st @ [(h, i)]\<rparr>)) })"

primrec edges_map ::
  "('r, 'q) algebra_deps \<Rightarrow> node_id \<Rightarrow> (node_id \<Rightarrow> 's \<Rightarrow> (node_id \<times> 's) option) \<Rightarrow>
   ('r, 'q) edges \<Rightarrow> 's \<Rightarrow> (('r, 'q) edges \<times> 's) option" where
  "edges_map P parent f (EVersion es) s =
     do { (es', s') \<leftarrow> map_ranges (version_ranges P) parent f [] es s; Some (EVersion es', s') }"
| "edges_map P parent f (EString es) s =
     do { (es', s') \<leftarrow> map_ranges (string_ranges P) parent f [] es s; Some (EString es', s') }"
| "edges_map P parent f (EBoolean hi lo) s =
     do { (lo', s') \<leftarrow> f (node_negate lo parent) s;
          (hi', s'') \<leftarrow> f (node_negate hi parent) s';
          Some (EBoolean hi' lo', s'') }"

text \<open>Merging edges of different kinds is unreachable code.\<close>

fun edges_apply ::
  "('r, 'q) algebra_deps \<Rightarrow> (node_id \<Rightarrow> node_id \<Rightarrow> 's \<Rightarrow> (node_id \<times> 's) option) \<Rightarrow>
   ('r, 'q) edges \<Rightarrow> node_id \<Rightarrow> ('r, 'q) edges \<Rightarrow> node_id \<Rightarrow> 's \<Rightarrow> (('r, 'q) edges \<times> 's) option" where
  "edges_apply P f (EVersion les) parent (EVersion res) right_parent s =
     do { (es, s') \<leftarrow> apply_ranges (version_ranges P) f parent right_parent [] les res s; Some (EVersion es, s') }"
| "edges_apply P f (EString les) parent (EString res) right_parent s =
     do { (es, s') \<leftarrow> apply_ranges (string_ranges P) f parent right_parent [] les res s; Some (EString es, s') }"
| "edges_apply P f (EBoolean hi lo) parent (EBoolean right_hi right_lo) right_parent s =
     do { (hi', s') \<leftarrow> f (node_negate hi parent) (node_negate right_hi right_parent) s;
          (lo', s'') \<leftarrow> f (node_negate lo parent) (node_negate right_lo right_parent) s';
          Some (EBoolean hi' lo', s'') }"
| "edges_apply P f _ _ _ _ s = None"

section \<open>Disjointness\<close>

text \<open>\<open>Iterator::all\<close> with an operation that can panic.\<close>

fun all_opt :: "('a \<Rightarrow> bool option) \<Rightarrow> 'a list \<Rightarrow> bool option" where
  "all_opt f [] = Some True"
| "all_opt f (x # xs) = do { b \<leftarrow> f x; if b then all_opt f xs else Some False }"

definition is_disjoint_ranges ::
  "('t, 'r) range_ops \<Rightarrow> (node_id \<Rightarrow> node_id \<Rightarrow> bool option) \<Rightarrow> node_id \<Rightarrow> node_id \<Rightarrow>
   'r edge_map \<Rightarrow> 'r edge_map \<Rightarrow> bool option" where
  "is_disjoint_ranges I f left_parent right_parent les res =
     all_opt (\<lambda>(left_range, left_child).
       all_opt (\<lambda>(right_range, right_child).
         if i_is_disjoint I right_range left_range then Some True
         else f (node_negate left_child left_parent) (node_negate right_child right_parent)) res) les"

fun edges_is_disjoint ::
  "('r, 'q) algebra_deps \<Rightarrow> (node_id \<Rightarrow> node_id \<Rightarrow> bool option) \<Rightarrow>
   ('r, 'q) edges \<Rightarrow> node_id \<Rightarrow> ('r, 'q) edges \<Rightarrow> node_id \<Rightarrow> bool option" where
  "edges_is_disjoint P f (EVersion les) parent (EVersion res) right_parent =
     is_disjoint_ranges (version_ranges P) f parent right_parent les res"
| "edges_is_disjoint P f (EString les) parent (EString res) right_parent =
     is_disjoint_ranges (string_ranges P) f parent right_parent les res"
| "edges_is_disjoint P f (EBoolean hi lo) parent (EBoolean right_hi right_lo) right_parent =
     do { b \<leftarrow> f (node_negate hi parent) (node_negate right_hi right_parent);
          if b then f (node_negate lo parent) (node_negate right_lo right_parent) else Some False }"
| "edges_is_disjoint P f _ _ _ _ = None"

text \<open>The Shannon expansion that both disjointness tests end with.\<close>

definition disjoint_expansion ::
  "('r, 'q) algebra_deps \<Rightarrow> (node_id \<Rightarrow> node_id \<Rightarrow> bool option) \<Rightarrow> node_id \<Rightarrow> node_id \<Rightarrow>
   ('r, 'q) node \<Rightarrow> ('r, 'q) node \<Rightarrow> bool option" where
  "disjoint_expansion P f xi yi x y =
     (case cmp_of (var x) (var y) of
        LT \<Rightarrow> all_opt (\<lambda>c. f (node_negate c xi) yi) (edge_nodes (children x))
      | GT \<Rightarrow> all_opt (\<lambda>c. f (node_negate c yi) xi) (edge_nodes (children y))
      | EQ \<Rightarrow> edges_is_disjoint P f (children x) xi (children y) yi)"

fun disjointness_fuel ::
  "('r, 'q) algebra_deps \<Rightarrow> ('r, 'q) interner \<Rightarrow> nat \<Rightarrow> node_id \<Rightarrow> node_id \<Rightarrow> bool option" where
  "disjointness_fuel P st 0 xi yi = None"
| "disjointness_fuel P st (Suc n) xi yi =
     (if node_is_false xi \<or> node_is_false yi then Some True
      else if node_is_true xi \<or> node_is_true yi then Some False
      else if xi = yi then Some False
      else if node_not xi = yi then Some True
      else do { x \<leftarrow> node_of st xi;
                y \<leftarrow> node_of st yi;
                disjoint_expansion P (disjointness_fuel P st n) xi yi x y })"

definition disjointness ::
  "('r, 'q) algebra_deps \<Rightarrow> ('r, 'q) interner \<Rightarrow> node_id \<Rightarrow> node_id \<Rightarrow> bool option" where
  "disjointness P st xi yi = disjointness_fuel P st (Suc (xi + yi)) xi yi"

section \<open>Known exclusions\<close>

text \<open>
  The conjunction that \<open>exclusions\<close> uses, without knowledge about the environment. Its state is the
  interner and a local cache.
\<close>

type_synonym ('r, 'q) cached_interner = "('r, 'q) interner \<times> (node_id \<times> node_id \<Rightarrow> node_id option)"

text \<open>The Shannon expansion of a conjunction: the variable and the edges of the result.\<close>

definition and_expansion ::
  "('r, 'q) algebra_deps \<Rightarrow> (node_id \<Rightarrow> node_id \<Rightarrow> 's \<Rightarrow> (node_id \<times> 's) option) \<Rightarrow> node_id \<Rightarrow> node_id \<Rightarrow>
   ('r, 'q) node \<Rightarrow> ('r, 'q) node \<Rightarrow> 's \<Rightarrow> (variable \<times> ('r, 'q) edges \<times> 's) option" where
  "and_expansion P f xi yi x y s =
     (case cmp_of (var x) (var y) of
        LT \<Rightarrow> do { (es, s') \<leftarrow> edges_map P xi (\<lambda>i. f i yi) (children x) s; Some (var x, es, s') }
      | GT \<Rightarrow> do { (es, s') \<leftarrow> edges_map P yi (\<lambda>i. f i xi) (children y) s; Some (var y, es, s') }
      | EQ \<Rightarrow> do { (es, s') \<leftarrow> edges_apply P f (children x) xi (children y) yi s; Some (var x, es, s') })"

fun conjunction_fuel ::
  "('r, 'q) algebra_deps \<Rightarrow> nat \<Rightarrow> node_id \<Rightarrow> node_id \<Rightarrow> ('r, 'q) cached_interner \<Rightarrow>
   (node_id \<times> ('r, 'q) cached_interner) option" where
  "conjunction_fuel P 0 xi yi s = None"
| "conjunction_fuel P (Suc n) xi yi s =
     (if node_is_true xi then Some (yi, s)
      else if node_is_true yi then Some (xi, s)
      else if xi = yi then Some (xi, s)
      else if node_is_false xi \<or> node_is_false yi then Some (NODE_FALSE, s)
      else if node_not xi = yi then Some (NODE_FALSE, s)
      else (case snd s (xi, yi) of
              Some r \<Rightarrow> Some (r, s)
            | None \<Rightarrow>
                do { x \<leftarrow> node_of (fst s) xi;
                     y \<leftarrow> node_of (fst s) yi;
                     (v, es, s') \<leftarrow> and_expansion P (conjunction_fuel P n) xi yi x y s;
                     (i, st') \<leftarrow> create_node P v es (fst s');
                     Some (i, st', (snd s')((xi, yi) \<mapsto> i)) }))"

definition conjunction ::
  "('r, 'q) algebra_deps \<Rightarrow> node_id \<Rightarrow> node_id \<Rightarrow> ('r, 'q) cached_interner \<Rightarrow>
   (node_id \<times> ('r, 'q) cached_interner) option" where
  "conjunction P xi yi s = conjunction_fuel P (Suc (xi + yi)) xi yi s"

definition disjunction ::
  "('r, 'q) algebra_deps \<Rightarrow> node_id \<Rightarrow> node_id \<Rightarrow> ('r, 'q) cached_interner \<Rightarrow>
   (node_id \<times> ('r, 'q) cached_interner) option" where
  "disjunction P xi yi s =
     do { (i, s') \<leftarrow> conjunction P (node_not xi) (node_not yi) s; Some (node_not i, s') }"

text \<open>A decision on the value of a string variable: the range that \<open>Edges::from_string\<close> builds.\<close>

datatype marker_operator =
    MoEqual | MoNotEqual | MoGreaterThan | MoGreaterEqual | MoLessThan | MoLessEqual | MoTildeEqual
  | MoIn | MoNotIn | MoContains | MoNotContains

definition string_range ::
  "('r, 'q) algebra_deps \<Rightarrow> canonical_string \<Rightarrow> marker_operator \<Rightarrow> string \<Rightarrow> 'q option" where
  "string_range P k operator value =
     (let S = string_ranges P; lexicographic = (k = PlatformRelease \<or> k = PlatformVersion) in
      case operator of
        MoGreaterThan \<Rightarrow> Some (if lexicographic then i_strictly_higher_than S value else i_empty S)
      | MoGreaterEqual \<Rightarrow> Some (if lexicographic then i_higher_than S value else i_singleton S value)
      | MoLessThan \<Rightarrow> Some (if lexicographic then i_strictly_lower_than S value else i_empty S)
      | MoLessEqual \<Rightarrow> Some (if lexicographic then i_lower_than S value else i_singleton S value)
      | MoEqual \<Rightarrow> Some (i_singleton S value)
      | MoNotEqual \<Rightarrow> Some (i_complement S (i_singleton S value))
      | _ \<Rightarrow> None)"

definition edges_from_string ::
  "('r, 'q) algebra_deps \<Rightarrow> canonical_string \<Rightarrow> marker_operator \<Rightarrow> string \<Rightarrow> ('r, 'q) edges option" where
  "edges_from_string P k operator value =
     do { rng \<leftarrow> string_range P k operator value;
          es \<leftarrow> edges_from_range (string_ranges P) rng;
          Some (EString es) }"

definition string_node ::
  "('r, 'q) algebra_deps \<Rightarrow> canonical_string \<Rightarrow> marker_operator \<Rightarrow> string \<Rightarrow> ('r, 'q) interner \<Rightarrow>
   (node_id \<times> ('r, 'q) interner) option" where
  "string_node P k operator value st =
     do { es \<leftarrow> edges_from_string P k operator value; create_node P (VString k) es st }"

text \<open>The nodes \<open>exclusions\<close> creates upfront, in its order.\<close>

definition exclusion_atoms :: "(canonical_string \<times> string) list" where
  "exclusion_atoms =
     [(OsName, ''nt''), (OsName, ''posix''), (SysPlatform, ''linux''), (SysPlatform, ''darwin''),
      (SysPlatform, ''ios''), (SysPlatform, ''win32''), (PlatformSystem, ''FreeBSD''),
      (PlatformSystem, ''NetBSD''), (PlatformSystem, ''OpenBSD''), (PlatformSystem, ''SunOS''),
      (PlatformSystem, ''iOS''), (PlatformSystem, ''iPadOS''), (SysPlatform, ''aix''),
      (SysPlatform, ''android''), (SysPlatform, ''emscripten''), (SysPlatform, ''cygwin''),
      (SysPlatform, ''wasi'')]"

fun create_atoms ::
  "('r, 'q) algebra_deps \<Rightarrow> (canonical_string \<times> string) list \<Rightarrow> ('r, 'q) interner \<Rightarrow>
   (node_id list \<times> ('r, 'q) interner) option" where
  "create_atoms P [] st = Some ([], st)"
| "create_atoms P ((k, value) # atoms) st =
     do { (i, st') \<leftarrow> string_node P k MoEqual value st;
          (is, st'') \<leftarrow> create_atoms P atoms st';
          Some (i # is, st'') }"

text \<open>
  The incompatible pairs, from the ids of the atoms in the order above. As in the source, the compatible
  pairs with \<open>ios\<close> are recognised by comparing ids.
\<close>

definition exclusion_pairs :: "node_id list \<Rightarrow> (node_id \<times> node_id) list" where
  "exclusion_pairs a =
     [(a ! 0, a ! 2), (a ! 0, a ! 3), (a ! 0, a ! 4), (a ! 1, a ! 5)] @
     concat (map (\<lambda>platform_system.
       map (\<lambda>sys_platform. (platform_system, sys_platform))
         (filter (\<lambda>sys_platform. \<not> (sys_platform = a ! 4 \<and> (platform_system = a ! 10 \<or> platform_system = a ! 11)))
           [a ! 12, a ! 13, a ! 14, a ! 4, a ! 2, a ! 3, a ! 5, a ! 15, a ! 16]))
       [a ! 6, a ! 7, a ! 8, a ! 9, a ! 10, a ! 11])"

fun exclude_pairs ::
  "('r, 'q) algebra_deps \<Rightarrow> (node_id \<times> node_id) list \<Rightarrow> node_id \<Rightarrow> ('r, 'q) cached_interner \<Rightarrow>
   (node_id \<times> ('r, 'q) cached_interner) option" where
  "exclude_pairs P [] tree s = Some (tree, s)"
| "exclude_pairs P ((a, b) # pairs) tree s =
     do { (a_and_b, s') \<leftarrow> conjunction P a b s;
          (tree', s'') \<leftarrow> disjunction P tree a_and_b s';
          exclude_pairs P pairs tree' s'' }"

definition exclusions ::
  "('r, 'q) algebra_deps \<Rightarrow> ('r, 'q) interner \<Rightarrow> (node_id \<times> ('r, 'q) interner) option" where
  "exclusions P st =
     (case known_exclusions st of
        Some tree \<Rightarrow> Some (tree, st)
      | None \<Rightarrow>
          do { (atoms, st') \<leftarrow> create_atoms P exclusion_atoms st;
               (tree, st'', _) \<leftarrow> exclude_pairs P (exclusion_pairs atoms) NODE_FALSE (st', Map.empty);
               Some (tree, st''\<lparr>known_exclusions := Some tree\<rparr>) })"

section \<open>Conjunction and disjunction\<close>

definition and_nontrivial_step ::
  "('r, 'q) algebra_deps \<Rightarrow>
   (node_id \<Rightarrow> node_id \<Rightarrow> ('r, 'q) interner \<Rightarrow> (node_id \<times> ('r, 'q) interner) option) \<Rightarrow>
   node_id \<Rightarrow> node_id \<Rightarrow> ('r, 'q) interner \<Rightarrow> (node_id \<times> ('r, 'q) interner) option" where
  "and_nontrivial_step P f xi yi st =
     (let key = (if xi < yi then (xi, yi) else (yi, xi)) in
      case and_cache st key of
        Some r \<Rightarrow> Some (r, st)
      | None \<Rightarrow>
          do { x \<leftarrow> node_of st xi;
               y \<leftarrow> node_of st yi;
               (v, es, st1) \<leftarrow> and_expansion P f xi yi x y st;
               (i, st2) \<leftarrow> create_node P v es st1;
               (r, st3) \<leftarrow>
                 (if is_conflicting_variable (var x) \<and> is_conflicting_variable (var y)
                  then do { (e, st3) \<leftarrow> exclusions P st2;
                            disjoint \<leftarrow> disjointness P st3 i (node_not e);
                            Some (if disjoint then NODE_FALSE else i, st3) }
                  else Some (i, st2));
               Some (r, st3\<lparr>and_cache := (and_cache st3)(key \<mapsto> r)\<rparr>) })"

fun and_fuel ::
  "('r, 'q) algebra_deps \<Rightarrow> nat \<Rightarrow> node_id \<Rightarrow> node_id \<Rightarrow> ('r, 'q) interner \<Rightarrow>
   (node_id \<times> ('r, 'q) interner) option" where
  "and_fuel P 0 xi yi st = None"
| "and_fuel P (Suc n) xi yi st =
     (case and_trivial xi yi of
        Some r \<Rightarrow> Some (r, st)
      | None \<Rightarrow> and_nontrivial_step P (and_fuel P n) xi yi st)"

definition and_nontrivial ::
  "('r, 'q) algebra_deps \<Rightarrow> node_id \<Rightarrow> node_id \<Rightarrow> ('r, 'q) interner \<Rightarrow>
   (node_id \<times> ('r, 'q) interner) option" where
  "and_nontrivial P xi yi st = and_nontrivial_step P (and_fuel P (xi + yi)) xi yi st"

definition and_node ::
  "('r, 'q) algebra_deps \<Rightarrow> node_id \<Rightarrow> node_id \<Rightarrow> ('r, 'q) interner \<Rightarrow>
   (node_id \<times> ('r, 'q) interner) option" where
  "and_node P xi yi st =
     (case and_trivial xi yi of Some r \<Rightarrow> Some (r, st) | None \<Rightarrow> and_nontrivial P xi yi st)"

definition or_nontrivial ::
  "('r, 'q) algebra_deps \<Rightarrow> node_id \<Rightarrow> node_id \<Rightarrow> ('r, 'q) interner \<Rightarrow>
   (node_id \<times> ('r, 'q) interner) option" where
  "or_nontrivial P xi yi st =
     do { (i, st') \<leftarrow> and_nontrivial P (node_not xi) (node_not yi) st; Some (node_not i, st') }"

definition or_node ::
  "('r, 'q) algebra_deps \<Rightarrow> node_id \<Rightarrow> node_id \<Rightarrow> ('r, 'q) interner \<Rightarrow>
   (node_id \<times> ('r, 'q) interner) option" where
  "or_node P xi yi st =
     do { (i, st') \<leftarrow> and_node P (node_not xi) (node_not yi) st; Some (node_not i, st') }"

text \<open>The test that \<open>MarkerTree::is_disjoint\<close> uses, with knowledge about the environment.\<close>

definition is_disjoint_nontrivial ::
  "('r, 'q) algebra_deps \<Rightarrow> node_id \<Rightarrow> node_id \<Rightarrow> ('r, 'q) interner \<Rightarrow>
   (bool \<times> ('r, 'q) interner) option" where
  "is_disjoint_nontrivial P xi yi st =
     do { x \<leftarrow> node_of st xi;
          y \<leftarrow> node_of st yi;
          if is_conflicting_variable (var x) \<and> is_conflicting_variable (var y)
          then do { (i, st') \<leftarrow> and_node P xi yi st; Some (node_is_false i, st') }
          else do { b \<leftarrow> disjoint_expansion P (disjointness P st) xi yi x y; Some (b, st) } }"

definition is_unreachable ::
  "('r, 'q) algebra_deps \<Rightarrow> node_id \<Rightarrow> ('r, 'q) interner \<Rightarrow> (bool \<times> ('r, 'q) interner) option" where
  "is_unreachable P marker st =
     do { (e, st') \<leftarrow> exclusions P st;
          (i, st'') \<leftarrow> and_node P marker (node_not e) st';
          Some (node_is_false i, st'') }"

end
