(* ===== verification/MarkerTree.thy ===== *)
theory MarkerTree
  imports MarkerAlgebra
begin

text \<open>
  Marker environments (\<open>crates/uv-pep508/src/marker/environment.rs\<close>) and the public face of marker trees
  (\<open>marker/tree.rs\<close>): the kind of a root node, evaluation with and without an environment, and the
  boolean operations of \<open>MarkerTree\<close>. Warnings that evaluation sends to a reporter are log output and
  left out.
\<close>

section \<open>Environments\<close>

record string_version =
  sv_string :: string
  sv_version :: version

definition string_version_of :: "version \<Rightarrow> string_version" where
  "string_version_of v = \<lparr>sv_string = show_version v, sv_version = v\<rparr>"

definition string_version_from_str :: "string \<Rightarrow> (error_kind, string_version) res" where
  "string_version_from_str s = bind_res (version_from_str s) (\<lambda>v. Inr \<lparr>sv_string = s, sv_version = v\<rparr>)"

record marker_environment =
  implementation_name :: string
  implementation_version :: string_version
  os_name :: string
  platform_machine :: string
  platform_python_implementation :: string
  platform_release :: string
  platform_system :: string
  platform_version :: string
  python_full_version :: string_version
  python_version :: string_version
  sys_platform :: string

primrec get_version :: "marker_environment \<Rightarrow> canonical_version \<Rightarrow> version" where
  "get_version env ImplementationVersion = sv_version (implementation_version env)"
| "get_version env PythonFullVersion = sv_version (python_full_version env)"

primrec get_string :: "marker_environment \<Rightarrow> canonical_string \<Rightarrow> string" where
  "get_string env ImplementationName = implementation_name env"
| "get_string env OsName = os_name env"
| "get_string env PlatformMachine = platform_machine env"
| "get_string env PlatformPythonImplementation = platform_python_implementation env"
| "get_string env PlatformRelease = platform_release env"
| "get_string env PlatformSystem = platform_system env"
| "get_string env PlatformVersion = platform_version env"
| "get_string env SysPlatform = sys_platform env"

datatype extras_environment =
    ExtrasEnv "extra_name list"
  | Pep751Env "extra_name list" "group_name list"

primrec env_extra :: "extras_environment \<Rightarrow> extra_name list" where
  "env_extra (ExtrasEnv extra) = extra"
| "env_extra (Pep751Env _ _) = []"

primrec env_extras :: "extras_environment \<Rightarrow> extra_name list" where
  "env_extras (ExtrasEnv _) = []"
| "env_extras (Pep751Env extras _) = extras"

primrec env_dependency_groups :: "extras_environment \<Rightarrow> group_name list" where
  "env_dependency_groups (ExtrasEnv _) = []"
| "env_dependency_groups (Pep751Env _ groups) = groups"

section \<open>The kind of a tree\<close>

datatype ('r, 'q) marker_tree_kind =
    KTrue
  | KFalse
  | KVersion node_id canonical_version "'r edge_map"
  | KVersionString node_id canonical_string "'r edge_map"
  | KString node_id canonical_string "'q edge_map"
  | KIn canonical_string string node_id node_id
  | KContains canonical_string string node_id node_id
  | KList list_pair node_id node_id
  | KExtra extra_name node_id node_id

text \<open>The fields \<open>high\<close> and \<open>low\<close> are the last two arguments. \<open>None\<close> is a panic or unreachable code.\<close>

definition tree_kind :: "('r, 'q) interner \<Rightarrow> node_id \<Rightarrow> ('r, 'q) marker_tree_kind option" where
  "tree_kind st i =
     (if node_is_true i then Some KTrue
      else if node_is_false i then Some KFalse
      else do { n \<leftarrow> node_of st i;
                (case (var n, children n) of
                   (VVersion k, EVersion es) \<Rightarrow> Some (KVersion i k es)
                 | (VString k, EString es) \<Rightarrow> Some (KString i k es)
                 | (VVersionString k, EVersion es) \<Rightarrow> Some (KVersionString i k es)
                 | (VIn k value, EBoolean hi lo) \<Rightarrow> Some (KIn k value (node_negate hi i) (node_negate lo i))
                 | (VContains k value, EBoolean hi lo) \<Rightarrow>
                     Some (KContains k value (node_negate hi i) (node_negate lo i))
                 | (VList p, EBoolean hi lo) \<Rightarrow> Some (KList p (node_negate hi i) (node_negate lo i))
                 | (VExtra name, EBoolean hi lo) \<Rightarrow> Some (KExtra name (node_negate hi i) (node_negate lo i))
                 | _ \<Rightarrow> None) })"

definition tree_edges :: "node_id \<Rightarrow> 'r edge_map \<Rightarrow> ('r \<times> node_id) list" where
  "tree_edges i es = map (\<lambda>(rng, child). (rng, node_negate child i)) es"

definition tree_edge :: "node_id \<Rightarrow> node_id \<Rightarrow> bool \<Rightarrow> node_id" where
  "tree_edge hi lo value = (if value then hi else lo)"

section \<open>Evaluation\<close>

text \<open>\<open>str::contains\<close>.\<close>

fun str_contains :: "string \<Rightarrow> string \<Rightarrow> bool" where
  "str_contains [] needle = (needle = [])"
| "str_contains (c # cs) needle = (take (length needle) (c # cs) = needle \<or> str_contains cs needle)"

text \<open>The loop over the edges: the tree of the first range that contains the value.\<close>

fun first_edge :: "('r \<Rightarrow> bool) \<Rightarrow> ('r \<times> 'a) list \<Rightarrow> 'a option" where
  "first_edge inside [] = None"
| "first_edge inside ((rng, tree) # es) = (if inside rng then Some tree else first_edge inside es)"

text \<open>The subtree that evaluation continues with; the inner \<open>None\<close> is the result \<open>false\<close>.\<close>

primrec eval_edge ::
  "('r, 'q) algebra_deps \<Rightarrow> marker_environment \<Rightarrow> extras_environment \<Rightarrow> ('r, 'q) marker_tree_kind \<Rightarrow> node_id option" where
  "eval_edge P env extras KTrue = Some NODE_TRUE"
| "eval_edge P env extras KFalse = Some NODE_FALSE"
| "eval_edge P env extras (KVersion i k es) =
     first_edge (\<lambda>rng. i_contains (version_ranges P) rng (get_version env k)) (tree_edges i es)"
| "eval_edge P env extras (KString i k es) =
     first_edge (\<lambda>rng. i_contains (string_ranges P) rng (get_string env k)) (tree_edges i es)"
| "eval_edge P env extras (KVersionString i k es) =
     (case version_from_str (get_string env k) of
        Inl _ \<Rightarrow> None
      | Inr v \<Rightarrow> first_edge (\<lambda>rng. i_contains (version_ranges P) rng v) (tree_edges i es))"
| "eval_edge P env extras (KIn k value hi lo) =
     Some (tree_edge hi lo (str_contains value (get_string env k)))"
| "eval_edge P env extras (KContains k value hi lo) =
     Some (tree_edge hi lo (str_contains (get_string env k) value))"
| "eval_edge P env extras (KExtra name hi lo) =
     Some (tree_edge hi lo (List.member (env_extra extras) name))"
| "eval_edge P env extras (KList p hi lo) =
     (case p of
        PairExtras extra \<Rightarrow> Some (tree_edge hi lo (List.member (env_extras extras) extra))
      | PairDependencyGroup name \<Rightarrow> Some (tree_edge hi lo (List.member (env_dependency_groups extras) name))
      | PairArbitrary _ _ \<Rightarrow> None)"

fun evaluate_fuel ::
  "('r, 'q) algebra_deps \<Rightarrow> ('r, 'q) interner \<Rightarrow> nat \<Rightarrow> marker_environment \<Rightarrow> extras_environment \<Rightarrow>
   node_id \<Rightarrow> bool option" where
  "evaluate_fuel P st 0 env extras i = None"
| "evaluate_fuel P st (Suc n) env extras i =
     do { k \<leftarrow> tree_kind st i;
          (case k of
             KTrue \<Rightarrow> Some True
           | KFalse \<Rightarrow> Some False
           | _ \<Rightarrow> (case eval_edge P env extras k of
                    Some tree \<Rightarrow> evaluate_fuel P st n env extras tree
                  | None \<Rightarrow> Some False)) }"

definition evaluate_reporter_impl ::
  "('r, 'q) algebra_deps \<Rightarrow> ('r, 'q) interner \<Rightarrow> marker_environment \<Rightarrow> extras_environment \<Rightarrow>
   node_id \<Rightarrow> bool option" where
  "evaluate_reporter_impl P st env extras i = evaluate_fuel P st (Suc i) env extras i"

definition evaluate ::
  "('r, 'q) algebra_deps \<Rightarrow> ('r, 'q) interner \<Rightarrow> marker_environment \<Rightarrow> extra_name list \<Rightarrow>
   node_id \<Rightarrow> bool option" where
  "evaluate P st env extras i = evaluate_reporter_impl P st env (ExtrasEnv extras) i"

definition evaluate_pep751 ::
  "('r, 'q) algebra_deps \<Rightarrow> ('r, 'q) interner \<Rightarrow> marker_environment \<Rightarrow> extra_name list \<Rightarrow> group_name list \<Rightarrow>
   node_id \<Rightarrow> bool option" where
  "evaluate_pep751 P st env extras groups i = evaluate_reporter_impl P st env (Pep751Env extras groups) i"

text \<open>\<open>Iterator::any\<close> with an operation that can panic.\<close>

fun any_opt :: "('a \<Rightarrow> bool option) \<Rightarrow> 'a list \<Rightarrow> bool option" where
  "any_opt f [] = Some False"
| "any_opt f (x # xs) = do { b \<leftarrow> f x; if b then Some True else any_opt f xs }"

text \<open>The subtrees of a node whose variable is not an extra, in the order of \<open>edges\<close> and \<open>children\<close>.\<close>

primrec kind_children :: "('r, 'q) marker_tree_kind \<Rightarrow> node_id list" where
  "kind_children KTrue = []"
| "kind_children KFalse = []"
| "kind_children (KVersion i k es) = map snd (tree_edges i es)"
| "kind_children (KVersionString i k es) = map snd (tree_edges i es)"
| "kind_children (KString i k es) = map snd (tree_edges i es)"
| "kind_children (KIn k value hi lo) = [hi, lo]"
| "kind_children (KContains k value hi lo) = [hi, lo]"
| "kind_children (KList p hi lo) = [hi, lo]"
| "kind_children (KExtra name hi lo) = [hi, lo]"

fun evaluate_extras_fuel :: "('r, 'q) interner \<Rightarrow> nat \<Rightarrow> extra_name list \<Rightarrow> node_id \<Rightarrow> bool option" where
  "evaluate_extras_fuel st 0 extras i = None"
| "evaluate_extras_fuel st (Suc n) extras i =
     do { k \<leftarrow> tree_kind st i;
          (case k of
             KTrue \<Rightarrow> Some True
           | KFalse \<Rightarrow> Some False
           | KExtra name hi lo \<Rightarrow> evaluate_extras_fuel st n extras (tree_edge hi lo (List.member extras name))
           | _ \<Rightarrow> any_opt (evaluate_extras_fuel st n extras) (kind_children k)) }"

definition evaluate_extras :: "('r, 'q) interner \<Rightarrow> extra_name list \<Rightarrow> node_id \<Rightarrow> bool option" where
  "evaluate_extras st extras i = evaluate_extras_fuel st (Suc i) extras i"

fun evaluate_only_extras_fuel :: "('r, 'q) interner \<Rightarrow> nat \<Rightarrow> extra_name list \<Rightarrow> node_id \<Rightarrow> bool option" where
  "evaluate_only_extras_fuel st 0 extras i = None"
| "evaluate_only_extras_fuel st (Suc n) extras i =
     do { k \<leftarrow> tree_kind st i;
          (case k of
             KTrue \<Rightarrow> Some True
           | KFalse \<Rightarrow> Some False
           | KExtra name hi lo \<Rightarrow> evaluate_only_extras_fuel st n extras (tree_edge hi lo (List.member extras name))
           | _ \<Rightarrow> all_opt (evaluate_only_extras_fuel st n extras) (kind_children k)) }"

definition evaluate_only_extras :: "('r, 'q) interner \<Rightarrow> extra_name list \<Rightarrow> node_id \<Rightarrow> bool option" where
  "evaluate_only_extras st extras i = evaluate_only_extras_fuel st (Suc i) extras i"

definition evaluate_optional_environment ::
  "('r, 'q) algebra_deps \<Rightarrow> ('r, 'q) interner \<Rightarrow> marker_environment option \<Rightarrow> extra_name list \<Rightarrow>
   node_id \<Rightarrow> bool option" where
  "evaluate_optional_environment P st env extras i =
     (case env of
        None \<Rightarrow> evaluate_extras st extras i
      | Some env' \<Rightarrow> evaluate_reporter_impl P st env' (ExtrasEnv extras) i)"

section \<open>Boolean operations\<close>

definition tree_negate :: "node_id \<Rightarrow> node_id" where
  "tree_negate i = node_not i"

definition tree_and ::
  "('r, 'q) algebra_deps \<Rightarrow> node_id \<Rightarrow> node_id \<Rightarrow> ('r, 'q) interner \<Rightarrow>
   (node_id \<times> ('r, 'q) interner) option" where
  "tree_and P x y st =
     (case and_trivial x y of Some i \<Rightarrow> Some (i, st) | None \<Rightarrow> and_nontrivial P x y st)"

definition tree_or ::
  "('r, 'q) algebra_deps \<Rightarrow> node_id \<Rightarrow> node_id \<Rightarrow> ('r, 'q) interner \<Rightarrow>
   (node_id \<times> ('r, 'q) interner) option" where
  "tree_or P x y st =
     (case or_trivial x y of Some i \<Rightarrow> Some (i, st) | None \<Rightarrow> or_nontrivial P x y st)"

definition tree_implies ::
  "('r, 'q) algebra_deps \<Rightarrow> node_id \<Rightarrow> node_id \<Rightarrow> ('r, 'q) interner \<Rightarrow>
   (node_id \<times> ('r, 'q) interner) option" where
  "tree_implies P x consequent st = tree_or P (tree_negate x) consequent st"

definition tree_is_disjoint ::
  "('r, 'q) algebra_deps \<Rightarrow> node_id \<Rightarrow> node_id \<Rightarrow> ('r, 'q) interner \<Rightarrow>
   (bool \<times> ('r, 'q) interner) option" where
  "tree_is_disjoint P x y st =
     (case is_disjoint_trivial x y of Some b \<Rightarrow> Some (b, st) | None \<Rightarrow> is_disjoint_nontrivial P x y st)"

definition tree_is_unreachable ::
  "('r, 'q) algebra_deps \<Rightarrow> node_id \<Rightarrow> ('r, 'q) interner \<Rightarrow> (bool \<times> ('r, 'q) interner) option" where
  "tree_is_unreachable P i st =
     (if node_is_true i \<or> node_is_false i then Some (node_is_false i, st) else is_unreachable P i st)"

end
