(* ===== verification/MarkerSemantics.thy ===== *)
theory MarkerSemantics
  imports MarkerTree
begin

text \<open>
  The meaning of marker trees: the truth value an id denotes in an environment, by the path of edges that
  the environment selects. The theory fixes the laws of the range type and the invariant of the interner,
  and shows that evaluation is total and returns the denoted value, that every id denotes a value where
  the environment decides the variables, that complementing an id negates its value, and that values are
  stable when the interner grows.
\<close>

section \<open>Node ids\<close>

lemma node_not_eq: "node_not i = (if even i then i + 1 else i - 1)"
  unfolding node_not_def by (simp add: xor_one_eq del: One_nat_def)

lemma is_complement_eq: "is_complement i \<longleftrightarrow> odd i"
  unfolding is_complement_def by (simp add: and_one_eq odd_iff_mod_2_eq_one)

lemma node_new_eq: "node_new k c = 2 * k + 2 + of_bool c"
  unfolding node_new_def by (cases c) (simp_all add: push_bit_eq_mult or_one_eq del: One_nat_def)

lemma node_index_eq: "node_index i = (if i < 2 then None else Some (i div 2 - 1))"
  unfolding node_index_def by (auto simp: drop_bit_eq_div)

lemma node_not_not [simp]: "node_not (node_not i) = i"
  by (auto simp: node_not_eq)

lemma node_not_neq [simp]: "node_not i \<noteq> i" "i \<noteq> node_not i"
  by (auto simp: node_not_eq elim!: evenE oddE)

lemma node_not_inject [simp]: "node_not i = node_not j \<longleftrightarrow> i = j"
  by (metis node_not_not)

lemma node_not_terminals [simp]: "node_not NODE_TRUE = NODE_FALSE" "node_not NODE_FALSE = NODE_TRUE"
  by (simp_all add: node_not_eq NODE_TRUE_def NODE_FALSE_def)

lemma is_complement_not [simp]: "is_complement (node_not i) \<longleftrightarrow> \<not> is_complement i"
  by (auto simp: node_not_eq is_complement_eq)

lemma node_not_less_even: "even b \<Longrightarrow> node_not i < b \<longleftrightarrow> i < b"
  by (auto simp: node_not_eq elim!: evenE oddE)

lemma node_not_small [simp]: "node_not i < 2 \<longleftrightarrow> i < 2"
  by (simp add: node_not_less_even)

lemma node_negate_simps [simp]:
  "node_negate (node_not i) p = node_not (node_negate i p)"
  "node_negate i (node_not p) = node_not (node_negate i p)"
  by (simp_all add: node_negate_def)

lemma node_negate_less_even: "even b \<Longrightarrow> node_negate i p < b \<longleftrightarrow> i < b"
  by (simp add: node_negate_def node_not_less_even)

lemma node_index_not [simp]: "node_index (node_not i) = node_index i"
  by (auto simp: node_index_eq node_not_eq elim!: evenE oddE)

lemma node_index_new [simp]: "node_index (node_new k c) = Some k"
  by (cases c) (simp_all add: node_index_eq node_new_eq)

lemma node_index_small: "node_index i = None \<longleftrightarrow> i < 2"
  by (simp add: node_index_eq)

lemma terminal_iff: "i < 2 \<longleftrightarrow> i = NODE_TRUE \<or> i = NODE_FALSE"
  by (auto simp: NODE_TRUE_def NODE_FALSE_def)

lemma node_of_not [simp]: "node_of st (node_not i) = node_of st i"
  by (simp add: node_of_def)

section \<open>The laws of ranges\<close>

primrec bound_ok :: "('t \<Rightarrow> bool) \<Rightarrow> 't bound \<Rightarrow> bool" where
  "bound_ok T (Included v) = T v"
| "bound_ok T (Excluded v) = T v"
| "bound_ok T Unbounded = True"

text \<open>
  What the algebra relies on: \<open>T\<close> holds of the values on which the order of the value type is total and
  \<open>K\<close> of the ranges whose bounds satisfy \<open>T\<close>. The set operations act on membership as their names say,
  the segments of a range cover exactly the range and have bounds, and equal ranges have equal members.
\<close>

definition range_closed :: "('t, 'r) range_ops \<Rightarrow> ('t \<Rightarrow> bool) \<Rightarrow> ('r \<Rightarrow> bool) \<Rightarrow> bool" where
  "range_closed I T K \<longleftrightarrow>
     K (i_empty I) \<and>
     (\<forall>a. T a \<longrightarrow> K (i_singleton I a) \<and> K (i_lower_than I a) \<and> K (i_strictly_lower_than I a) \<and>
        K (i_higher_than I a) \<and> K (i_strictly_higher_than I a)) \<and>
     (\<forall>r. K r \<longrightarrow> K (i_complement I r)) \<and>
     (\<forall>r s. K r \<longrightarrow> K s \<longrightarrow> K (i_intersection I r s) \<and> K (i_union I r s)) \<and>
     (\<forall>r. K r \<longrightarrow> (\<forall>b\<in>set (i_iter I r). bound_ok T (fst b) \<and> bound_ok T (snd b) \<and>
        i_bounding_range I (i_from_range_bounds I b) \<noteq> None)) \<and>
     (\<forall>b. bound_ok T (fst b) \<longrightarrow> bound_ok T (snd b) \<longrightarrow> K (i_from_range_bounds I b)) \<and>
     (\<forall>bs. (\<forall>b\<in>set bs. bound_ok T (fst b) \<and> bound_ok T (snd b)) \<longrightarrow> K (i_collect I bs)) \<and>
     (\<forall>r. i_eq I r r)"

text \<open>Membership, with the order of the value type.\<close>

fun above_start :: "('t, 'r) range_ops \<Rightarrow> 't bound \<Rightarrow> 't \<Rightarrow> bool" where
  "above_start I (Included a) v = (value_cmp I a v \<noteq> GT)"
| "above_start I (Excluded a) v = (value_cmp I a v = LT)"
| "above_start I Unbounded v = True"

fun below_end :: "('t, 'r) range_ops \<Rightarrow> 't bound \<Rightarrow> 't \<Rightarrow> bool" where
  "below_end I (Included b) v = (value_cmp I v b \<noteq> GT)"
| "below_end I (Excluded b) v = (value_cmp I v b = LT)"
| "below_end I Unbounded v = True"

definition range_members :: "('t, 'r) range_ops \<Rightarrow> ('t \<Rightarrow> bool) \<Rightarrow> ('r \<Rightarrow> bool) \<Rightarrow> bool" where
  "range_members I T K \<longleftrightarrow>
     (\<forall>v. T v \<longrightarrow>
        \<not> i_contains I (i_empty I) v \<and>
        (\<forall>a. T a \<longrightarrow>
           (i_contains I (i_singleton I a) v \<longleftrightarrow> value_eq I v a) \<and>
           (i_contains I (i_lower_than I a) v \<longleftrightarrow> value_cmp I v a \<noteq> GT) \<and>
           (i_contains I (i_strictly_lower_than I a) v \<longleftrightarrow> value_cmp I v a = LT) \<and>
           (i_contains I (i_higher_than I a) v \<longleftrightarrow> value_cmp I a v \<noteq> GT) \<and>
           (i_contains I (i_strictly_higher_than I a) v \<longleftrightarrow> value_cmp I a v = LT)) \<and>
        (\<forall>r. K r \<longrightarrow>
           (i_contains I (i_complement I r) v \<longleftrightarrow> \<not> i_contains I r v) \<and>
           (i_contains I r v \<longleftrightarrow> (\<exists>b\<in>set (i_iter I r). i_contains I (i_from_range_bounds I b) v)) \<and>
           (i_is_empty I r \<longrightarrow> \<not> i_contains I r v)) \<and>
        (\<forall>r s. K r \<longrightarrow> K s \<longrightarrow>
           (i_contains I (i_intersection I r s) v \<longleftrightarrow> i_contains I r v \<and> i_contains I s v) \<and>
           (i_contains I (i_union I r s) v \<longleftrightarrow> i_contains I r v \<or> i_contains I s v) \<and>
           (i_is_disjoint I r s \<longrightarrow> \<not> (i_contains I r v \<and> i_contains I s v)) \<and>
           (i_eq I r s \<longrightarrow> i_contains I r v = i_contains I s v)) \<and>
        (\<forall>b. bound_ok T (fst b) \<longrightarrow> bound_ok T (snd b) \<longrightarrow>
           (i_contains I (i_from_range_bounds I b) v \<longleftrightarrow> above_start I (fst b) v \<and> below_end I (snd b) v)) \<and>
        (\<forall>bs. (\<forall>b\<in>set bs. bound_ok T (fst b) \<and> bound_ok T (snd b)) \<longrightarrow>
           (i_contains I (i_collect I bs) v \<longleftrightarrow> (\<exists>b\<in>set bs. i_contains I (i_from_range_bounds I b) v))))"

definition range_laws :: "('t, 'r) range_ops \<Rightarrow> ('t \<Rightarrow> bool) \<Rightarrow> ('r \<Rightarrow> bool) \<Rightarrow> bool" where
  "range_laws I T K \<longleftrightarrow> range_closed I T K \<and> range_members I T K"

text \<open>
  The laws of all parameters: versions compare with \<open>Version\<close>'s order and strings bytewise, the ranges of
  specifiers are the ranges of the algebra, and equal edges have equal hashes.
\<close>

definition deps_laws :: "('r, 'q) algebra_deps \<Rightarrow> ('r \<Rightarrow> bool) \<Rightarrow> ('q \<Rightarrow> bool) \<Rightarrow> bool" where
  "deps_laws P KV KS \<longleftrightarrow>
     range_laws (version_ranges P) ok_version KV \<and>
     range_laws (string_ranges P) (\<lambda>_. True) KS \<and>
     value_eq (version_ranges P) = version_eq \<and> value_cmp (version_ranges P) = version_cmp \<and>
     value_eq (string_ranges P) = (=) \<and> value_cmp (string_ranges P) = cmp_of \<and>
     ranges_laws (specifier_ranges P) KV \<and>
     r_contains (specifier_ranges P) = i_contains (version_ranges P) \<and>
     (\<forall>v es es'. edges_eq P es es' \<longrightarrow> hash_one P (v, es) = hash_one P (v, es'))"

lemmas range_closedD = range_laws_def [THEN iffD1, THEN conjunct1]
lemmas range_membersD = range_laws_def [THEN iffD1, THEN conjunct2]

lemma deps_lawsD:
  assumes "deps_laws P KV KS"
  shows "range_laws (version_ranges P) ok_version KV" "range_laws (string_ranges P) (\<lambda>_. True) KS"
    "value_eq (version_ranges P) = version_eq" "value_cmp (version_ranges P) = version_cmp"
    "value_eq (string_ranges P) = (=)" "value_cmp (string_ranges P) = cmp_of"
    "ranges_laws (specifier_ranges P) KV" "r_contains (specifier_ranges P) = i_contains (version_ranges P)"
    "edges_eq P es es' \<Longrightarrow> hash_one P (v, es) = hash_one P (v, es')"
  using assms by (auto simp: deps_laws_def)

section \<open>Choices\<close>

text \<open>What an environment says about a variable; \<open>CNone\<close> when evaluation gives up and returns \<open>false\<close>.\<close>

type_synonym context_env = "marker_environment \<times> extras_environment"

datatype choice = CVersion version | CString string | CBool bool | CNone

primrec pair_choice :: "extras_environment \<Rightarrow> list_pair \<Rightarrow> choice" where
  "pair_choice ex (PairExtras extra) = CBool (List.member (env_extras ex) extra)"
| "pair_choice ex (PairDependencyGroup name) = CBool (List.member (env_dependency_groups ex) name)"
| "pair_choice ex (PairArbitrary k s) = CNone"

primrec choice_of :: "context_env \<Rightarrow> variable \<Rightarrow> choice" where
  "choice_of e (VString k) = CString (get_string (fst e) k)"
| "choice_of e (VVersionString k) =
     (case version_from_str (get_string (fst e) k) of Inl _ \<Rightarrow> CNone | Inr v \<Rightarrow> CVersion v)"
| "choice_of e (VVersion k) = CVersion (get_version (fst e) k)"
| "choice_of e (VIn k value) = CBool (str_contains value (get_string (fst e) k))"
| "choice_of e (VContains k value) = CBool (str_contains (get_string (fst e) k) value)"
| "choice_of e (VExtra name) = CBool (List.member (env_extra (snd e)) name)"
| "choice_of e (VList p) = pair_choice (snd e) p"

fun select :: "('r, 'q) algebra_deps \<Rightarrow> choice \<Rightarrow> ('r, 'q) edges \<Rightarrow> node_id option" where
  "select P (CVersion v) (EVersion es) = first_edge (\<lambda>rng. i_contains (version_ranges P) rng v) es"
| "select P (CString s) (EString es) = first_edge (\<lambda>rng. i_contains (string_ranges P) rng s) es"
| "select P (CBool b) (EBoolean hi lo) = Some (if b then hi else lo)"
| "select P _ _ = None"

text \<open>The edges have the kind of the variable; the environment decides the variable.\<close>

fun typed :: "variable \<Rightarrow> ('r, 'q) edges \<Rightarrow> bool" where
  "typed (VString _) (EString _) = True"
| "typed (VString _) _ = False"
| "typed (VVersionString _) (EVersion _) = True"
| "typed (VVersionString _) _ = False"
| "typed (VVersion _) (EVersion _) = True"
| "typed (VVersion _) _ = False"
| "typed _ (EBoolean _ _) = True"
| "typed _ _ = False"

definition decides :: "context_env \<Rightarrow> variable \<Rightarrow> bool" where
  "decides e v \<longleftrightarrow> choice_of e v \<noteq> CNone"

definition env_ok :: "context_env \<Rightarrow> bool" where
  "env_ok e \<longleftrightarrow> (\<forall>k. ok_version (get_version (fst e) k))"

lemma first_edge_map: "first_edge inside (map (\<lambda>(rng, c). (rng, f c)) es) = map_option f (first_edge inside es)"
  by (induction es) auto

lemma first_edge_in: "first_edge inside es = Some c \<Longrightarrow> \<exists>rng. (rng, c) \<in> set es \<and> inside rng"
  by (induction es) (auto split: if_splits)

lemma first_edge_append:
  "first_edge inside (es1 @ es2) =
     (case first_edge inside es1 of Some c \<Rightarrow> Some c | None \<Rightarrow> first_edge inside es2)"
  by (induction es1) auto

lemma first_edge_None: "first_edge inside es = None \<longleftrightarrow> (\<forall>(rng, c)\<in>set es. \<not> inside rng)"
  by (induction es) (auto split: if_splits)

lemma select_in: "select P ch es = Some c \<Longrightarrow> c \<in> set (edge_nodes es)"
  by (cases "(P, ch, es)" rule: select.cases)
    (auto dest!: first_edge_in simp: image_iff split: if_splits intro!: bexI)

lemma eval_edge_select:
  assumes "node_of st i = Some n" "\<not> i < 2" "typed (var n) (children n)"
  obtains k where "tree_kind st i = Some k" "k \<noteq> KTrue" "k \<noteq> KFalse"
    "eval_edge P (fst e) (snd e) k =
       map_option (\<lambda>c. node_negate c i) (select P (choice_of e (var n)) (children n))"
proof -
  have "\<not> node_is_true i" "\<not> node_is_false i"
    using assms(2) by (auto simp: node_is_true_def node_is_false_def terminal_iff)
  then show thesis
    using assms that
    by (cases "var n"; cases "children n")
      (auto simp: tree_kind_def tree_edges_def tree_edge_def first_edge_map split: sum.splits list_pair.splits)
qed

section \<open>The invariant of the store\<close>

definition valid :: "('r, 'q) interner \<Rightarrow> node_id \<Rightarrow> bool" where
  "valid st i \<longleftrightarrow> i < 2 * length (nodes st) + 2"

text \<open>The variable \<open>v\<close> comes before every variable of the tree.\<close>

definition below :: "('r, 'q) interner \<Rightarrow> variable \<Rightarrow> node_id \<Rightarrow> bool" where
  "below st v i \<longleftrightarrow> (\<forall>n. node_of st i = Some n \<longrightarrow> v < var n)"

definition all_K :: "('r \<Rightarrow> bool) \<Rightarrow> ('r \<times> 'a) list \<Rightarrow> bool" where
  "all_K K es \<longleftrightarrow> (\<forall>(rng, c)\<in>set es. K rng)"

lemma all_K_simps [simp]:
  "all_K K []" "all_K K ((rng, c) # es) \<longleftrightarrow> K rng \<and> all_K K es"
  "all_K K (es1 @ es2) \<longleftrightarrow> all_K K es1 \<and> all_K K es2"
  by (auto simp: all_K_def)

primrec ranges_ok :: "('r \<Rightarrow> bool) \<Rightarrow> ('q \<Rightarrow> bool) \<Rightarrow> ('r, 'q) edges \<Rightarrow> bool" where
  "ranges_ok KV KS (EVersion es) \<longleftrightarrow> all_K KV es"
| "ranges_ok KV KS (EString es) \<longleftrightarrow> all_K KS es"
| "ranges_ok KV KS (EBoolean _ _) \<longleftrightarrow> True"

text \<open>Every value has an edge.\<close>

primrec covers :: "('r, 'q) algebra_deps \<Rightarrow> ('r, 'q) edges \<Rightarrow> bool" where
  "covers P (EVersion es) \<longleftrightarrow>
     (\<forall>v. ok_version v \<longrightarrow> first_edge (\<lambda>rng. i_contains (version_ranges P) rng v) es \<noteq> None)"
| "covers P (EString es) \<longleftrightarrow> (\<forall>s. first_edge (\<lambda>rng. i_contains (string_ranges P) rng s) es \<noteq> None)"
| "covers P (EBoolean _ _) \<longleftrightarrow> True"

text \<open>Edges that a node on variable \<open>v\<close> may have.\<close>

definition edges_ok ::
  "('r, 'q) algebra_deps \<Rightarrow> ('r \<Rightarrow> bool) \<Rightarrow> ('q \<Rightarrow> bool) \<Rightarrow> variable \<Rightarrow> ('r, 'q) edges \<Rightarrow> bool" where
  "edges_ok P KV KS v es \<longleftrightarrow> typed v es \<and> ranges_ok KV KS es \<and> covers P es \<and> edge_nodes es \<noteq> []"

text \<open>Reduced: the first edge is not complemented, and the children are not all the same.\<close>

definition reduced :: "('r, 'q) edges \<Rightarrow> bool" where
  "reduced es \<longleftrightarrow>
     (case edge_nodes es of [] \<Rightarrow> False | i # is \<Rightarrow> \<not> is_complement i \<and> \<not> list_all (\<lambda>j. j = i) is)"

definition node_eq :: "('r, 'q) algebra_deps \<Rightarrow> ('r, 'q) node \<Rightarrow> ('r, 'q) node \<Rightarrow> bool" where
  "node_eq P m n \<longleftrightarrow> var m = var n \<and> edges_eq P (children m) (children n)"

definition node_hash :: "('r, 'q) algebra_deps \<Rightarrow> ('r, 'q) node \<Rightarrow> u64" where
  "node_hash P n = hash_one P (var n, children n)"

definition store_ok ::
  "('r, 'q) algebra_deps \<Rightarrow> ('r \<Rightarrow> bool) \<Rightarrow> ('q \<Rightarrow> bool) \<Rightarrow> ('r, 'q) interner \<Rightarrow> bool" where
  "store_ok P KV KS st \<longleftrightarrow>
     (\<forall>k < length (nodes st).
        let n = nodes st ! k in
        edges_ok P KV KS (var n) (children n) \<and> reduced (children n) \<and>
        (\<forall>c\<in>set (edge_nodes (children n)). c < 2 * k + 2 \<and> below st (var n) c)) \<and>
     unique st = map (\<lambda>k. (node_hash P (nodes st ! k), node_new k False)) [0..<length (nodes st)] \<and>
     (\<forall>k < length (nodes st). \<forall>j < k. \<not> node_eq P (nodes st ! j) (nodes st ! k))"

text \<open>
  The value of an id, along the edges that the environment selects. An id has no value where the path
  meets a variable that the environment does not decide; evaluation returns \<open>false\<close> there.
\<close>

inductive denotes :: "('r, 'q) algebra_deps \<Rightarrow> ('r, 'q) interner \<Rightarrow> context_env \<Rightarrow> node_id \<Rightarrow> bool \<Rightarrow> bool"
  for P st e where
  denotes_true: "denotes P st e NODE_TRUE True"
| denotes_false: "denotes P st e NODE_FALSE False"
| denotes_node: "node_of st i = Some n \<Longrightarrow> select P (choice_of e (var n)) (children n) = Some c \<Longrightarrow>
    denotes P st e (node_negate c i) b \<Longrightarrow> denotes P st e i b"

lemma valid_terminals [simp]: "valid st NODE_TRUE" "valid st NODE_FALSE"
  by (simp_all add: valid_def NODE_TRUE_def NODE_FALSE_def)

lemma valid_not [simp]: "valid st (node_not i) \<longleftrightarrow> valid st i"
  by (simp add: valid_def node_not_less_even)

lemma valid_negate [simp]: "valid st (node_negate i p) \<longleftrightarrow> valid st i"
  by (simp add: node_negate_def)

lemma below_not [simp]: "below st v (node_not i) \<longleftrightarrow> below st v i"
  by (simp add: below_def)

lemma below_negate [simp]: "below st v (node_negate i p) \<longleftrightarrow> below st v i"
  by (simp add: node_negate_def)

lemma node_of_small: "i < 2 \<Longrightarrow> node_of st i = None"
  by (simp add: node_of_def node_index_eq)

lemma below_terminals [simp]: "below st v NODE_TRUE" "below st v NODE_FALSE"
  by (simp_all add: below_def node_of_small NODE_TRUE_def NODE_FALSE_def)

lemma node_of_Some_iff:
  "node_of st i = Some n \<longleftrightarrow> \<not> i < 2 \<and> i div 2 - 1 < length (nodes st) \<and> n = nodes st ! (i div 2 - 1)"
  by (auto simp: node_of_def node_index_eq)

lemma valid_node_of: "valid st i \<Longrightarrow> \<not> i < 2 \<Longrightarrow> \<exists>n. node_of st i = Some n"
  by (auto simp: node_of_Some_iff valid_def)

lemma node_of_valid: "node_of st i = Some n \<Longrightarrow> valid st i"
  by (auto simp: node_of_Some_iff valid_def)

lemma store_node:
  assumes "store_ok P KV KS st" "node_of st i = Some n"
  shows "edges_ok P KV KS (var n) (children n)" "reduced (children n)"
    "c \<in> set (edge_nodes (children n)) \<Longrightarrow> valid st c"
    "c \<in> set (edge_nodes (children n)) \<Longrightarrow> node_negate c p < i"
    "c \<in> set (edge_nodes (children n)) \<Longrightarrow> below st (var n) c"
proof -
  let ?k = "i div 2 - 1"
  have k: "\<not> i < 2" "?k < length (nodes st)" "n = nodes st ! ?k"
    using assms(2) by (auto simp: node_of_Some_iff)
  then have *: "edges_ok P KV KS (var n) (children n)" "reduced (children n)"
    "\<forall>c\<in>set (edge_nodes (children n)). c < 2 * ?k + 2 \<and> below st (var n) c"
    using assms(1) unfolding store_ok_def Let_def by blast+
  then show "edges_ok P KV KS (var n) (children n)" "reduced (children n)" by blast+
  show "c \<in> set (edge_nodes (children n)) \<Longrightarrow> below st (var n) c" using * by blast
  show "c \<in> set (edge_nodes (children n)) \<Longrightarrow> valid st c" using * k by (fastforce simp: valid_def)
  assume "c \<in> set (edge_nodes (children n))"
  then have "node_negate c p < 2 * ?k + 2" using * by (simp add: node_negate_less_even)
  then show "node_negate c p < i" using k(1) by presburger
qed

lemma edges_okD:
  assumes "edges_ok P KV KS v es"
  shows "typed v es" "ranges_ok KV KS es" "covers P es" "edge_nodes es \<noteq> []"
  using assms by (simp_all add: edges_ok_def)

section \<open>Evaluation\<close>

lemma evaluate_fuel_terminal:
  "i < 2 \<Longrightarrow> evaluate_fuel P st (Suc m) env ex i = Some (i = NODE_TRUE)"
  by (auto simp: terminal_iff tree_kind_def node_is_true_def node_is_false_def NODE_TRUE_def NODE_FALSE_def)

lemma evaluate_fuel_node:
  assumes "node_of st i = Some n" "typed (var n) (children n)"
  shows "evaluate_fuel P st (Suc m) (fst e) (snd e) i =
     (case select P (choice_of e (var n)) (children n) of
        Some c \<Rightarrow> evaluate_fuel P st m (fst e) (snd e) (node_negate c i)
      | None \<Rightarrow> Some False)"
proof -
  have "\<not> i < 2" using assms(1) by (auto simp: node_of_Some_iff)
  then obtain k where "tree_kind st i = Some k" "k \<noteq> KTrue" "k \<noteq> KFalse"
    "eval_edge P (fst e) (snd e) k =
       map_option (\<lambda>c. node_negate c i) (select P (choice_of e (var n)) (children n))"
    using eval_edge_select [OF assms(1) _ assms(2)] by metis
  then show ?thesis
    by (cases k) (auto split: option.splits)
qed

text \<open>More fuel than the id does not change the result, and the result is not a panic.\<close>

lemma evaluate_fuel_enough:
  assumes "store_ok P KV KS st" "valid st i" "i < m"
  shows "\<exists>b. evaluate_fuel P st m (fst e) (snd e) i = Some b \<and>
    evaluate_fuel P st (Suc i) (fst e) (snd e) i = Some b"
  using assms(2,3)
proof (induction i arbitrary: m rule: less_induct)
  case (less i)
  obtain m' where m: "m = Suc m'" using less.prems(2) by (cases m) auto
  show ?case
  proof (cases "i < 2")
    case True
    then show ?thesis using m by (simp add: evaluate_fuel_terminal del: evaluate_fuel.simps)
  next
    case False
    then obtain n where n: "node_of st i = Some n" using less.prems(1) valid_node_of by blast
    then have t: "typed (var n) (children n)" using store_node(1) [OF assms(1) n] edges_okD by blast
    show ?thesis
    proof (cases "select P (choice_of e (var n)) (children n)")
      case None
      then show ?thesis by (auto simp add: m evaluate_fuel_node [OF n t] simp del: evaluate_fuel.simps)
    next
      case (Some c)
      let ?c = "node_negate c i"
      have c: "?c < i" "valid st ?c"
        using store_node(3,4) [OF assms(1) n select_in [OF Some]] by simp_all
      then have "\<exists>b. evaluate_fuel P st m' (fst e) (snd e) ?c = Some b \<and>
          evaluate_fuel P st (Suc ?c) (fst e) (snd e) ?c = Some b"
        "\<exists>b. evaluate_fuel P st i (fst e) (snd e) ?c = Some b \<and>
          evaluate_fuel P st (Suc ?c) (fst e) (snd e) ?c = Some b"
        using less.IH [OF c(1,2)] less.prems(2) m by auto
      then show ?thesis by (auto simp only: m evaluate_fuel_node [OF n t] Some option.case)
    qed
  qed
qed

lemma evaluate_total:
  assumes "store_ok P KV KS st" "valid st i"
  shows "\<exists>b. evaluate_reporter_impl P st env ex i = Some b"
  using evaluate_fuel_enough [OF assms, of "Suc i" "(env, ex)"] by (auto simp: evaluate_reporter_impl_def)

lemma node_of_terminals [simp]: "node_of st NODE_TRUE = None" "node_of st NODE_FALSE = None"
  by (simp_all add: node_of_small NODE_TRUE_def NODE_FALSE_def)

lemma terminals_distinct [simp]: "NODE_TRUE \<noteq> NODE_FALSE" "NODE_FALSE \<noteq> NODE_TRUE"
  by (simp_all add: NODE_TRUE_def NODE_FALSE_def)

inductive_simps denotes_terminals [simp]: "denotes P st e NODE_TRUE b" "denotes P st e NODE_FALSE b"

lemma denotes_node_iff:
  assumes "node_of st i = Some n"
  shows "denotes P st e i b \<longleftrightarrow>
    (\<exists>c. select P (choice_of e (var n)) (children n) = Some c \<and> denotes P st e (node_negate c i) b)"
  using assms by (subst denotes.simps) auto

lemma denotes_evaluate:
  assumes "store_ok P KV KS st"
  shows "denotes P st e i b \<Longrightarrow> valid st i \<Longrightarrow> evaluate_reporter_impl P st (fst e) (snd e) i = Some b"
proof (induction rule: denotes.induct)
  case (denotes_node i n c b)
  let ?c = "node_negate c i"
  have t: "typed (var n) (children n)" using store_node(1) [OF assms denotes_node.hyps(1)] edges_okD by blast
  have c: "?c < i" "valid st ?c"
    using store_node(3,4) [OF assms denotes_node.hyps(1) select_in [OF denotes_node.hyps(2)]] by simp_all
  then have "evaluate_fuel P st i (fst e) (snd e) ?c = evaluate_fuel P st (Suc ?c) (fst e) (snd e) ?c"
    using evaluate_fuel_enough [OF assms, of ?c i e] by auto
  then show ?case
    using denotes_node.IH [OF c(2)] denotes_node.hyps(2)
    by (simp add: evaluate_reporter_impl_def evaluate_fuel_node [OF denotes_node.hyps(1) t] del: evaluate_fuel.simps)
qed (simp_all add: evaluate_reporter_impl_def evaluate_fuel_terminal NODE_TRUE_def NODE_FALSE_def
    del: evaluate_fuel.simps)

lemma denotes_det: "denotes P st e i a \<Longrightarrow> denotes P st e i b \<Longrightarrow> a = b"
proof (induction arbitrary: b rule: denotes.induct)
  case (denotes_node i n c a)
  then show ?case using denotes_node_iff [OF denotes_node.hyps(1), of P e b] by auto
qed simp_all

text \<open>Complementing an id negates its value.\<close>

lemma denotes_not_if: "denotes P st e i b \<Longrightarrow> denotes P st e (node_not i) (\<not> b)"
proof (induction rule: denotes.induct)
  case (denotes_node i n c b)
  then show ?case using denotes_node_iff [of st "node_not i" n P e "\<not> b"] by auto
qed simp_all

lemma denotes_not [simp]: "denotes P st e (node_not i) b \<longleftrightarrow> denotes P st e i (\<not> b)"
  using denotes_not_if [of P st e i "\<not> b"] denotes_not_if [of P st e "node_not i" b] by auto

lemma denotes_negate: "denotes P st e (node_negate i p) b \<longleftrightarrow> denotes P st e i (b \<noteq> is_complement p)"
  by (auto simp: node_negate_def)

text \<open>Where the environment decides the variable, evaluation follows an edge.\<close>

fun choice_ok :: "choice \<Rightarrow> bool" where
  "choice_ok (CVersion v) = ok_version v"
| "choice_ok _ = True"

fun choice_typed :: "choice \<Rightarrow> ('r, 'q) edges \<Rightarrow> bool" where
  "choice_typed (CVersion _) (EVersion _) = True"
| "choice_typed (CString _) (EString _) = True"
| "choice_typed (CBool _) (EBoolean _ _) = True"
| "choice_typed _ _ = False"

lemma version_from_str_ok: "version_from_str s = Inr v \<Longrightarrow> ok_version v"
  using version_from_str_ensures [of s] by (auto simp: ensures_def parsed_version_def intro: public_ok)

lemma choice_of_ok: "env_ok e \<Longrightarrow> choice_ok (choice_of e v)"
proof (cases v)
  case (VVersionString k)
  then show ?thesis
    using version_from_str_ok by (auto split: sum.splits)
next
  case (VList p)
  then show ?thesis by (cases p) auto
qed (auto simp: env_ok_def)

lemma pair_choice_cases: "pair_choice ex p = CNone \<or> (\<exists>b. pair_choice ex p = CBool b)"
  by (cases p) auto

lemma choice_of_typed: "decides e v \<Longrightarrow> typed v es \<Longrightarrow> choice_typed (choice_of e v) es"
  using pair_choice_cases [of "snd e"] by (cases v; cases es) (force simp: decides_def split: sum.splits)+

lemma select_covers: "covers P es \<Longrightarrow> choice_ok ch \<Longrightarrow> choice_typed ch es \<Longrightarrow> \<exists>c. select P ch es = Some c"
  by (cases "(P, ch, es)" rule: select.cases) auto

lemma edges_select:
  assumes "edges_ok P KV KS v es" "env_ok e" "decides e v"
  shows "\<exists>c\<in>set (edge_nodes es). select P (choice_of e v) es = Some c"
  using select_covers [OF edges_okD(3) [OF assms(1)] choice_of_ok [OF assms(2)]
      choice_of_typed [OF assms(3) edges_okD(1) [OF assms(1)]]] select_in by blast

lemma denotes_total:
  assumes "store_ok P KV KS st" "env_ok e" "\<And>n. n \<in> set (nodes st) \<Longrightarrow> decides e (var n)" "valid st i"
  shows "\<exists>b. denotes P st e i b"
  using assms(4)
proof (induction i rule: less_induct)
  case (less i)
  show ?case
  proof (cases "i < 2")
    case True
    then show ?thesis unfolding terminal_iff by auto
  next
    case False
    then obtain n where n: "node_of st i = Some n" using less.prems valid_node_of by blast
    then have "decides e (var n)" using assms(3) by (auto simp: node_of_Some_iff)
    then obtain c where c: "c \<in> set (edge_nodes (children n))"
      "select P (choice_of e (var n)) (children n) = Some c"
      using edges_select [OF store_node(1) [OF assms(1) n] assms(2)] by blast
    have "\<exists>b. denotes P st e (node_negate c i) b"
      by (rule less.IH) (use store_node(3,4) [OF assms(1) n c(1)] in simp_all)
    then show ?thesis using denotes_node_iff [OF n] c(2) by blast
  qed
qed

text \<open>
  The variables every environment decides: all but versions read from strings and list expressions with
  an invalid name.
\<close>

definition simple_variable :: "variable \<Rightarrow> bool" where
  "simple_variable v \<longleftrightarrow>
     (case v of VVersionString _ \<Rightarrow> False | VList p \<Rightarrow> (case p of PairArbitrary _ _ \<Rightarrow> False | _ \<Rightarrow> True) | _ \<Rightarrow> True)"

lemma simple_variable_decides: "simple_variable v \<Longrightarrow> decides e v"
  by (cases v) (auto simp: simple_variable_def decides_def split: list_pair.splits)

section \<open>Growing stores\<close>

definition grows :: "('r, 'q) interner \<Rightarrow> ('r, 'q) interner \<Rightarrow> bool" where
  "grows st st' \<longleftrightarrow> (\<exists>ns. nodes st' = nodes st @ ns)"

lemma grows_refl [simp, intro]: "grows st st"
  by (auto simp: grows_def)

lemma grows_trans [trans]: "grows st1 st2 \<Longrightarrow> grows st2 st3 \<Longrightarrow> grows st1 st3"
  by (fastforce simp: grows_def)

lemma grows_node_of: "grows st st' \<Longrightarrow> node_of st i = Some n \<Longrightarrow> node_of st' i = Some n"
  by (auto simp: grows_def node_of_Some_iff nth_append)

lemma grows_valid: "grows st st' \<Longrightarrow> valid st i \<Longrightarrow> valid st' i"
  by (auto simp: grows_def valid_def)

lemma node_of_None_valid: "valid st i \<Longrightarrow> node_of st i = None \<longleftrightarrow> i < 2"
  by (metis node_of_small not_None_eq valid_node_of)

lemma grows_node_of_eq: "grows st st' \<Longrightarrow> valid st i \<Longrightarrow> node_of st' i = node_of st i"
  by (cases "node_of st i") (auto simp: node_of_None_valid node_of_small intro: grows_node_of)

lemma grows_below: "grows st st' \<Longrightarrow> valid st i \<Longrightarrow> below st' v i \<longleftrightarrow> below st v i"
  by (simp add: below_def grows_node_of_eq)

lemma grows_denotes: "denotes P st e i b \<Longrightarrow> grows st st' \<Longrightarrow> denotes P st' e i b"
  by (induction rule: denotes.induct) (auto intro: denotes.intros grows_node_of)

lemma grows_denotes_iff:
  assumes "store_ok P KV KS st" "grows st st'" "valid st i"
  shows "denotes P st' e i b \<longleftrightarrow> denotes P st e i b"
proof
  show "denotes P st e i b" if "denotes P st' e i b"
    using that assms(3)
  proof (induction rule: denotes.induct)
    case (denotes_node i n c b)
    then have n: "node_of st i = Some n" using grows_node_of_eq [OF assms(2)] by simp
    have "valid st (node_negate c i)"
      using store_node(3) [OF assms(1) n select_in [OF denotes_node.hyps(2)]] by simp
    then show ?case using denotes_node n by (auto intro: denotes.intros)
  qed (auto intro: denotes.intros)
qed (use grows_denotes assms(2) in blast)

end
