(* ===== verification/MarkerInterner.thy ===== *)
theory MarkerInterner
  imports MarkerSemantics
begin

text \<open>
  The operations on edges and the interning of nodes. Mapping and merging edges act on the child that an
  environment selects; \<open>create_node\<close> returns an id with the meaning of its edges and keeps the store
  ordered, reduced and free of duplicates.
\<close>

section \<open>Operations that extend the store\<close>

text \<open>
  The outcome of an operation in a store: a valid id above the variables in \<open>L\<close>, which denotes every
  value that \<open>Q\<close> promises.
\<close>

definition outcome ::
  "('r, 'q) algebra_deps \<Rightarrow> ('r, 'q) interner \<Rightarrow> (variable \<Rightarrow> bool) \<Rightarrow>
   (context_env \<Rightarrow> bool \<Rightarrow> bool) \<Rightarrow> node_id \<Rightarrow> bool" where
  "outcome P st L Q i \<longleftrightarrow>
     valid st i \<and> (\<forall>w. L w \<longrightarrow> below st w i) \<and> (\<forall>e b. env_ok e \<longrightarrow> Q e b \<longrightarrow> denotes P st e i b)"

text \<open>
  A run on a state \<open>s\<close> with invariant \<open>Inv\<close>, whose store is \<open>pr s\<close>: it returns, keeps the invariant, only
  extends the store and has the given outcome.
\<close>

definition runs ::
  "('r, 'q) algebra_deps \<Rightarrow> ('s \<Rightarrow> bool) \<Rightarrow> ('s \<Rightarrow> ('r, 'q) interner) \<Rightarrow> 's \<Rightarrow> (node_id \<times> 's) option \<Rightarrow>
   (variable \<Rightarrow> bool) \<Rightarrow> (context_env \<Rightarrow> bool \<Rightarrow> bool) \<Rightarrow> bool" where
  "runs P Inv pr s r L Q \<longleftrightarrow>
     (\<exists>i s'. r = Some (i, s') \<and> Inv s' \<and> grows (pr s) (pr s') \<and> outcome P (pr s') L Q i)"

lemma outcome_grows:
  assumes "grows st st'" "outcome P st L Q i"
  shows "outcome P st' L Q i"
  using assms(2) grows_denotes [OF _ assms(1)] grows_valid [OF assms(1)] grows_below [OF assms(1)]
  unfolding outcome_def by blast

lemma outcome_not:
  "outcome P st L Q i \<Longrightarrow> outcome P st L (\<lambda>e b. Q e (\<not> b)) (node_not i)"
  by (simp add: outcome_def)

lemma outcome_mono:
  assumes "outcome P st L Q i" "\<And>w. L' w \<Longrightarrow> L w" "\<And>e b. env_ok e \<Longrightarrow> Q' e b \<Longrightarrow> Q e b"
  shows "outcome P st L' Q' i"
  using assms unfolding outcome_def by blast

lemma runs_mono:
  assumes "runs P Inv pr s r L Q" "\<And>w. L' w \<Longrightarrow> L w" "\<And>e b. env_ok e \<Longrightarrow> Q' e b \<Longrightarrow> Q e b"
  shows "runs P Inv pr s r L' Q'"
  using assms outcome_mono unfolding runs_def by blast

fun traverse :: "('a \<Rightarrow> 's \<Rightarrow> ('b \<times> 's) option) \<Rightarrow> 'a list \<Rightarrow> 's \<Rightarrow> ('b list \<times> 's) option" where
  "traverse f [] s = Some ([], s)"
| "traverse f (x # xs) s = do { (y, s') \<leftarrow> f x s; (ys, s'') \<leftarrow> traverse f xs s'; Some (y # ys, s'') }"

lemma traverse_append:
  "traverse f (xs @ ys) s =
     do { (as, s') \<leftarrow> traverse f xs s; (bs, s'') \<leftarrow> traverse f ys s'; Some (as @ bs, s'') }"
  by (induction xs arbitrary: s) (auto simp: Option.bind_assoc split: Option.bind_splits)

lemma traverse_runs:
  assumes "\<And>x s. x \<in> set xs \<Longrightarrow> Inv s \<Longrightarrow> grows st (pr s) \<Longrightarrow> runs P Inv pr s (f x s) L (Q x)"
    and "Inv s" "grows st (pr s)"
  shows "\<exists>ys s'. traverse f xs s = Some (ys, s') \<and> Inv s' \<and> grows (pr s) (pr s') \<and>
    list_all2 (\<lambda>x. outcome P (pr s') L (Q x)) xs ys"
  using assms
proof (induction xs arbitrary: s)
  case Nil
  then show ?case by simp
next
  case (Cons x xs)
  from Cons.prems obtain y s1 where y: "f x s = Some (y, s1)" "Inv s1" "grows (pr s) (pr s1)"
    "outcome P (pr s1) L (Q x) y"
    unfolding runs_def by (meson list.set_intros(1))
  then have "grows st (pr s1)" using Cons.prems(3) grows_trans by blast
  then obtain ys s2 where ys: "traverse f xs s1 = Some (ys, s2)" "Inv s2" "grows (pr s1) (pr s2)"
    "list_all2 (\<lambda>x. outcome P (pr s2) L (Q x)) xs ys"
    using Cons.IH [of s1] Cons.prems(1) y(2) by (metis list.set_intros(2))
  have "outcome P (pr s2) L (Q x) y"
    by (rule outcome_grows [OF ys(3) y(4)])
  then show ?case using y ys grows_trans [OF y(3) ys(3)] by auto
qed

section \<open>Lists of edges\<close>

definition pushes :: "('t, 'r) range_ops \<Rightarrow> 'r edge_map \<Rightarrow> 'r edge_map \<Rightarrow> 'r edge_map" where
  "pushes I = foldl (\<lambda>es (rng, c). push_edge I es rng c)"

lemma pushes_simps [simp]:
  "pushes I acc [] = acc" "pushes I acc ((rng, c) # es) = pushes I (push_edge I acc rng c) es"
  "pushes I acc (es1 @ es2) = pushes I (pushes I acc es1) es2"
  by (simp_all add: pushes_def)

lemma range_K:
  assumes "range_laws I T K" "K r" "K s"
  shows "K (i_union I r s)" "K (i_intersection I r s)" "K (i_complement I r)"
  using assms by (simp_all add: range_laws_def range_closed_def)

lemma range_mem:
  assumes "range_laws I T K" "K r" "K s" "T v"
  shows "i_contains I (i_union I r s) v \<longleftrightarrow> i_contains I r v \<or> i_contains I s v"
    "i_contains I (i_intersection I r s) v \<longleftrightarrow> i_contains I r v \<and> i_contains I s v"
    "i_contains I (i_complement I r) v \<longleftrightarrow> \<not> i_contains I r v"
    "i_is_empty I r \<Longrightarrow> \<not> i_contains I r v"
    "i_is_disjoint I r s \<Longrightarrow> \<not> (i_contains I r v \<and> i_contains I s v)"
    "i_eq I r s \<Longrightarrow> i_contains I r v \<longleftrightarrow> i_contains I s v"
  using assms unfolding range_laws_def range_members_def by blast+

lemma push_edge_snoc:
  "push_edge I (es @ [(r, d)]) rng c =
     (if d = c \<and> can_conjoin I r rng then es @ [(i_union I r rng, d)] else es @ [(r, d), (rng, c)])"
  "push_edge I [] rng c = [(rng, c)]"
  by (simp_all add: push_edge_def)

lemma push_edge_cases:
  obtains "push_edge I es rng c = es @ [(rng, c)]"
  | es' r where "es = es' @ [(r, c)]" "push_edge I es rng c = es' @ [(i_union I r rng, c)]"
proof (cases es rule: rev_cases)
  case Nil
  then show thesis using that by (simp add: push_edge_snoc)
next
  case (snoc ys y)
  obtain a b where "y = (a, b)" by (cases y)
  then show thesis
    using that snoc by (cases "b = c \<and> can_conjoin I a rng") (auto simp: push_edge_snoc)
qed

lemma push_edge_K:
  assumes "range_laws I T K" "all_K K es" "K rng"
  shows "all_K K (push_edge I es rng c)"
  by (rule push_edge_cases [of I es rng c]) (use assms range_K(1) in auto)

lemma push_edge_first:
  assumes "range_laws I T K" "all_K K es" "K rng" "T v"
  shows "first_edge (\<lambda>r. i_contains I r v) (push_edge I es rng c) =
    first_edge (\<lambda>r. i_contains I r v) (es @ [(rng, c)])"
  by (rule push_edge_cases [of I es rng c])
    (use assms range_mem(1) [OF assms(1) _ assms(3,4)] in \<open>auto simp: first_edge_append split: option.splits\<close>)

lemma push_edge_children: "snd ` set (push_edge I es rng c) \<subseteq> insert c (snd ` set es)"
  by (rule push_edge_cases [of I es rng c]) auto

lemma pushes_K: "range_laws I T K \<Longrightarrow> all_K K acc \<Longrightarrow> all_K K es \<Longrightarrow> all_K K (pushes I acc es)"
proof (induction es arbitrary: acc)
  case (Cons e es)
  obtain r c where e: "e = (r, c)" by (cases e)
  have "all_K K (push_edge I acc r c)" using push_edge_K Cons.prems e by auto
  then show ?case using Cons e by auto
qed simp

lemma pushes_first:
  assumes "range_laws I T K" "all_K K acc" "all_K K es" "T v"
  shows "first_edge (\<lambda>r. i_contains I r v) (pushes I acc es) =
    first_edge (\<lambda>r. i_contains I r v) (acc @ es)"
  using assms(2,3)
proof (induction es arbitrary: acc)
  case (Cons e es)
  obtain r c where e: "e = (r, c)" by (cases e)
  have *: "all_K K acc" "K r" "all_K K es" using Cons.prems e by auto
  have "first_edge (\<lambda>r. i_contains I r v) (pushes I acc (e # es)) =
      first_edge (\<lambda>r. i_contains I r v) (push_edge I acc r c @ es)"
    using Cons.IH [OF push_edge_K [OF assms(1) *(1,2)] *(3)] by (simp add: e)
  also have "\<dots> = first_edge (\<lambda>r. i_contains I r v) ((acc @ [e]) @ es)"
    by (simp only: first_edge_append [of _ _ es] push_edge_first [OF assms(1) *(1,2) assms(4)] e)
  finally show ?case by simp
qed simp

lemma pushes_children: "snd ` set (pushes I acc es) \<subseteq> snd ` set acc \<union> snd ` set es"
proof (induction es arbitrary: acc)
  case (Cons e es)
  obtain r c where e: "e = (r, c)" by (cases e)
  have "snd ` set (pushes I acc (e # es)) \<subseteq> snd ` set (push_edge I acc r c) \<union> snd ` set es"
    by (simp only: e pushes_simps Cons.IH)
  also have "\<dots> \<subseteq> insert c (snd ` set acc) \<union> snd ` set es"
    by (rule Un_mono [OF push_edge_children order_refl])
  also have "\<dots> = snd ` set acc \<union> snd ` set (e # es)" by (simp add: e)
  finally show ?case .
qed simp

lemma first_edge_rel:
  "list_all2 R (map snd es) cs \<Longrightarrow> rel_option R (first_edge p es) (first_edge p (zip (map fst es) cs))"
  by (induction es arbitrary: cs) (auto simp: list_all2_Cons1)

lemma map_ranges_traverse:
  "map_ranges I parent f acc es s =
     do { (cs, s') \<leftarrow> traverse (\<lambda>c. f (node_negate c parent)) (map snd es) s;
          Some (pushes I acc (zip (map fst es) cs), s') }"
  by (induction es arbitrary: acc s) (auto simp: Option.bind_assoc split: Option.bind_splits)

definition product_row ::
  "('t, 'r) range_ops \<Rightarrow> node_id \<Rightarrow> 'r \<Rightarrow> node_id \<Rightarrow> 'r edge_map \<Rightarrow> ('r \<times> node_id \<times> node_id) list" where
  "product_row I right_parent lr lc res =
     map (\<lambda>(rr, rc). (i_intersection I rr lr, lc, node_negate rc right_parent))
       (filter (\<lambda>(rr, rc). \<not> i_is_empty I (i_intersection I rr lr)) res)"

definition product_edges ::
  "('t, 'r) range_ops \<Rightarrow> node_id \<Rightarrow> node_id \<Rightarrow> 'r edge_map \<Rightarrow> 'r edge_map \<Rightarrow> ('r \<times> node_id \<times> node_id) list" where
  "product_edges I left_parent right_parent les res =
     concat (map (\<lambda>(lr, lc). product_row I right_parent lr (node_negate lc left_parent) res) les)"

lemma apply_ranges_row_traverse:
  "apply_ranges_row I f right_parent lr lc acc res s =
     do { (cs, s') \<leftarrow> traverse (\<lambda>(a, b). f a b) (map snd (product_row I right_parent lr lc res)) s;
          Some (pushes I acc (zip (map fst (product_row I right_parent lr lc res)) cs), s') }"
  by (induction res arbitrary: acc s)
    (auto simp: product_row_def Let_def Option.bind_assoc split: Option.bind_splits)

lemma traverse_length: "traverse f xs s = Some (ys, s') \<Longrightarrow> length ys = length xs"
  by (induction xs arbitrary: s ys) (auto split: Option.bind_splits)

lemma apply_ranges_traverse:
  "apply_ranges I f left_parent right_parent acc les res s =
     do { (cs, s') \<leftarrow> traverse (\<lambda>(a, b). f a b) (map snd (product_edges I left_parent right_parent les res)) s;
          Some (pushes I acc (zip (map fst (product_edges I left_parent right_parent les res)) cs), s') }"
proof (induction les arbitrary: acc s)
  case Nil
  then show ?case by (simp add: product_edges_def)
next
  case (Cons l les)
  obtain lr lc where l: "l = (lr, lc)" by (cases l)
  let ?row = "product_row I right_parent lr (node_negate lc left_parent) res"
  have "product_edges I left_parent right_parent (l # les) res =
      ?row @ product_edges I left_parent right_parent les res"
    by (simp add: product_edges_def l)
  then show ?case
    by (auto simp: l Cons.IH apply_ranges_row_traverse traverse_append dest!: traverse_length
        split: Option.bind_splits)
qed

lemma product_row_K:
  "range_laws I T K \<Longrightarrow> K lr \<Longrightarrow> all_K K res \<Longrightarrow> all_K K (product_row I right_parent lr lc res)"
  by (induction res) (auto simp: product_row_def intro: range_K)

lemma product_edges_K:
  "range_laws I T K \<Longrightarrow> all_K K les \<Longrightarrow> all_K K res \<Longrightarrow>
    all_K K (product_edges I left_parent right_parent les res)"
  by (induction les) (auto simp: product_edges_def intro: product_row_K)

lemma product_row_first:
  assumes "range_laws I T K" "K lr" "all_K K res" "T v"
  shows "first_edge (\<lambda>r. i_contains I r v) (product_row I right_parent lr lc res) =
    (if i_contains I lr v
     then map_option (\<lambda>rc. (lc, node_negate rc right_parent)) (first_edge (\<lambda>r. i_contains I r v) res)
     else None)"
  using assms(3)
proof (induction res)
  case (Cons e res)
  obtain rr rc where e: "e = (rr, rc)" by (cases e)
  have "i_contains I (i_intersection I rr lr) v \<longleftrightarrow> i_contains I rr v \<and> i_contains I lr v"
    "i_is_empty I (i_intersection I rr lr) \<Longrightarrow> \<not> i_contains I (i_intersection I rr lr) v"
    using Cons.prems range_mem(2,4) [OF assms(1) _ assms(2,4)] range_K(2) [OF assms(1) _ assms(2)]
    by (auto simp: e)
  then show ?case using Cons by (auto simp: e product_row_def)
qed (simp add: product_row_def)

lemma product_edges_first:
  assumes "range_laws I T K" "all_K K les" "all_K K res" "T v"
  shows "first_edge (\<lambda>r. i_contains I r v) (product_edges I left_parent right_parent les res) =
    (case (first_edge (\<lambda>r. i_contains I r v) les, first_edge (\<lambda>r. i_contains I r v) res) of
       (Some lc, Some rc) \<Rightarrow> Some (node_negate lc left_parent, node_negate rc right_parent)
     | _ \<Rightarrow> None)"
  using assms(2)
proof (induction les)
  case (Cons e les)
  obtain lr lc where e: "e = (lr, lc)" by (cases e)
  have "product_edges I left_parent right_parent (e # les) res =
      product_row I right_parent lr (node_negate lc left_parent) res @
      product_edges I left_parent right_parent les res"
    by (simp add: product_edges_def e)
  then show ?case
    using Cons product_row_first [OF assms(1) _ assms(3,4), of lr]
    by (auto simp: e first_edge_append split: option.splits)
qed (simp add: product_edges_def)

section \<open>Edges\<close>

lemma some_ok_version: "\<exists>v. ok_version v"
proof
  show "ok_version (Full (plain_full [0]))" by code_simp
qed

lemma covers_nonempty: "covers P es \<Longrightarrow> edge_nodes es \<noteq> []"
  using some_ok_version by (cases es) auto

text \<open>The child that a choice selects in \<open>es'\<close> is related to the one given by \<open>sel\<close>.\<close>

definition edges_rel ::
  "('r, 'q) algebra_deps \<Rightarrow> ('a \<Rightarrow> node_id \<Rightarrow> bool) \<Rightarrow> (choice \<Rightarrow> 'a option) \<Rightarrow> ('r, 'q) edges \<Rightarrow> bool" where
  "edges_rel P R sel es \<longleftrightarrow> (\<forall>ch. choice_ok ch \<longrightarrow> rel_option R (sel ch) (select P ch es))"

lemma pushes_rel:
  assumes "range_laws I T K" "all_K K es" "list_all2 R (map snd es) cs"
  shows "all_K K (pushes I [] (zip (map fst es) cs))"
    "snd ` set (pushes I [] (zip (map fst es) cs)) \<subseteq> set cs"
    "T v \<Longrightarrow> rel_option R (first_edge (\<lambda>r. i_contains I r v) es)
       (first_edge (\<lambda>r. i_contains I r v) (pushes I [] (zip (map fst es) cs)))"
proof -
  have K: "all_K K (zip (map fst es) cs)"
    using assms(2) by (fastforce simp: all_K_def dest: set_zip_leftD)
  show "all_K K (pushes I [] (zip (map fst es) cs))" by (rule pushes_K [OF assms(1) _ K]) simp
  show "snd ` set (pushes I [] (zip (map fst es) cs)) \<subseteq> set cs"
    using pushes_children [of I "[]" "zip (map fst es) cs"] by (auto dest!: subsetD set_zip_rightD)
  show "rel_option R (first_edge (\<lambda>r. i_contains I r v) es)
       (first_edge (\<lambda>r. i_contains I r v) (pushes I [] (zip (map fst es) cs)))" if "T v"
    using pushes_first [OF assms(1) _ K that, of "[]"] first_edge_rel [OF assms(3)] by simp
qed

text \<open>What mapping or merging edges returns.\<close>

definition edges_run ::
  "('r, 'q) algebra_deps \<Rightarrow> ('r \<Rightarrow> bool) \<Rightarrow> ('q \<Rightarrow> bool) \<Rightarrow> ('s \<Rightarrow> bool) \<Rightarrow> ('s \<Rightarrow> ('r, 'q) interner) \<Rightarrow>
   's \<Rightarrow> (('r, 'q) edges \<times> 's) option \<Rightarrow> (variable \<Rightarrow> bool) \<Rightarrow>
   variable \<Rightarrow> (choice \<Rightarrow> 'a option) \<Rightarrow> ('a \<Rightarrow> context_env \<Rightarrow> bool \<Rightarrow> bool) \<Rightarrow> bool" where
  "edges_run P KV KS Inv pr s r L v sel F \<longleftrightarrow>
     (\<exists>es' s'. r = Some (es', s') \<and> Inv s' \<and> grows (pr s) (pr s') \<and> edges_ok P KV KS v es' \<and>
        (\<forall>c\<in>set (edge_nodes es'). valid (pr s') c \<and> (\<forall>w. L w \<longrightarrow> below (pr s') w c)) \<and>
        edges_rel P (\<lambda>a. outcome P (pr s') L (F a)) sel es')"

lemma edges_runI:
  fixes P :: "('r, 'q) algebra_deps"
  assumes "r = Some (es', s')" "Inv s'" "grows (pr s) (pr s')" "typed v es'" "ranges_ok KV KS es'"
    "list_all2 (\<lambda>a. outcome P (pr s') L (F a)) xs cs" "set (edge_nodes es') \<subseteq> set cs"
    "edges_rel P (\<lambda>a. outcome P (pr s') L (F a)) sel es'"
    "\<And>ch. choice_ok ch \<Longrightarrow> choice_typed ch es' \<Longrightarrow> sel ch \<noteq> None"
  shows "edges_run P KV KS Inv pr s r L v sel F"
proof -
  have sel: "\<exists>c. select P ch es' = Some c" if "choice_ok ch" "choice_typed ch es'" for ch
  proof -
    have "rel_option (\<lambda>a. outcome P (pr s') L (F a)) (sel ch) (select P ch es')"
      using assms(8) that by (auto simp: edges_rel_def)
    then show ?thesis using assms(9) [OF that] by (cases "sel ch"; cases "select P ch es'") simp_all
  qed
  have "covers P es'"
  proof (cases es')
    case (EVersion es)
    have "\<exists>c. select P (CVersion v) es' = Some c" if "ok_version v" for v
      using sel [of "CVersion v"] that EVersion by simp
    then show ?thesis by (simp add: EVersion)
  next
    case (EString es)
    have "\<exists>c. select P (CString s) es' = Some c" for s
      using sel [of "CString s"] EString by simp
    then show ?thesis by (simp add: EString)
  qed simp
  then have ok: "edges_ok P KV KS v es'" using assms(4,5) by (simp add: edges_ok_def covers_nonempty)
  have "valid (pr s') c \<and> (\<forall>w. L w \<longrightarrow> below (pr s') w c)" if "c \<in> set (edge_nodes es')" for c
  proof -
    have "c \<in> set cs" using that assms(7) by (rule subsetD [rotated])
    then obtain k where "k < length cs" "c = cs ! k" by (auto simp: in_set_conv_nth)
    then have "outcome P (pr s') L (F (xs ! k)) c"
      using assms(6) by (simp add: list_all2_conv_all_nth)
    then show ?thesis by (simp add: outcome_def)
  qed
  then have "\<forall>c\<in>set (edge_nodes es'). valid (pr s') c \<and> (\<forall>w. L w \<longrightarrow> below (pr s') w c)" by blast
  then show ?thesis
    unfolding edges_run_def by (intro exI [of _ es'] exI [of _ s'] conjI assms(1-3,8) ok)
qed

lemma edges_rel_version:
  assumes "\<And>v. ok_version v \<Longrightarrow>
      rel_option R (sel (CVersion v)) (first_edge (\<lambda>r. i_contains (version_ranges P) r v) es)"
    "\<And>ch. (\<nexists>v. ch = CVersion v) \<Longrightarrow> sel ch = None"
  shows "edges_rel P R sel (EVersion es)"
  unfolding edges_rel_def
proof (intro allI impI)
  show "rel_option R (sel ch) (select P ch (EVersion es))" if "choice_ok ch" for ch
    using that assms by (cases ch) auto
qed

lemma edges_rel_string:
  assumes "\<And>s. rel_option R (sel (CString s)) (first_edge (\<lambda>r. i_contains (string_ranges P) r s) es)"
    "\<And>ch. (\<nexists>s. ch = CString s) \<Longrightarrow> sel ch = None"
  shows "edges_rel P R sel (EString es)"
  unfolding edges_rel_def
proof (intro allI impI)
  show "rel_option R (sel ch) (select P ch (EString es))" for ch
    using assms by (cases ch) auto
qed

lemma edges_rel_boolean:
  assumes "\<And>b. rel_option R (sel (CBool b)) (Some (if b then hi else lo))"
    "\<And>ch. (\<nexists>b. ch = CBool b) \<Longrightarrow> sel ch = None"
  shows "edges_rel P R sel (EBoolean hi lo)"
  unfolding edges_rel_def
proof (intro allI impI)
  show "rel_option R (sel ch) (select P ch (EBoolean hi lo))" for ch
    using assms by (cases ch) auto
qed

lemma typed_same:
  "typed v (EVersion es) \<Longrightarrow> typed v (EVersion es')" "typed v (EString fs) \<Longrightarrow> typed v (EString fs')"
  "typed v (EBoolean hi lo) \<Longrightarrow> typed v (EBoolean hi' lo')"
  by (cases v; simp)+

lemma select_mismatch:
  "(\<nexists>v. ch = CVersion v) \<Longrightarrow> select P ch (EVersion es) = None"
  "(\<nexists>s. ch = CString s) \<Longrightarrow> select P ch (EString fs) = None"
  "(\<nexists>b. ch = CBool b) \<Longrightarrow> select P ch (EBoolean hi lo) = None"
  by (cases ch; simp)+

text \<open>Range edges after one traversal, for mapping and for merging alike.\<close>

definition ranges_ran ::
  "('t, 'r) range_ops \<Rightarrow> ('t \<Rightarrow> bool) \<Rightarrow> ('r \<Rightarrow> bool) \<Rightarrow> ('v, 'q) algebra_deps \<Rightarrow> ('s \<Rightarrow> bool) \<Rightarrow>
   ('s \<Rightarrow> ('v, 'q) interner) \<Rightarrow> 's \<Rightarrow> ('r \<times> 'a) list \<Rightarrow>
   (variable \<Rightarrow> bool) \<Rightarrow> ('a \<Rightarrow> context_env \<Rightarrow> bool \<Rightarrow> bool) \<Rightarrow> ('r edge_map \<times> 's) option \<Rightarrow> bool" where
  "ranges_ran I T K P Inv pr s fs L F r \<longleftrightarrow>
     (\<exists>es cs s'. r = Some (es, s') \<and> Inv s' \<and> grows (pr s) (pr s') \<and>
        list_all2 (\<lambda>x. outcome P (pr s') L (F x)) (map snd fs) cs \<and>
        all_K K es \<and> snd ` set es \<subseteq> set cs \<and>
        (\<forall>v. T v \<longrightarrow> rel_option (\<lambda>x. outcome P (pr s') L (F x))
           (first_edge (\<lambda>r. i_contains I r v) fs) (first_edge (\<lambda>r. i_contains I r v) es)))"

lemma ranges_run:
  fixes Inv :: "'s \<Rightarrow> bool"
  assumes "range_laws I T K" "all_K K fs"
    and g: "\<And>x s. x \<in> snd ` set fs \<Longrightarrow> Inv s \<Longrightarrow> grows st (pr s) \<Longrightarrow> runs P Inv pr s (g x s) L (F x)"
    and s: "Inv s" "grows st (pr s)"
  shows "ranges_ran I T K P Inv pr s fs L F
    (do { (cs, s') \<leftarrow> traverse g (map snd fs) s; Some (pushes I [] (zip (map fst fs) cs), s') })"
proof -
  have "\<exists>cs s'. traverse g (map snd fs) s = Some (cs, s') \<and> Inv s' \<and> grows (pr s) (pr s') \<and>
      list_all2 (\<lambda>x. outcome P (pr s') L (F x)) (map snd fs) cs"
    by (rule traverse_runs [where Inv = Inv and pr = pr and st = st]) (use g s in auto)
  then obtain cs s' where t: "traverse g (map snd fs) s = Some (cs, s')" "Inv s'" "grows (pr s) (pr s')"
    "list_all2 (\<lambda>x. outcome P (pr s') L (F x)) (map snd fs) cs" by blast
  then show ?thesis using pushes_rel [OF assms(1,2) t(4)] unfolding ranges_ran_def by auto
qed

lemma ranges_ran_version:
  fixes P :: "('r, 'q) algebra_deps"
  assumes "ranges_ran (version_ranges P) ok_version KV P Inv pr s fs L F r" "typed v (EVersion xs :: ('r, 'q) edges)"
    "\<And>v. ok_version v \<Longrightarrow> sel (CVersion v) = first_edge (\<lambda>r. i_contains (version_ranges P) r v) fs"
    "\<And>v. ok_version v \<Longrightarrow> sel (CVersion v) \<noteq> None"
    "\<And>ch. (\<nexists>v. ch = CVersion v) \<Longrightarrow> sel ch = None"
  shows "edges_run P KV KS Inv pr s (do { (es, s') \<leftarrow> r; Some (EVersion es, s') }) L v sel F"
proof -
  from assms(1) obtain es cs s' where t: "r = Some (es, s')" "Inv s'" "grows (pr s) (pr s')"
    "list_all2 (\<lambda>x. outcome P (pr s') L (F x)) (map snd fs) cs" "all_K KV es" "snd ` set es \<subseteq> set cs"
    "\<forall>v. ok_version v \<longrightarrow> rel_option (\<lambda>x. outcome P (pr s') L (F x))
       (first_edge (\<lambda>r. i_contains (version_ranges P) r v) fs)
       (first_edge (\<lambda>r. i_contains (version_ranges P) r v) es)"
    unfolding ranges_ran_def by (elim exE conjE)
  show ?thesis
  proof (rule edges_runI [where es' = "EVersion es" and s' = s' and xs = "map snd fs" and cs = cs])
    show "edges_rel P (\<lambda>a. outcome P (pr s') L (F a)) sel (EVersion es)"
      by (rule edges_rel_version) (simp_all add: assms(3,5) t(7))
    show "sel ch \<noteq> None" if "choice_ok ch" "choice_typed ch (EVersion es)" for ch
      using that assms(4) by (cases ch) simp_all
    show "typed v (EVersion es :: ('r, 'q) edges)" using assms(2) by (rule typed_same)
  qed (use t in simp_all)
qed

lemma ranges_ran_string:
  fixes P :: "('r, 'q) algebra_deps"
  assumes "ranges_ran (string_ranges P) (\<lambda>_. True) KS P Inv pr s fs L F r" "typed v (EString xs :: ('r, 'q) edges)"
    "\<And>v. sel (CString v) = first_edge (\<lambda>r. i_contains (string_ranges P) r v) fs"
    "\<And>v. sel (CString v) \<noteq> None"
    "\<And>ch. (\<nexists>v. ch = CString v) \<Longrightarrow> sel ch = None"
  shows "edges_run P KV KS Inv pr s (do { (es, s') \<leftarrow> r; Some (EString es, s') }) L v sel F"
proof -
  from assms(1) obtain es cs s' where t: "r = Some (es, s')" "Inv s'" "grows (pr s) (pr s')"
    "list_all2 (\<lambda>x. outcome P (pr s') L (F x)) (map snd fs) cs" "all_K KS es" "snd ` set es \<subseteq> set cs"
    "\<forall>v. True \<longrightarrow> rel_option (\<lambda>x. outcome P (pr s') L (F x))
       (first_edge (\<lambda>r. i_contains (string_ranges P) r v) fs)
       (first_edge (\<lambda>r. i_contains (string_ranges P) r v) es)"
    unfolding ranges_ran_def by (elim exE conjE)
  show ?thesis
  proof (rule edges_runI [where es' = "EString es" and s' = s' and xs = "map snd fs" and cs = cs])
    show "edges_rel P (\<lambda>a. outcome P (pr s') L (F a)) sel (EString es)"
      by (rule edges_rel_string) (use t(7) in \<open>simp_all add: assms(3,5)\<close>)
    show "sel ch \<noteq> None" if "choice_ok ch" "choice_typed ch (EString es)" for ch
      using that assms(4) by (cases ch) simp_all
    show "typed v (EString es :: ('r, 'q) edges)" using assms(2) by (rule typed_same)
  qed (use t in simp_all)
qed

lemma edges_map_run:
  fixes Inv :: "'s \<Rightarrow> bool" and P :: "('r, 'q) algebra_deps"
  assumes laws: "deps_laws P KV KS"
    and ok: "edges_ok P KV KS v es"
    and f: "\<And>c s. c \<in> set (edge_nodes es) \<Longrightarrow> Inv s \<Longrightarrow> grows st (pr s) \<Longrightarrow>
      runs P Inv pr s (f (node_negate c parent) s) L (F c)"
    and s: "Inv s" "grows st (pr s)"
  shows "edges_run P KV KS Inv pr s (edges_map P parent f es s) L v (\<lambda>ch. select P ch es) F"
proof -
  note ok = edges_okD [OF ok] and laws = deps_lawsD(1,2) [OF laws]
  let ?f = "\<lambda>c. f (node_negate c parent)"
  show ?thesis
  proof (cases es)
    case (EVersion fs)
    have g: "runs P Inv pr s (?f c s) L (F c)" if "c \<in> snd ` set fs" "Inv s" "grows st (pr s)" for c s
      using f that EVersion by simp
    have "all_K KV fs" using ok(2) EVersion by simp
    then have "ranges_ran (version_ranges P) ok_version KV P Inv pr s fs L F
        (map_ranges (version_ranges P) parent f [] fs s)"
      unfolding map_ranges_traverse
      by (rule ranges_run [where Inv = Inv and st = st, OF laws(1)])
        (fact g s)+
    then show ?thesis
      unfolding EVersion edges_map.simps
    proof (rule ranges_ran_version)
      show "typed v (EVersion fs :: ('r, 'q) edges)" using ok(1) EVersion by simp
    qed (use ok(3) in \<open>simp_all add: EVersion select_mismatch\<close>)
  next
    case (EString fs)
    have g: "runs P Inv pr s (?f c s) L (F c)" if "c \<in> snd ` set fs" "Inv s" "grows st (pr s)" for c s
      using f that EString by simp
    have "all_K KS fs" using ok(2) EString by simp
    then have "ranges_ran (string_ranges P) (\<lambda>_. True) KS P Inv pr s fs L F
        (map_ranges (string_ranges P) parent f [] fs s)"
      unfolding map_ranges_traverse
      by (rule ranges_run [where Inv = Inv and st = st, OF laws(2)])
        (fact g s)+
    then show ?thesis
      unfolding EString edges_map.simps
    proof (rule ranges_ran_string)
      show "typed v (EString fs :: ('r, 'q) edges)" using ok(1) EString by simp
    qed (use ok(3) in \<open>simp_all add: EString select_mismatch\<close>)
  next
    case (EBoolean hi lo)
    have "\<exists>cs s'. traverse ?f [lo, hi] s = Some (cs, s') \<and> Inv s' \<and> grows (pr s) (pr s') \<and>
        list_all2 (\<lambda>x. outcome P (pr s') L (F x)) [lo, hi] cs"
      by (rule traverse_runs [where Inv = Inv and pr = pr and st = st]) (use f s EBoolean in auto)
    then obtain lo' hi' s' where t: "traverse ?f [lo, hi] s = Some ([lo', hi'], s')" "Inv s'"
      "grows (pr s) (pr s')" "list_all2 (\<lambda>x. outcome P (pr s') L (F x)) [lo, hi] [lo', hi']"
      by (auto simp: list_all2_Cons1)
    show ?thesis
    proof (rule edges_runI [where es' = "EBoolean hi' lo'" and s' = s' and xs = "[lo, hi]" and cs = "[lo', hi']"])
      show "edges_map P parent f es s = Some (EBoolean hi' lo', s')"
        using t(1) by (auto simp: EBoolean split: Option.bind_splits)
      show "edges_rel P (\<lambda>a. outcome P (pr s') L (F a)) (\<lambda>ch. select P ch es) (EBoolean hi' lo')"
        by (rule edges_rel_boolean) (use t(4) in \<open>auto simp: EBoolean select_mismatch\<close>)
      show "select P ch es \<noteq> None" if "choice_ok ch" "choice_typed ch (EBoolean hi' lo')" for ch
        using that EBoolean by (cases ch) auto
      show "typed v (EBoolean hi' lo')" using ok(1) EBoolean typed_same(3) by blast
    qed (use t in auto)
  qed
qed

text \<open>The pair of children that a choice selects in two sets of edges.\<close>

definition select_pair ::
  "('r, 'q) algebra_deps \<Rightarrow> ('r, 'q) edges \<Rightarrow> ('r, 'q) edges \<Rightarrow> choice \<Rightarrow> (node_id \<times> node_id) option" where
  "select_pair P les res ch =
     (case (select P ch les, select P ch res) of (Some a, Some b) \<Rightarrow> Some (a, b) | _ \<Rightarrow> None)"

lemma product_edges_select:
  assumes "range_laws I T K" "all_K K les" "all_K K res" "T v"
  shows "map_option (\<lambda>(a, b). (node_negate a lp, node_negate b rp))
      (case (first_edge (\<lambda>r. i_contains I r v) les, first_edge (\<lambda>r. i_contains I r v) res) of
         (Some a, Some b) \<Rightarrow> Some (a, b) | _ \<Rightarrow> None) =
    first_edge (\<lambda>r. i_contains I r v) (product_edges I lp rp les res)"
  unfolding product_edges_first [OF assms] by (auto split: option.splits)

lemma product_edges_children:
  assumes "x \<in> snd ` set (product_edges I lp rp les res)"
  obtains a b where "a \<in> snd ` set les" "b \<in> snd ` set res" "x = (node_negate a lp, node_negate b rp)"
proof -
  from assms obtain lr lc where "(lr, lc) \<in> set les"
    "x \<in> snd ` set (product_row I rp lr (node_negate lc lp) res)"
    by (auto simp: product_edges_def)
  moreover from this(2) obtain rr rc where "(rr, rc) \<in> set res" "x = (node_negate lc lp, node_negate rc rp)"
    by (auto simp: product_row_def)
  ultimately show thesis using that by (metis image_eqI snd_conv)
qed

lemma edges_run_map_sel:
  assumes "edges_run P KV KS Inv pr s r L v (\<lambda>ch. map_option h (sel ch)) F"
  shows "edges_run P KV KS Inv pr s r L v sel (\<lambda>a. F (h a))"
  using assms unfolding edges_run_def edges_rel_def option.rel_map .

lemma edges_apply_run:
  fixes Inv :: "'s \<Rightarrow> bool" and P :: "('r, 'q) algebra_deps"
  assumes laws: "deps_laws P KV KS"
    and ok: "edges_ok P KV KS v les" "edges_ok P KV KS v res"
    and f: "\<And>a b s. a \<in> set (edge_nodes les) \<Longrightarrow> b \<in> set (edge_nodes res) \<Longrightarrow> Inv s \<Longrightarrow> grows st (pr s) \<Longrightarrow>
      runs P Inv pr s (f (node_negate a lp) (node_negate b rp) s) L (F (node_negate a lp, node_negate b rp))"
    and s: "Inv s" "grows st (pr s)"
  shows "edges_run P KV KS Inv pr s (edges_apply P f les lp res rp s) L v
    (\<lambda>ch. map_option (\<lambda>(a, b). (node_negate a lp, node_negate b rp)) (select_pair P les res ch)) F"
proof -
  note okl = edges_okD [OF ok(1)] and okr = edges_okD [OF ok(2)] and laws = deps_lawsD(1,2) [OF laws]
  let ?g = "\<lambda>(a, b). f a b"
  show ?thesis
  proof (cases les)
    case (EVersion ls)
    then obtain rs where rs: "res = EVersion rs" using okl(1) okr(1) by (cases v; cases res) auto
    let ?fs = "product_edges (version_ranges P) lp rp ls rs"
    have K: "all_K KV ls" "all_K KV rs" using okl(2) okr(2) EVersion rs by simp_all
    have g: "runs P Inv pr s (?g x s) L (F x)" if "x \<in> snd ` set ?fs" "Inv s" "grows st (pr s)" for x s
    proof -
      from that(1) obtain a b where "a \<in> snd ` set ls" "b \<in> snd ` set rs"
        "x = (node_negate a lp, node_negate b rp)" by (rule product_edges_children)
      then show ?thesis using f that(2,3) EVersion rs by simp
    qed
    have "ranges_ran (version_ranges P) ok_version KV P Inv pr s ?fs L F
        (apply_ranges (version_ranges P) f lp rp [] ls rs s)"
      unfolding apply_ranges_traverse
      by (rule ranges_run [where Inv = Inv and st = st, OF laws(1)])
        (fact product_edges_K [OF laws(1) K] g s)+
    then show ?thesis
      unfolding EVersion rs edges_apply.simps
    proof (rule ranges_ran_version)
      show "typed v (EVersion ls :: ('r, 'q) edges)" using okl(1) EVersion by simp
      show "map_option (\<lambda>(a, b). (node_negate a lp, node_negate b rp))
          (select_pair P (EVersion ls) (EVersion rs) (CVersion v)) \<noteq> None" if "ok_version v" for v
      proof -
        from okl(3) okr(3) that obtain a b where "select P (CVersion v) (EVersion ls) = Some a"
          "select P (CVersion v) (EVersion rs) = Some b" by (simp add: EVersion rs) blast
        then show ?thesis by (simp add: select_pair_def)
      qed
    qed (use product_edges_select [OF laws(1) K, of _ lp rp] in \<open>simp_all add: select_pair_def select_mismatch\<close>)
  next
    case (EString ls)
    then obtain rs where rs: "res = EString rs" using okl(1) okr(1) by (cases v; cases res) auto
    let ?fs = "product_edges (string_ranges P) lp rp ls rs"
    have K: "all_K KS ls" "all_K KS rs" using okl(2) okr(2) EString rs by simp_all
    have g: "runs P Inv pr s (?g x s) L (F x)" if "x \<in> snd ` set ?fs" "Inv s" "grows st (pr s)" for x s
    proof -
      from that(1) obtain a b where "a \<in> snd ` set ls" "b \<in> snd ` set rs"
        "x = (node_negate a lp, node_negate b rp)" by (rule product_edges_children)
      then show ?thesis using f that(2,3) EString rs by simp
    qed
    have "ranges_ran (string_ranges P) (\<lambda>_. True) KS P Inv pr s ?fs L F
        (apply_ranges (string_ranges P) f lp rp [] ls rs s)"
      unfolding apply_ranges_traverse
      by (rule ranges_run [where Inv = Inv and st = st, OF laws(2)])
        (fact product_edges_K [OF laws(2) K] g s)+
    then show ?thesis
      unfolding EString rs edges_apply.simps
    proof (rule ranges_ran_string)
      show "typed v (EString ls :: ('r, 'q) edges)" using okl(1) EString by simp
      show "map_option (\<lambda>(a, b). (node_negate a lp, node_negate b rp))
          (select_pair P (EString ls) (EString rs) (CString v)) \<noteq> None" for v
      proof -
        from okl(3) okr(3) obtain a b where "select P (CString v) (EString ls) = Some a"
          "select P (CString v) (EString rs) = Some b" by (simp add: EString rs) blast
        then show ?thesis by (simp add: select_pair_def)
      qed
    qed (use product_edges_select [OF laws(2) K TrueI, of lp rp] in \<open>simp_all add: select_pair_def select_mismatch\<close>)
  next
    case (EBoolean hi lo)
    then obtain rhi rlo where rs: "res = EBoolean rhi rlo" using okl(1) okr(1) by (cases v; cases res) auto
    let ?xs = "[(node_negate hi lp, node_negate rhi rp), (node_negate lo lp, node_negate rlo rp)]"
    have "\<exists>cs s'. traverse ?g ?xs s = Some (cs, s') \<and> Inv s' \<and> grows (pr s) (pr s') \<and>
        list_all2 (\<lambda>x. outcome P (pr s') L (F x)) ?xs cs"
      by (rule traverse_runs [where Inv = Inv and pr = pr and st = st]) (use f s EBoolean rs in auto)
    then obtain hi' lo' s' where t: "traverse ?g ?xs s = Some ([hi', lo'], s')" "Inv s'"
      "grows (pr s) (pr s')" "list_all2 (\<lambda>x. outcome P (pr s') L (F x)) ?xs [hi', lo']"
      by (auto simp: list_all2_Cons1)
    let ?sel = "\<lambda>ch. map_option (\<lambda>(a, b). (node_negate a lp, node_negate b rp)) (select_pair P les res ch)"
    show ?thesis
    proof (rule edges_runI [where es' = "EBoolean hi' lo'" and s' = s' and xs = ?xs and cs = "[hi', lo']"])
      show "edges_apply P f les lp res rp s = Some (EBoolean hi' lo', s')"
        using t(1) by (auto simp: EBoolean rs split: Option.bind_splits)
      show "edges_rel P (\<lambda>a. outcome P (pr s') L (F a)) ?sel (EBoolean hi' lo')"
        by (rule edges_rel_boolean) (use t(4) in \<open>auto simp: EBoolean rs select_pair_def select_mismatch\<close>)
      show "?sel ch \<noteq> None" if "choice_ok ch" "choice_typed ch (EBoolean hi' lo')" for ch
        using that EBoolean rs by (cases ch) (auto simp: select_pair_def)
      show "typed v (EBoolean hi' lo')" using okl(1) EBoolean typed_same(3) by blast
    qed (use t in auto)
  qed
qed

lemma edge_nodes_not [simp]: "edge_nodes (edges_not es) = map node_not (edge_nodes es)"
  by (cases es) auto

lemma first_edge_map_prod: "first_edge inside (map (map_prod id f) es) = map_option f (first_edge inside es)"
  by (induction es) auto

lemma select_edges_not [simp]: "select P ch (edges_not es) = map_option node_not (select P ch es)"
  by (cases "(P, ch, es)" rule: select.cases) (auto simp: first_edge_map_prod)

lemma edges_ok_not [simp]: "edges_ok P KV KS v (edges_not es) \<longleftrightarrow> edges_ok P KV KS v es"
proof -
  have "typed v (edges_not es) = typed v es" by (cases v; cases es) auto
  moreover have "ranges_ok KV KS (edges_not es) = ranges_ok KV KS es" by (cases es) (auto simp: all_K_def)
  moreover have "covers P (edges_not es) = covers P es" by (cases es) (auto simp: first_edge_map_prod)
  ultimately show ?thesis by (simp add: edges_ok_def)
qed

lemma edge_map_eq_first:
  assumes "range_laws I T K" "all_K K es1" "all_K K es2" "edge_map_eq I es1 es2" "T v"
  shows "first_edge (\<lambda>r. i_contains I r v) es1 = first_edge (\<lambda>r. i_contains I r v) es2"
  using assms(4,2,3) unfolding edge_map_eq_def
proof (induction rule: list_all2_induct)
  case (Cons e1 es1 e2 es2)
  obtain r1 c1 r2 c2 where e: "e1 = (r1, c1)" "e2 = (r2, c2)" by (cases e1; cases e2)
  then have "i_contains I r1 v = i_contains I r2 v"
    using Cons range_mem(6) [OF assms(1) _ _ assms(5)] by simp
  then show ?case using Cons e by simp
qed simp

lemma edges_eq_select:
  assumes laws: "deps_laws P KV KS" and "edges_eq P es1 es2" "ranges_ok KV KS es1" "ranges_ok KV KS es2" "choice_ok ch"
  shows "select P ch es1 = select P ch es2"
  using assms edge_map_eq_first [OF deps_lawsD(1) [OF laws]] edge_map_eq_first [OF deps_lawsD(2) [OF laws]]
  by (cases "(P, es1, es2)" rule: edges_eq.cases; cases ch) auto

section \<open>Interning\<close>

lemma node_of_new: "node_of st (node_new k False) = (if k < length (nodes st) then Some (nodes st ! k) else None)"
  by (simp add: node_of_def)

lemma is_complement_new [simp]: "is_complement (node_new k c) \<longleftrightarrow> c"
  by (simp add: is_complement_eq node_new_eq)

text \<open>The lookup finds a node exactly when the store has an equal one.\<close>

lemma find_unique_spec:
  assumes "store_ok P KV KS st"
  shows "\<exists>r. find_unique P st h v es (unique st) = Some r \<and>
    (case r of
       Some i \<Rightarrow> \<exists>k<length (nodes st). i = node_new k False \<and> node_eq P (nodes st ! k) \<lparr>var = v, children = es\<rparr>
     | None \<Rightarrow> \<forall>k<length (nodes st). node_hash P (nodes st ! k) = h \<longrightarrow>
         \<not> node_eq P (nodes st ! k) \<lparr>var = v, children = es\<rparr>)"
proof -
  let ?entry = "\<lambda>k. (node_hash P (nodes st ! k), node_new k False)"
  have "\<exists>r. find_unique P st h v es (map ?entry ks) = Some r \<and>
      (case r of
         Some i \<Rightarrow> \<exists>k\<in>set ks. i = node_new k False \<and> node_eq P (nodes st ! k) \<lparr>var = v, children = es\<rparr>
       | None \<Rightarrow> \<forall>k\<in>set ks. node_hash P (nodes st ! k) = h \<longrightarrow>
           \<not> node_eq P (nodes st ! k) \<lparr>var = v, children = es\<rparr>)"
    if "\<forall>k\<in>set ks. k < length (nodes st)" for ks
    using that
  proof (induction ks)
    case (Cons k ks)
    then obtain r where r: "find_unique P st h v es (map ?entry ks) = Some r"
      "case r of
         Some i \<Rightarrow> \<exists>k\<in>set ks. i = node_new k False \<and> node_eq P (nodes st ! k) \<lparr>var = v, children = es\<rparr>
       | None \<Rightarrow> \<forall>k\<in>set ks. node_hash P (nodes st ! k) = h \<longrightarrow>
           \<not> node_eq P (nodes st ! k) \<lparr>var = v, children = es\<rparr>"
      by auto
    show ?case
    proof (cases "node_hash P (nodes st ! k) = h \<and> node_eq P (nodes st ! k) \<lparr>var = v, children = es\<rparr>")
      case True
      then show ?thesis using Cons.prems by (auto simp: node_of_new node_eq_def)
    next
      case False
      then have "find_unique P st h v es (map ?entry (k # ks)) = Some r"
        using r(1) Cons.prems by (auto simp: node_of_new node_eq_def)
      then show ?thesis using r(2) False by (intro exI [of _ r]) (auto split: option.splits)
    qed
  qed simp
  note step = this
  have u: "unique st = map ?entry [0..<length (nodes st)]" using assms by (simp add: store_ok_def)
  obtain r where "find_unique P st h v es (unique st) = Some r"
    "case r of
       Some i \<Rightarrow> \<exists>k\<in>set [0..<length (nodes st)].
         i = node_new k False \<and> node_eq P (nodes st ! k) \<lparr>var = v, children = es\<rparr>
     | None \<Rightarrow> \<forall>k\<in>set [0..<length (nodes st)]. node_hash P (nodes st ! k) = h \<longrightarrow>
         \<not> node_eq P (nodes st ! k) \<lparr>var = v, children = es\<rparr>"
    unfolding u using step [of "[0..<length (nodes st)]"] by auto
  then show ?thesis by (intro exI [of _ r]) (cases r; auto)
qed

text \<open>Pushing a node onto the store.\<close>

definition push_node :: "('r, 'q) algebra_deps \<Rightarrow> ('r, 'q) node \<Rightarrow> ('r, 'q) interner \<Rightarrow> ('r, 'q) interner" where
  "push_node P n st =
     st\<lparr>nodes := nodes st @ [n], unique := unique st @ [(node_hash P n, node_new (length (nodes st)) False)]\<rparr>"

lemma push_node_simps [simp]:
  "nodes (push_node P n st) = nodes st @ [n]"
  "and_cache (push_node P n st) = and_cache st" "known_exclusions (push_node P n st) = known_exclusions st"
  by (simp_all add: push_node_def)

lemma push_node_grows: "grows st (push_node P n st)"
  by (auto simp: grows_def)

lemma push_node_store_ok:
  assumes laws: "deps_laws P KV KS" and st: "store_ok P KV KS st"
    and n: "edges_ok P KV KS (var n) (children n)" "reduced (children n)"
      "\<forall>c\<in>set (edge_nodes (children n)). valid st c \<and> below st (var n) c"
    and fresh: "\<forall>k<length (nodes st). \<not> node_eq P (nodes st ! k) n"
  shows "store_ok P KV KS (push_node P n st)"
proof -
  let ?st = "push_node P n st"
  have below: "below ?st w c \<longleftrightarrow> below st w c" if "valid st c" for w c
    by (rule grows_below [OF push_node_grows that])
  have "edges_ok P KV KS (var m) (children m) \<and> reduced (children m) \<and>
      (\<forall>c\<in>set (edge_nodes (children m)). c < 2 * k + 2 \<and> below ?st (var m) c)"
    if "k < length (nodes ?st)" "m = nodes ?st ! k" for k m
  proof (cases "k < length (nodes st)")
    case True
    then have *: "edges_ok P KV KS (var m) (children m) \<and> reduced (children m) \<and>
      (\<forall>c\<in>set (edge_nodes (children m)). c < 2 * k + 2 \<and> below st (var m) c)"
      using st that(2) unfolding store_ok_def by (simp add: nth_append Let_def)
    then have "valid st c" if "c \<in> set (edge_nodes (children m))" for c
      using True that unfolding valid_def by fastforce
    then show ?thesis using * below by blast
  next
    case False
    then have "k = length (nodes st)" "m = n" using that by (auto simp: nth_append)
    then show ?thesis using n below by (simp add: valid_def)
  qed
  moreover have "unique ?st = map (\<lambda>k. (node_hash P (nodes ?st ! k), node_new k False)) [0..<length (nodes ?st)]"
    using st by (simp add: push_node_def store_ok_def nth_append)
  moreover have "\<not> node_eq P (nodes ?st ! j) (nodes ?st ! k)" if "k < length (nodes ?st)" "j < k" for j k
    using that fresh st by (auto simp: nth_append store_ok_def less_Suc_eq)
  ultimately show ?thesis unfolding store_ok_def Let_def by blast
qed

lemma node_hash_eq: "deps_laws P KV KS \<Longrightarrow> node_eq P m n \<Longrightarrow> node_hash P m = node_hash P n"
  by (simp add: node_eq_def node_hash_def deps_lawsD(9))

text \<open>
  Interning reduced edges: the id is not complemented, and its meaning follows the edge that the
  environment selects.
\<close>

definition node_outcome ::
  "('r, 'q) algebra_deps \<Rightarrow> ('r \<Rightarrow> bool) \<Rightarrow> ('q \<Rightarrow> bool) \<Rightarrow> variable \<Rightarrow> ('r, 'q) edges \<Rightarrow> ('r, 'q) interner \<Rightarrow>
   node_id \<Rightarrow> ('r, 'q) interner \<Rightarrow> bool" where
  "node_outcome P KV KS v es st i st' \<longleftrightarrow>
     store_ok P KV KS st' \<and> grows st st' \<and>
     and_cache st' = and_cache st \<and> known_exclusions st' = known_exclusions st \<and>
     valid st' i \<and> (\<forall>w. w < v \<longrightarrow> below st' w i) \<and>
     (\<forall>e c b. env_ok e \<longrightarrow> select P (choice_of e v) es = Some c \<longrightarrow> denotes P st e c b \<longrightarrow> denotes P st' e i b)"

lemma node_outcome_intern:
  assumes laws: "deps_laws P KV KS" and st': "store_ok P KV KS st'" "grows st st'" "store_ok P KV KS st"
    "and_cache st' = and_cache st" "known_exclusions st' = known_exclusions st"
    and n: "node_of st' i = Some n" "node_eq P n \<lparr>var = v, children = es\<rparr>" "\<not> is_complement i"
    and es: "edges_ok P KV KS v es" "\<forall>c\<in>set (edge_nodes es). valid st c \<and> below st v c"
  shows "node_outcome P KV KS v es st i st'"
proof -
  have v: "var n = v" "edges_eq P (children n) es" using n(2) by (simp_all add: node_eq_def)
  have "denotes P st' e i b"
    if "env_ok e" "select P (choice_of e v) es = Some c" "denotes P st e c b" for e c b
  proof -
    have "select P (choice_of e v) (children n) = select P (choice_of e v) es"
      by (rule edges_eq_select [OF laws v(2)])
        (use edges_okD [OF store_node(1) [OF st'(1) n(1)]] edges_okD [OF es(1)] choice_of_ok [OF that(1)] in simp_all)
    then show ?thesis
      using denotes_node [OF n(1)] grows_denotes [OF that(3) st'(2)] that(2) n(3) v(1)
      by (simp add: node_negate_def)
  qed
  moreover have "below st' w i" if "w < v" for w
    using n(1) v(1) that by (simp add: below_def)
  ultimately show ?thesis
    using st' node_of_valid [OF n(1)] unfolding node_outcome_def by blast
qed

text \<open>The part of \<open>create_node\<close> after normalizing the first edge.\<close>

definition intern_edges ::
  "('r, 'q) algebra_deps \<Rightarrow> variable \<Rightarrow> ('r, 'q) edges \<Rightarrow> ('r, 'q) interner \<Rightarrow> (node_id \<times> ('r, 'q) interner) option" where
  "intern_edges P v es st =
     (if list_all (\<lambda>i. i = hd (edge_nodes es)) (edge_nodes es) then Some (hd (edge_nodes es), st)
      else do { found \<leftarrow> find_unique P st (hash_one P (v, es)) v es (unique st);
                (case found of
                   Some i \<Rightarrow> Some (i, st)
                 | None \<Rightarrow> Some (node_new (length (nodes st)) False, push_node P \<lparr>var = v, children = es\<rparr> st)) })"

lemma create_node_intern:
  assumes "edge_nodes es \<noteq> []"
  shows "create_node P v es st =
    (if is_complement (hd (edge_nodes es))
     then map_option (map_prod node_not id) (intern_edges P v (edges_not es) st)
     else intern_edges P v es st)"
proof -
  obtain i js where "edge_nodes es = i # js" using assms by (cases "edge_nodes es") auto
  then show ?thesis
    by (auto simp: create_node_def intern_edges_def Let_def push_node_def node_hash_def list_all_iff
        split: option.splits Option.bind_splits)
qed

lemma intern_edges_outcome:
  assumes laws: "deps_laws P KV KS" and st: "store_ok P KV KS st"
    and es: "edges_ok P KV KS v es" "\<forall>c\<in>set (edge_nodes es). valid st c \<and> below st v c"
    and first: "\<not> is_complement (hd (edge_nodes es))"
  shows "\<exists>i st'. intern_edges P v es st = Some (i, st') \<and> node_outcome P KV KS v es st i st'"
proof -
  obtain i js where js: "edge_nodes es = i # js" using edges_okD(4) [OF es(1)] by (cases "edge_nodes es") auto
  let ?n = "\<lparr>var = v, children = es\<rparr>"
  show ?thesis
  proof (cases "list_all (\<lambda>j. j = i) js")
    case True
    have "c = i" if "select P ch es = Some c" for ch c
      using select_in [OF that] js True by (auto simp: list_all_iff)
    moreover have "below st w i" if "w < v" for w
      using es(2) js that unfolding below_def by fastforce
    ultimately have "node_outcome P KV KS v es st i st"
      using st es(2) js unfolding node_outcome_def by auto
    then show ?thesis using True js by (simp add: intern_edges_def)
  next
    case False
    obtain r where r: "find_unique P st (hash_one P (v, es)) v es (unique st) = Some r"
      "case r of
         Some i \<Rightarrow> \<exists>k<length (nodes st). i = node_new k False \<and> node_eq P (nodes st ! k) ?n
       | None \<Rightarrow> \<forall>k<length (nodes st). node_hash P (nodes st ! k) = hash_one P (v, es) \<longrightarrow>
           \<not> node_eq P (nodes st ! k) ?n"
      using find_unique_spec [OF st] by blast
    show ?thesis
    proof (cases r)
      case (Some j)
      then obtain k where k: "k < length (nodes st)" "j = node_new k False" "node_eq P (nodes st ! k) ?n"
        using r(2) by auto
      have "node_outcome P KV KS v es st j st"
        by (rule node_outcome_intern [OF laws st grows_refl st refl refl _ k(3) _ es])
          (simp_all add: k node_of_new)
      then show ?thesis using False js r(1) Some by (simp add: intern_edges_def)
    next
      case None
      let ?st = "push_node P ?n st" and ?j = "node_new (length (nodes st)) False"
      have fresh: "\<forall>k<length (nodes st). \<not> node_eq P (nodes st ! k) ?n"
        using r(2) None node_hash_eq [OF laws, of _ ?n] by (auto simp: node_hash_def)
      have "store_ok P KV KS ?st"
        by (rule push_node_store_ok [OF laws st _ _ _ fresh])
          (use es first js False in \<open>auto simp: reduced_def\<close>)
      moreover have "node_eq P ?n ?n"
        using laws unfolding node_eq_def
        by (cases es) (auto simp: edge_map_eq_def list_all2_same deps_laws_def range_laws_def range_closed_def)
      ultimately have "node_outcome P KV KS v es st ?j ?st"
        using push_node_grows [of st P ?n]
        by (intro node_outcome_intern [OF laws _ _ st _ _ _ _ _ es, where n = ?n])
          (simp_all add: node_of_new)
      then show ?thesis using False js r(1) None by (simp add: intern_edges_def)
    qed
  qed
qed

lemma node_outcome_not:
  "node_outcome P KV KS v (edges_not es) st i st' \<Longrightarrow> node_outcome P KV KS v es st (node_not i) st'"
  unfolding node_outcome_def by fastforce

lemma create_node_outcome:
  assumes laws: "deps_laws P KV KS" and st: "store_ok P KV KS st"
    and es: "edges_ok P KV KS v es" "\<forall>c\<in>set (edge_nodes es). valid st c \<and> below st v c"
  shows "\<exists>i st'. create_node P v es st = Some (i, st') \<and> node_outcome P KV KS v es st i st'"
proof (cases "is_complement (hd (edge_nodes es))")
  case True
  note ne = edges_okD(4) [OF es(1)]
  have "\<exists>i st'. intern_edges P v (edges_not es) st = Some (i, st') \<and> node_outcome P KV KS v (edges_not es) st i st'"
    by (rule intern_edges_outcome [OF laws st]) (use es True ne in \<open>auto simp: hd_map\<close>)
  then obtain i st' where i: "intern_edges P v (edges_not es) st = Some (i, st')"
    "node_outcome P KV KS v (edges_not es) st i st'" by blast
  have "node_outcome P KV KS v es st (node_not i) st'"
    by (rule node_outcome_not [OF i(2)])
  then show ?thesis using i True ne by (simp add: create_node_intern)
next
  case False
  then show ?thesis
    using intern_edges_outcome [OF laws st es False] edges_okD(4) [OF es(1)] by (simp add: create_node_intern)
qed

end
