(* ===== verification/MarkerConjunction.thy ===== *)
theory MarkerConjunction
  imports MarkerInterner
begin

text \<open>
  Correctness of the boolean operations of the interner: the disjointness test is sound, the conjunctions
  return ids that denote the conjunction, the tree of known exclusions denotes the environments that
  cannot exist, and every operation returns within its fuel and keeps the invariant of the interner.
\<close>

section \<open>Disjointness\<close>

text \<open>No environment makes both ids true.\<close>

definition disjoint_in :: "('r, 'q) algebra_deps \<Rightarrow> ('r, 'q) interner \<Rightarrow> node_id \<Rightarrow> node_id \<Rightarrow> bool" where
  "disjoint_in P st x y \<longleftrightarrow> (\<forall>e. env_ok e \<longrightarrow> \<not> (denotes P st e x True \<and> denotes P st e y True))"

text \<open>A test that returns, and whose answer \<open>true\<close> can be trusted.\<close>

definition sound_test :: "bool option \<Rightarrow> bool \<Rightarrow> bool" where
  "sound_test r A \<longleftrightarrow> (\<exists>b. r = Some b \<and> (b \<longrightarrow> A))"

lemma sound_testI: "r = Some b \<Longrightarrow> (b \<Longrightarrow> A) \<Longrightarrow> sound_test r A"
  by (simp add: sound_test_def)

lemma sound_test_mono: "sound_test r A \<Longrightarrow> (A \<Longrightarrow> B) \<Longrightarrow> sound_test r B"
  by (auto simp: sound_test_def)

lemma sound_test_and:
  assumes "sound_test r A" "sound_test s B"
  shows "sound_test (do { b \<leftarrow> r; if b then s else Some False }) (A \<and> B)"
  using assms by (auto simp: sound_test_def)

lemma all_opt_sound:
  "(\<And>x. x \<in> set xs \<Longrightarrow> sound_test (f x) (A x)) \<Longrightarrow> sound_test (all_opt f xs) (\<forall>x\<in>set xs. A x)"
proof (induction xs)
  case (Cons x xs)
  then show ?case
    using sound_test_and [of "f x" "A x" "all_opt f xs" "\<forall>x\<in>set xs. A x"] by simp
qed (auto simp: sound_test_def)

lemma is_disjoint_ranges_sound:
  assumes "\<And>a b. a \<in> snd ` set les \<Longrightarrow> b \<in> snd ` set res \<Longrightarrow>
    sound_test (f (node_negate a lp) (node_negate b rp)) (D a b)"
  shows "sound_test (is_disjoint_ranges I f lp rp les res)
    (\<forall>(lr, lc)\<in>set les. \<forall>(rr, rc)\<in>set res. i_is_disjoint I rr lr \<or> D lc rc)"
  unfolding is_disjoint_ranges_def
proof (rule all_opt_sound, goal_cases)
  case (1 l)
  obtain lr lc where l: "l = (lr, lc)" by (cases l)
  have "sound_test (if i_is_disjoint I rr lr then Some True else f (node_negate lc lp) (node_negate rc rp))
      (i_is_disjoint I rr lr \<or> D lc rc)" if "(rr, rc) \<in> set res" for rr rc
  proof -
    have "sound_test (f (node_negate lc lp) (node_negate rc rp)) (D lc rc)"
      by (rule assms) (use 1 l that in force)+
    then show ?thesis by (auto simp: sound_test_def)
  qed
  then show ?case unfolding l prod.case by (intro all_opt_sound) auto
qed

lemma range_edges_disjoint:
  assumes laws: "range_laws I T K" and K: "all_K K les" "all_K K res" and v: "T v"
    and D: "\<forall>(lr, lc)\<in>set les. \<forall>(rr, rc)\<in>set res. i_is_disjoint I rr lr \<or> D lc rc"
    and sel: "first_edge (\<lambda>r. i_contains I r v) les = Some a" "first_edge (\<lambda>r. i_contains I r v) res = Some b"
  shows "D a b"
proof -
  obtain lr rr where l: "(lr, a) \<in> set les" "i_contains I lr v" and r: "(rr, b) \<in> set res" "i_contains I rr v"
    using first_edge_in [OF sel(1)] first_edge_in [OF sel(2)] by blast
  have "K lr" "K rr" using K l(1) r(1) by (auto simp: all_K_def)
  then have "\<not> i_is_disjoint I rr lr" using range_mem(5) [OF laws _ _ v] l(2) r(2) by blast
  then show ?thesis using D l(1) r(1) by blast
qed

lemma edges_is_disjoint_sound:
  fixes les res :: "('r, 'q) edges"
  assumes laws: "deps_laws P KV KS" and ok: "edges_ok P KV KS v les" "edges_ok P KV KS v res"
    and f: "\<And>a b. a \<in> set (edge_nodes les) \<Longrightarrow> b \<in> set (edge_nodes res) \<Longrightarrow>
      sound_test (f (node_negate a lp) (node_negate b rp)) (D a b)"
  shows "sound_test (edges_is_disjoint P f les lp res rp)
    (\<forall>ch a b. choice_ok ch \<longrightarrow> select P ch les = Some a \<longrightarrow> select P ch res = Some b \<longrightarrow> D a b)"
proof (cases les)
  case (EVersion ls)
  then obtain rs where rs: "res = EVersion rs" using edges_okD(1) [OF ok(1)] edges_okD(1) [OF ok(2)]
    by (cases v; cases res) auto
  have K: "all_K KV ls" "all_K KV rs"
    using edges_okD(2) [OF ok(1)] edges_okD(2) [OF ok(2)] EVersion rs by simp_all
  have "sound_test (is_disjoint_ranges (version_ranges P) f lp rp ls rs)
      (\<forall>(lr, lc)\<in>set ls. \<forall>(rr, rc)\<in>set rs. i_is_disjoint (version_ranges P) rr lr \<or> D lc rc)"
    by (rule is_disjoint_ranges_sound) (use f EVersion rs in auto)
  then have "sound_test (edges_is_disjoint P f les lp res rp)
      (\<forall>(lr, lc)\<in>set ls. \<forall>(rr, rc)\<in>set rs. i_is_disjoint (version_ranges P) rr lr \<or> D lc rc)"
    by (simp add: EVersion rs)
  then show ?thesis
  proof (rule sound_test_mono, intro allI impI)
    fix ch a b
    assume "\<forall>(lr, lc)\<in>set ls. \<forall>(rr, rc)\<in>set rs. i_is_disjoint (version_ranges P) rr lr \<or> D lc rc"
      "choice_ok ch" "select P ch les = Some a" "select P ch res = Some b"
    then show "D a b"
      using range_edges_disjoint [OF deps_lawsD(1) [OF laws] K, where D = D] EVersion rs by (cases ch) auto
  qed
next
  case (EString ls)
  then obtain rs where rs: "res = EString rs" using edges_okD(1) [OF ok(1)] edges_okD(1) [OF ok(2)]
    by (cases v; cases res) auto
  have K: "all_K KS ls" "all_K KS rs"
    using edges_okD(2) [OF ok(1)] edges_okD(2) [OF ok(2)] EString rs by simp_all
  have "sound_test (is_disjoint_ranges (string_ranges P) f lp rp ls rs)
      (\<forall>(lr, lc)\<in>set ls. \<forall>(rr, rc)\<in>set rs. i_is_disjoint (string_ranges P) rr lr \<or> D lc rc)"
    by (rule is_disjoint_ranges_sound) (use f EString rs in auto)
  then have "sound_test (edges_is_disjoint P f les lp res rp)
      (\<forall>(lr, lc)\<in>set ls. \<forall>(rr, rc)\<in>set rs. i_is_disjoint (string_ranges P) rr lr \<or> D lc rc)"
    by (simp add: EString rs)
  then show ?thesis
  proof (rule sound_test_mono, intro allI impI)
    fix ch a b
    assume "\<forall>(lr, lc)\<in>set ls. \<forall>(rr, rc)\<in>set rs. i_is_disjoint (string_ranges P) rr lr \<or> D lc rc"
      "choice_ok ch" "select P ch les = Some a" "select P ch res = Some b"
    then show "D a b"
      using range_edges_disjoint [OF deps_lawsD(2) [OF laws] K, where D = D] EString rs by (cases ch) auto
  qed
next
  case (EBoolean hi lo)
  then obtain rhi rlo where rs: "res = EBoolean rhi rlo"
    using edges_okD(1) [OF ok(1)] edges_okD(1) [OF ok(2)] by (cases v; cases res) auto
  have "sound_test (edges_is_disjoint P f les lp res rp) (D hi rhi \<and> D lo rlo)"
    unfolding EBoolean rs edges_is_disjoint.simps by (rule sound_test_and) (use f EBoolean rs in auto)
  then show ?thesis
  proof (rule sound_test_mono, intro allI impI)
    fix ch a b
    assume "D hi rhi \<and> D lo rlo" "select P ch les = Some a" "select P ch res = Some b"
    then show "D a b" using EBoolean rs by (cases ch) (auto split: if_splits)
  qed
qed

lemma disjoint_in_edges:
  assumes "node_of st xi = Some x"
    and "\<And>c. c \<in> set (edge_nodes (children x)) \<Longrightarrow> disjoint_in P st (node_negate c xi) yi"
  shows "disjoint_in P st xi yi"
  unfolding disjoint_in_def
proof (intro allI impI notI)
  fix e
  assume e: "env_ok e" "denotes P st e xi True \<and> denotes P st e yi True"
  then obtain c where "select P (choice_of e (var x)) (children x) = Some c" "denotes P st e (node_negate c xi) True"
    using denotes_node_iff [OF assms(1)] by blast
  then show False using assms(2) [OF select_in] e unfolding disjoint_in_def by blast
qed

lemma disjoint_in_sym: "disjoint_in P st x y \<longleftrightarrow> disjoint_in P st y x"
  by (auto simp: disjoint_in_def)

lemma disjoint_expansion_sound:
  assumes laws: "deps_laws P KV KS" and st: "store_ok P KV KS st"
    and x: "node_of st xi = Some x" and y: "node_of st yi = Some y"
    and f: "\<And>a b. valid st a \<Longrightarrow> valid st b \<Longrightarrow> a + b < xi + yi \<Longrightarrow> sound_test (f a b) (disjoint_in P st a b)"
  shows "sound_test (disjoint_expansion P f xi yi x y) (disjoint_in P st xi yi)"
proof -
  note cx = store_node(3,4) [OF st x] and cy = store_node(3,4) [OF st y]
  have v: "valid st xi" "valid st yi" using node_of_valid x y by blast+
  consider "var x < var y" | "var y < var x" | "var x = var y" by fastforce
  then show ?thesis
  proof cases
    case 1
    have "sound_test (f (node_negate c xi) yi) (disjoint_in P st (node_negate c xi) yi)"
      if "c \<in> set (edge_nodes (children x))" for c
      by (rule f) (use cx [OF that] v in simp_all)
    then have "sound_test (all_opt (\<lambda>c. f (node_negate c xi) yi) (edge_nodes (children x)))
        (\<forall>c\<in>set (edge_nodes (children x)). disjoint_in P st (node_negate c xi) yi)"
      by (rule all_opt_sound)
    then have "sound_test (all_opt (\<lambda>c. f (node_negate c xi) yi) (edge_nodes (children x))) (disjoint_in P st xi yi)"
      by (rule sound_test_mono) (use disjoint_in_edges [OF x] in blast)
    then show ?thesis using 1 by (simp add: disjoint_expansion_def cmp_of_def)
  next
    case 2
    have "sound_test (f (node_negate c yi) xi) (disjoint_in P st (node_negate c yi) xi)"
      if "c \<in> set (edge_nodes (children y))" for c
      by (rule f) (use cy(1) [OF that] cy(2) [OF that, of yi] v in simp_all)
    then have "sound_test (all_opt (\<lambda>c. f (node_negate c yi) xi) (edge_nodes (children y)))
        (\<forall>c\<in>set (edge_nodes (children y)). disjoint_in P st (node_negate c yi) xi)"
      by (rule all_opt_sound)
    then have "sound_test (all_opt (\<lambda>c. f (node_negate c yi) xi) (edge_nodes (children y))) (disjoint_in P st xi yi)"
      by (rule sound_test_mono) (use disjoint_in_edges [OF y] in \<open>simp add: disjoint_in_sym [of P st xi]\<close>)
    then show ?thesis using 2 by (auto simp: disjoint_expansion_def cmp_of_def)
  next
    case 3
    let ?D = "\<lambda>a b. disjoint_in P st (node_negate a xi) (node_negate b yi)"
    have "sound_test (f (node_negate a xi) (node_negate b yi)) (?D a b)"
      if "a \<in> set (edge_nodes (children x))" "b \<in> set (edge_nodes (children y))" for a b
    proof (rule f)
      show "node_negate a xi + node_negate b yi < xi + yi"
        using cx(2) [OF that(1), of xi] cy(2) [OF that(2), of yi] by linarith
    qed (use cx(1) [OF that(1)] cy(1) [OF that(2)] in simp_all)
    then have "sound_test (edges_is_disjoint P f (children x) xi (children y) yi)
      (\<forall>ch a b. choice_ok ch \<longrightarrow> select P ch (children x) = Some a \<longrightarrow> select P ch (children y) = Some b \<longrightarrow> ?D a b)"
      using store_node(1) [OF st x] store_node(1) [OF st y] 3
      by (intro edges_is_disjoint_sound [OF laws, where v = "var x"]) simp_all
    then have "sound_test (edges_is_disjoint P f (children x) xi (children y) yi) (disjoint_in P st xi yi)"
    proof (rule sound_test_mono)
      assume D: "\<forall>ch a b. choice_ok ch \<longrightarrow> select P ch (children x) = Some a \<longrightarrow>
        select P ch (children y) = Some b \<longrightarrow> ?D a b"
      show "disjoint_in P st xi yi"
        unfolding disjoint_in_def
      proof (intro allI impI notI)
        fix e
        assume e: "env_ok e" "denotes P st e xi True \<and> denotes P st e yi True"
        then obtain a b where "select P (choice_of e (var x)) (children x) = Some a"
          "select P (choice_of e (var x)) (children y) = Some b"
          "denotes P st e (node_negate a xi) True" "denotes P st e (node_negate b yi) True"
          using denotes_node_iff [OF x] denotes_node_iff [OF y] 3 by auto
        then show False using D choice_of_ok [OF e(1)] e(1) unfolding disjoint_in_def by blast
      qed
    qed
    then show ?thesis using 3 by (simp add: disjoint_expansion_def)
  qed
qed

lemma disjointness_fuel_sound:
  assumes laws: "deps_laws P KV KS" and st: "store_ok P KV KS st"
  shows "valid st xi \<Longrightarrow> valid st yi \<Longrightarrow> xi + yi < n \<Longrightarrow>
    sound_test (disjointness_fuel P st n xi yi) (disjoint_in P st xi yi)"
proof (induction n arbitrary: xi yi)
  case (Suc n)
  let ?trivial = "node_is_false xi \<or> node_is_false yi \<or> node_is_true xi \<or> node_is_true yi \<or> xi = yi \<or> node_not xi = yi"
  show ?case
  proof (cases ?trivial)
    case True
    have "disjoint_in P st xi (node_not xi)" "disjoint_in P st NODE_FALSE yi" "disjoint_in P st xi NODE_FALSE"
      using denotes_det by (fastforce simp: disjoint_in_def)+
    then show ?thesis using True by (auto simp: sound_test_def node_is_false_def)
  next
    case False
    then have "\<not> xi < 2" "\<not> yi < 2" by (auto simp: terminal_iff node_is_false_def node_is_true_def)
    then obtain x y where xy: "node_of st xi = Some x" "node_of st yi = Some y"
      using Suc.prems valid_node_of by metis
    have "sound_test (disjoint_expansion P (disjointness_fuel P st n) xi yi x y) (disjoint_in P st xi yi)"
      by (rule disjoint_expansion_sound [OF laws st xy]) (rule Suc.IH, use Suc.prems in auto)
    then show ?thesis using False xy by simp
  qed
qed simp

lemma disjointness_sound:
  assumes "deps_laws P KV KS" "store_ok P KV KS st" "valid st xi" "valid st yi"
  shows "sound_test (disjointness P st xi yi) (disjoint_in P st xi yi)"
  unfolding disjointness_def by (rule disjointness_fuel_sound [OF assms]) simp

section \<open>Conjunctions\<close>

text \<open>What a conjunction returns, in the environments of the class \<open>G\<close>.\<close>

definition both :: "('r, 'q) algebra_deps \<Rightarrow> (context_env \<Rightarrow> bool) \<Rightarrow> ('r, 'q) interner \<Rightarrow> node_id \<Rightarrow> node_id \<Rightarrow>
   context_env \<Rightarrow> bool \<Rightarrow> bool" where
  "both P G st x y e b \<longleftrightarrow> G e \<and> (\<exists>b1 b2. denotes P st e x b1 \<and> denotes P st e y b2 \<and> b = (b1 \<and> b2))"

definition and_spec ::
  "('r, 'q) algebra_deps \<Rightarrow> (context_env \<Rightarrow> bool) \<Rightarrow> ('r, 'q) interner \<Rightarrow> node_id \<Rightarrow> node_id \<Rightarrow> node_id \<Rightarrow> bool" where
  "and_spec P G st x y = outcome P st (\<lambda>w. below st w x \<and> below st w y) (both P G st x y)"

definition cache_ok ::
  "('r, 'q) algebra_deps \<Rightarrow> (context_env \<Rightarrow> bool) \<Rightarrow> ('r, 'q) interner \<Rightarrow>
   (node_id \<times> node_id \<Rightarrow> node_id option) \<Rightarrow> bool" where
  "cache_ok P G st cache \<longleftrightarrow>
     (\<forall>x y r. cache (x, y) = Some r \<longrightarrow> valid st x \<and> valid st y \<and> and_spec P G st x y r)"

lemma both_sym: "both P G st x y = both P G st y x"
  unfolding both_def fun_eq_iff by (metis conj_commute)

lemma and_spec_sym: "and_spec P G st x y = and_spec P G st y x"
  by (simp add: and_spec_def both_sym [of P G st x] conj_commute)

lemma and_spec_grows:
  assumes "store_ok P KV KS st" "grows st st'" "valid st x" "valid st y" "and_spec P G st x y r"
  shows "and_spec P G st' x y r"
proof -
  have "outcome P st' (\<lambda>w. below st w x \<and> below st w y) (both P G st x y) r"
    using outcome_grows [OF assms(2)] assms(5) unfolding and_spec_def by blast
  moreover have "both P G st' x y = both P G st x y"
    using grows_denotes_iff [OF assms(1,2)] assms(3,4) unfolding both_def fun_eq_iff by blast
  ultimately show ?thesis
    unfolding and_spec_def using grows_below [OF assms(2)] assms(3,4) by simp
qed

lemma cache_ok_grows:
  "store_ok P KV KS st \<Longrightarrow> grows st st' \<Longrightarrow> cache_ok P G st cache \<Longrightarrow> cache_ok P G st' cache"
  unfolding cache_ok_def using and_spec_grows grows_valid by blast

lemma cache_ok_update:
  assumes "cache_ok P G st cache" "valid st x" "valid st y" "and_spec P G st x y r"
  shows "cache_ok P G st (cache((x, y) \<mapsto> r))"
  using assms by (auto simp: cache_ok_def)

lemma and_trivial_spec:
  assumes "and_trivial x y = Some r" "valid st x" "valid st y"
  shows "and_spec P G st x y r"
proof -
  have "(x = NODE_TRUE \<and> r = y) \<or> (y = NODE_TRUE \<and> r = x) \<or> (x = y \<and> r = x) \<or>
      (r = NODE_FALSE \<and> (x = NODE_FALSE \<or> y = NODE_FALSE \<or> y = node_not x))"
    using assms(1) by (auto simp: and_trivial_def node_is_true_def node_is_false_def split: if_splits)
  then show ?thesis
    using assms(2,3) unfolding and_spec_def outcome_def both_def
    by (elim disjE conjE) (auto dest: denotes_det)
qed

lemma and_trivial_None:
  assumes "and_trivial x y = None" "valid st x" "valid st y"
  obtains n m where "node_of st x = Some n" "node_of st y = Some m"
proof -
  have "\<not> x < 2" "\<not> y < 2"
    using assms(1) by (auto simp: and_trivial_def terminal_iff node_is_true_def node_is_false_def split: if_splits)
  then show thesis using that assms(2,3) valid_node_of by metis
qed

text \<open>
  The Shannon expansion followed by interning, for an operation \<open>f\<close> that computes conjunctions of smaller
  ids. This is shared by both conjunctions of the source.
\<close>

definition computes_and ::
  "('r, 'q) algebra_deps \<Rightarrow> ('s \<Rightarrow> bool) \<Rightarrow> ('s \<Rightarrow> ('r, 'q) interner) \<Rightarrow> (context_env \<Rightarrow> bool) \<Rightarrow>
   (node_id \<Rightarrow> node_id \<Rightarrow> 's \<Rightarrow> (node_id \<times> 's) option) \<Rightarrow> nat \<Rightarrow> bool" where
  "computes_and P Inv pr G f n \<longleftrightarrow>
     (\<forall>s a b. Inv s \<longrightarrow> valid (pr s) a \<longrightarrow> valid (pr s) b \<longrightarrow> a + b < n \<longrightarrow>
        (\<exists>i s'. f a b s = Some (i, s') \<and> Inv s' \<and> grows (pr s) (pr s') \<and> and_spec P G (pr s') a b i))"

lemma computes_and_runs:
  assumes "computes_and P Inv pr G f n" "\<And>s. Inv s \<Longrightarrow> store_ok P KV KS (pr s)" "store_ok P KV KS st"
    "Inv s" "grows st (pr s)" "valid st a" "valid st b" "a + b < n"
    and "\<And>w. L w \<Longrightarrow> below st w a \<and> below st w b"
  shows "runs P Inv pr s (f a b s) L (both P G st a b)"
proof -
  have v: "valid (pr s) a" "valid (pr s) b" using grows_valid [OF assms(5)] assms(6,7) by blast+
  obtain i s' where i: "f a b s = Some (i, s')" "Inv s'" "grows (pr s) (pr s')" "and_spec P G (pr s') a b i"
    using assms(1,4,8) v unfolding computes_and_def by blast
  have g: "grows st (pr s')" using grows_trans [OF assms(5) i(3)] .
  have "outcome P (pr s') L (both P G st a b) i"
  proof (rule outcome_mono [OF i(4) [unfolded and_spec_def]])
    show "below (pr s') w a \<and> below (pr s') w b" if "L w" for w
      using assms(9) [OF that] grows_below [OF g] assms(6,7) by blast
    show "both P G (pr s') a b e x" if "both P G st a b e x" for e x
      using that grows_denotes [OF _ g] unfolding both_def by blast
  qed
  then show ?thesis using i unfolding runs_def by blast
qed

text \<open>The edges of the expansion lead to the conjunctions of the children that an environment selects.\<close>

definition expands_to ::
  "('r, 'q) algebra_deps \<Rightarrow> ('r \<Rightarrow> bool) \<Rightarrow> ('q \<Rightarrow> bool) \<Rightarrow> (context_env \<Rightarrow> bool) \<Rightarrow> ('r, 'q) interner \<Rightarrow> node_id \<Rightarrow>
   node_id \<Rightarrow> variable \<Rightarrow> ('r, 'q) edges \<Rightarrow> ('r, 'q) interner \<Rightarrow> bool" where
  "expands_to P KV KS G st xi yi v es st' \<longleftrightarrow>
     edges_ok P KV KS v es \<and> (\<forall>c\<in>set (edge_nodes es). valid st' c \<and> below st' v c) \<and>
     (\<forall>w. below st w xi \<longrightarrow> below st w yi \<longrightarrow> w < v) \<and>
     (\<forall>e b. env_ok e \<longrightarrow> both P G st xi yi e b \<longrightarrow>
        (\<exists>c. select P (choice_of e v) es = Some c \<and> denotes P st' e c b))"

lemma edges_run_expands:
  assumes "edges_run P KV KS Inv pr s r (\<lambda>w. w = v) v sel F"
    and "\<And>w. below st w xi \<Longrightarrow> below st w yi \<Longrightarrow> w < v"
    and "\<And>e b. env_ok e \<Longrightarrow> both P G st xi yi e b \<Longrightarrow> \<exists>a. sel (choice_of e v) = Some a \<and> F a e b"
  shows "\<exists>es s'. r = Some (es, s') \<and> Inv s' \<and> grows (pr s) (pr s') \<and> expands_to P KV KS G st xi yi v es (pr s')"
proof -
  from assms(1) obtain es s' where es: "r = Some (es, s')" "Inv s'" "grows (pr s) (pr s')" "edges_ok P KV KS v es"
    "\<forall>c\<in>set (edge_nodes es). valid (pr s') c \<and> (\<forall>w. w = v \<longrightarrow> below (pr s') w c)"
    "edges_rel P (\<lambda>a. outcome P (pr s') (\<lambda>w. w = v) (F a)) sel es"
    unfolding edges_run_def by (elim exE conjE)
  have "\<exists>c. select P (choice_of e v) es = Some c \<and> denotes P (pr s') e c b"
    if e: "env_ok e" "both P G st xi yi e b" for e b
  proof -
    obtain a where a: "sel (choice_of e v) = Some a" "F a e b" using assms(3) [OF e] by blast
    have "rel_option (\<lambda>a. outcome P (pr s') (\<lambda>w. w = v) (F a)) (sel (choice_of e v)) (select P (choice_of e v) es)"
      using es(6) choice_of_ok [OF e(1)] by (simp add: edges_rel_def)
    then obtain c where c: "select P (choice_of e v) es = Some c" "outcome P (pr s') (\<lambda>w. w = v) (F a) c"
      by (auto simp: a(1) option_rel_Some1)
    then show ?thesis using a(2) e(1) unfolding outcome_def by blast
  qed
  then show ?thesis using es assms(2) unfolding expands_to_def by blast
qed

text \<open>A node and the conjunction of its edges with another id.\<close>

lemma both_node:
  assumes "node_of st xi = Some x" "both P G st xi yi e b"
  shows "\<exists>c. select P (choice_of e (var x)) (children x) = Some c \<and> both P G st (node_negate c xi) yi e b"
  using assms(2) denotes_node_iff [OF assms(1)] unfolding both_def by blast

lemma below_node: "node_of st i = Some n \<Longrightarrow> below st w i \<longleftrightarrow> w < var n"
  by (simp add: below_def)

lemma expansion_map:
  assumes laws: "deps_laws P KV KS" and inv: "\<And>s. Inv s \<Longrightarrow> store_ok P KV KS (pr s)"
    and f: "computes_and P Inv pr G f (xi + yi)" and s: "Inv s"
    and x: "node_of (pr s) xi = Some x" and y: "node_of (pr s) yi = Some y" and lt: "var x < var y"
  shows "\<exists>es s'. edges_map P xi (\<lambda>i. f i yi) (children x) s = Some (es, s') \<and> Inv s' \<and> grows (pr s) (pr s') \<and>
    expands_to P KV KS G (pr s) xi yi (var x) es (pr s')"
proof (rule edges_run_expands)
  note st = inv [OF s]
  show "edges_run P KV KS Inv pr s (edges_map P xi (\<lambda>i. f i yi) (children x) s) (\<lambda>w. w = var x) (var x)
      (\<lambda>ch. select P ch (children x)) (\<lambda>c. both P G (pr s) (node_negate c xi) yi)"
  proof (rule edges_map_run [OF laws store_node(1) [OF st x], where st = "pr s"])
    fix c s'
    assume c: "c \<in> set (edge_nodes (children x))" and s': "Inv s'" "grows (pr s) (pr s')"
    show "runs P Inv pr s' (f (node_negate c xi) yi s') (\<lambda>w. w = var x) (both P G (pr s) (node_negate c xi) yi)"
    proof (rule computes_and_runs [OF f inv st s'])
      show "node_negate c xi + yi < xi + yi" using store_node(4) [OF st x c] by simp
      show "below (pr s) w (node_negate c xi) \<and> below (pr s) w yi" if "w = var x" for w
        using store_node(5) [OF st x c] that lt below_node [OF y] by simp
    qed (use store_node(3) [OF st x c] node_of_valid [OF y] in simp_all)
  qed (use s in simp_all)
  show "w < var x" if "below (pr s) w xi" for w using that below_node [OF x] by simp
  show "\<exists>c. select P (choice_of e (var x)) (children x) = Some c \<and> both P G (pr s) (node_negate c xi) yi e b"
    if "both P G (pr s) xi yi e b" for e b
    by (rule both_node [OF x that])
qed

lemma expansion_apply:
  assumes laws: "deps_laws P KV KS" and inv: "\<And>s. Inv s \<Longrightarrow> store_ok P KV KS (pr s)"
    and f: "computes_and P Inv pr G f (xi + yi)" and s: "Inv s"
    and x: "node_of (pr s) xi = Some x" and y: "node_of (pr s) yi = Some y" and eq: "var x = var y"
  shows "\<exists>es s'. edges_apply P f (children x) xi (children y) yi s = Some (es, s') \<and> Inv s' \<and>
    grows (pr s) (pr s') \<and> expands_to P KV KS G (pr s) xi yi (var x) es (pr s')"
proof (rule edges_run_expands)
  note st = inv [OF s]
  note cx = store_node(3-5) [OF st x] and cy = store_node(3-5) [OF st y]
  let ?neg = "\<lambda>(a, b). (node_negate a xi, node_negate b yi)"
  show "edges_run P KV KS Inv pr s (edges_apply P f (children x) xi (children y) yi s) (\<lambda>w. w = var x) (var x)
      (\<lambda>ch. map_option ?neg (select_pair P (children x) (children y) ch)) (\<lambda>(a, b). both P G (pr s) a b)"
  proof (rule edges_apply_run [OF laws store_node(1) [OF st x], where st = "pr s"])
    show "edges_ok P KV KS (var x) (children y)" using store_node(1) [OF st y] eq by simp
    fix a b s'
    assume ab: "a \<in> set (edge_nodes (children x))" "b \<in> set (edge_nodes (children y))"
      and s': "Inv s'" "grows (pr s) (pr s')"
    have "runs P Inv pr s' (f (node_negate a xi) (node_negate b yi) s') (\<lambda>w. w = var x)
        (both P G (pr s) (node_negate a xi) (node_negate b yi))"
    proof (rule computes_and_runs [OF f inv st s'])
      show "node_negate a xi + node_negate b yi < xi + yi"
        using cx(2) [OF ab(1), of xi] cy(2) [OF ab(2), of yi] by linarith
      show "below (pr s) w (node_negate a xi) \<and> below (pr s) w (node_negate b yi)" if "w = var x" for w
        using cx(3) [OF ab(1)] cy(3) [OF ab(2)] that eq by simp
    qed (use cx(1) [OF ab(1)] cy(1) [OF ab(2)] in simp_all)
    then show "runs P Inv pr s' (f (node_negate a xi) (node_negate b yi) s') (\<lambda>w. w = var x)
        (case (node_negate a xi, node_negate b yi) of (a, b) \<Rightarrow> both P G (pr s) a b)" by simp
  qed (use s in simp_all)
  show "w < var x" if "below (pr s) w xi" for w using that below_node [OF x] by simp
  show "\<exists>a. map_option ?neg (select_pair P (children x) (children y) (choice_of e (var x))) = Some a \<and>
      (case a of (a, b) \<Rightarrow> both P G (pr s) a b) e b"
    if bth: "both P G (pr s) xi yi e b" for e b
  proof -
    obtain a where a: "select P (choice_of e (var x)) (children x) = Some a" "both P G (pr s) (node_negate a xi) yi e b"
      using both_node [OF x bth] by blast
    then obtain c where "select P (choice_of e (var y)) (children y) = Some c"
      "both P G (pr s) (node_negate c yi) (node_negate a xi) e b"
      using both_node [OF y, of P G "node_negate a xi" e b] both_sym [of P G "pr s" yi] by auto
    then show ?thesis
      using a(1) eq both_sym [of P G "pr s" "node_negate a xi"] by (simp add: select_pair_def)
  qed
qed

lemma expands_to_sym:
  "expands_to P KV KS G st xi yi v es st' \<longleftrightarrow> expands_to P KV KS G st yi xi v es st'"
  unfolding expands_to_def both_sym [of P G st xi] by blast

lemma and_expansion_expands:
  assumes laws: "deps_laws P KV KS" and inv: "\<And>s. Inv s \<Longrightarrow> store_ok P KV KS (pr s)"
    and f: "computes_and P Inv pr G f (xi + yi)" and s: "Inv s"
    and x: "node_of (pr s) xi = Some x" and y: "node_of (pr s) yi = Some y"
  shows "\<exists>v es s'. and_expansion P f xi yi x y s = Some (v, es, s') \<and> Inv s' \<and> grows (pr s) (pr s') \<and>
    expands_to P KV KS G (pr s) xi yi v es (pr s')"
proof -
  have f': "computes_and P Inv pr G f (yi + xi)" using f by (simp add: add.commute)
  consider "var x < var y" | "var y < var x" | "var x = var y" by fastforce
  then show ?thesis
  proof cases
    case 1
    then show ?thesis
      using expansion_map [where Inv = Inv and pr = pr, OF laws inv f s x y 1]
      by (auto simp: and_expansion_def cmp_of_def)
  next
    case 2
    obtain es s' where "edges_map P yi (\<lambda>i. f i xi) (children y) s = Some (es, s')" "Inv s'" "grows (pr s) (pr s')"
      "expands_to P KV KS G (pr s) yi xi (var y) es (pr s')"
      using expansion_map [where Inv = Inv and pr = pr, OF laws inv f' s y x 2] by blast
    then show ?thesis
      using 2 expands_to_sym [of P KV KS G "pr s" xi] by (auto simp: and_expansion_def cmp_of_def)
  next
    case 3
    then show ?thesis
      using expansion_apply [where Inv = Inv and pr = pr, OF laws inv f s x y 3]
      by (auto simp: and_expansion_def)
  qed
qed

lemma expands_create:
  assumes laws: "deps_laws P KV KS" and st: "store_ok P KV KS st" "store_ok P KV KS st1" "grows st st1"
    and v: "valid st xi" "valid st yi" and ex: "expands_to P KV KS G st xi yi v es st1"
  shows "\<exists>i st2. create_node P v es st1 = Some (i, st2) \<and> store_ok P KV KS st2 \<and> grows st1 st2 \<and>
    and_cache st2 = and_cache st1 \<and> known_exclusions st2 = known_exclusions st1 \<and> and_spec P G st2 xi yi i"
proof -
  note ex = ex [unfolded expands_to_def]
  obtain i st2 where c: "create_node P v es st1 = Some (i, st2)" "node_outcome P KV KS v es st1 i st2"
    using create_node_outcome [OF laws st(2)] ex by blast
  note o = c(2) [unfolded node_outcome_def]
  have g: "grows st st2" using grows_trans [OF st(3)] o by blast
  have "outcome P st2 (\<lambda>w. below st w xi \<and> below st w yi) (both P G st xi yi) i"
    unfolding outcome_def using o ex by blast
  then have "and_spec P G st2 xi yi i"
    unfolding and_spec_def
  proof (rule outcome_mono)
    show "below st w xi \<and> below st w yi" if "below st2 w xi \<and> below st2 w yi" for w
      using that grows_below [OF g] v by blast
    show "both P G st xi yi e b" if "both P G st2 xi yi e b" for e b
      using that grows_denotes_iff [OF st(1) g] v unfolding both_def by blast
  qed
  then show ?thesis using c(1) o by blast
qed

text \<open>
  The state of the conjunction without known exclusions: a store and a correct local cache. The fields of
  the interner that it does not touch are fixed.
\<close>

definition conj_inv ::
  "('r, 'q) algebra_deps \<Rightarrow> ('r \<Rightarrow> bool) \<Rightarrow> ('q \<Rightarrow> bool) \<Rightarrow> (node_id \<times> node_id \<Rightarrow> node_id option) \<Rightarrow>
   node_id option \<Rightarrow> ('r, 'q) cached_interner \<Rightarrow> bool" where
  "conj_inv P KV KS C E s \<longleftrightarrow>
     store_ok P KV KS (fst s) \<and> cache_ok P (\<lambda>_. True) (fst s) (snd s) \<and>
     and_cache (fst s) = C \<and> known_exclusions (fst s) = E"

lemma conjunction_fuel_trivial:
  "conjunction_fuel P (Suc n) xi yi s =
     (case and_trivial xi yi of
        Some r \<Rightarrow> Some (r, s)
      | None \<Rightarrow>
          (case snd s (xi, yi) of
             Some r \<Rightarrow> Some (r, s)
           | None \<Rightarrow>
               do { x \<leftarrow> node_of (fst s) xi;
                    y \<leftarrow> node_of (fst s) yi;
                    (v, es, s') \<leftarrow> and_expansion P (conjunction_fuel P n) xi yi x y s;
                    (i, st') \<leftarrow> create_node P v es (fst s');
                    Some (i, st', (snd s')((xi, yi) \<mapsto> i)) }))"
  by (auto simp: and_trivial_def)

lemma conjunction_fuel_computes:
  assumes laws: "deps_laws P KV KS"
  shows "computes_and P (conj_inv P KV KS C E) fst (\<lambda>_. True) (conjunction_fuel P n) n"
proof (induction n)
  case (Suc n)
  let ?Inv = "conj_inv P KV KS C E" and ?G = "\<lambda>_. True"
  have "\<exists>i s'. conjunction_fuel P (Suc n) xi yi s = Some (i, s') \<and> ?Inv s' \<and> grows (fst s) (fst s') \<and>
      and_spec P ?G (fst s') xi yi i"
    if s: "?Inv s" and v: "valid (fst s) xi" "valid (fst s) yi" and n: "xi + yi < Suc n" for s xi yi
  proof (cases "and_trivial xi yi")
    case (Some r)
    then show ?thesis
      using s and_trivial_spec [OF Some v] by (simp only: conjunction_fuel_trivial option.case) auto
  next
    case None
    note triv = None
    show ?thesis
    proof (cases "snd s (xi, yi)")
      case (Some r)
      then have "and_spec P ?G (fst s) xi yi r" using s by (simp add: conj_inv_def cache_ok_def)
      then show ?thesis using s triv Some by (simp only: conjunction_fuel_trivial option.case) auto
    next
      case None
      obtain x y where xy: "node_of (fst s) xi = Some x" "node_of (fst s) yi = Some y"
        using and_trivial_None [OF triv v] .
      have inv: "\<And>s. ?Inv s \<Longrightarrow> store_ok P KV KS (fst s)" by (simp add: conj_inv_def)
      have "computes_and P ?Inv fst ?G (conjunction_fuel P n) (xi + yi)"
        using Suc n by (auto simp: computes_and_def)
      then obtain w es s1 where e: "and_expansion P (conjunction_fuel P n) xi yi x y s = Some (w, es, s1)"
        "?Inv s1" "grows (fst s) (fst s1)" "expands_to P KV KS ?G (fst s) xi yi w es (fst s1)"
        using and_expansion_expands [where Inv = ?Inv and pr = fst, OF laws inv _ s xy] by blast
      obtain i st2 where c: "create_node P w es (fst s1) = Some (i, st2)" "store_ok P KV KS st2"
        "grows (fst s1) st2" "and_cache st2 = and_cache (fst s1)" "known_exclusions st2 = known_exclusions (fst s1)"
        "and_spec P ?G st2 xi yi i"
        using expands_create [OF laws inv [OF s] inv [OF e(2)] e(3) v e(4)] by blast
      have g: "grows (fst s) st2" using grows_trans [OF e(3) c(3)] .
      have "cache_ok P ?G st2 (snd s1)"
        using cache_ok_grows [OF inv [OF e(2)] c(3)] e(2) by (simp add: conj_inv_def)
      then have "cache_ok P ?G st2 ((snd s1)((xi, yi) \<mapsto> i))"
        using c(6) grows_valid [OF g] v by (intro cache_ok_update) simp_all
      then have "?Inv (st2, (snd s1)((xi, yi) \<mapsto> i))"
        using c e(2) by (simp add: conj_inv_def)
      then show ?thesis
        unfolding conjunction_fuel_trivial triv None option.case using xy e(1) c(1,6) g by simp
    qed
  qed
  then show ?case unfolding computes_and_def by blast
qed (simp add: computes_and_def)

lemma conjunction_runs:
  assumes "deps_laws P KV KS" "conj_inv P KV KS C E s" "valid (fst s) xi" "valid (fst s) yi"
  shows "\<exists>i s'. conjunction P xi yi s = Some (i, s') \<and> conj_inv P KV KS C E s' \<and> grows (fst s) (fst s') \<and>
    and_spec P (\<lambda>_. True) (fst s') xi yi i"
  using conjunction_fuel_computes [OF assms(1), of C E "Suc (xi + yi)"] assms(2-4)
  unfolding computes_and_def conjunction_def by blast

text \<open>What a disjunction returns.\<close>

definition either :: "('r, 'q) algebra_deps \<Rightarrow> (context_env \<Rightarrow> bool) \<Rightarrow> ('r, 'q) interner \<Rightarrow> node_id \<Rightarrow> node_id \<Rightarrow>
   context_env \<Rightarrow> bool \<Rightarrow> bool" where
  "either P G st x y e b \<longleftrightarrow> G e \<and> (\<exists>b1 b2. denotes P st e x b1 \<and> denotes P st e y b2 \<and> b = (b1 \<or> b2))"

definition or_spec ::
  "('r, 'q) algebra_deps \<Rightarrow> (context_env \<Rightarrow> bool) \<Rightarrow> ('r, 'q) interner \<Rightarrow> node_id \<Rightarrow> node_id \<Rightarrow> node_id \<Rightarrow> bool" where
  "or_spec P G st x y = outcome P st (\<lambda>w. below st w x \<and> below st w y) (either P G st x y)"

lemma or_spec_not:
  assumes "and_spec P G st (node_not x) (node_not y) i"
  shows "or_spec P G st x y (node_not i)"
proof -
  have "either P G st x y = (\<lambda>e b. both P G st (node_not x) (node_not y) e (\<not> b))"
    unfolding either_def both_def denotes_not fun_eq_iff by (auto simp: ex_bool_eq)
  then show ?thesis
    using outcome_not [OF assms [unfolded and_spec_def]] by (simp add: or_spec_def)
qed

lemma disjunction_runs:
  assumes "deps_laws P KV KS" "conj_inv P KV KS C E s" "valid (fst s) xi" "valid (fst s) yi"
  shows "\<exists>i s'. disjunction P xi yi s = Some (i, s') \<and> conj_inv P KV KS C E s' \<and> grows (fst s) (fst s') \<and>
    or_spec P (\<lambda>_. True) (fst s') xi yi i"
proof -
  obtain i s' where "conjunction P (node_not xi) (node_not yi) s = Some (i, s')" "conj_inv P KV KS C E s'"
    "grows (fst s) (fst s')" "and_spec P (\<lambda>_. True) (fst s') (node_not xi) (node_not yi) i"
    using conjunction_runs [OF assms(1,2), of "node_not xi" "node_not yi"] assms(3,4) by auto
  then show ?thesis using or_spec_not by (auto simp: disjunction_def)
qed

section \<open>Known exclusions\<close>

text \<open>An id that denotes a given predicate in every environment.\<close>

definition means :: "('r, 'q) algebra_deps \<Rightarrow> ('r, 'q) interner \<Rightarrow> (context_env \<Rightarrow> bool) \<Rightarrow> node_id \<Rightarrow> bool" where
  "means P st Q i \<longleftrightarrow> valid st i \<and> (\<forall>e. env_ok e \<longrightarrow> denotes P st e i (Q e))"

lemma means_grows: "grows st st' \<Longrightarrow> means P st Q i \<Longrightarrow> means P st' Q i"
  using grows_valid grows_denotes unfolding means_def by blast

lemma means_and:
  "and_spec P (\<lambda>_. True) st x y i \<Longrightarrow> means P st A x \<Longrightarrow> means P st B y \<Longrightarrow> means P st (\<lambda>e. A e \<and> B e) i"
  unfolding means_def and_spec_def outcome_def both_def by blast

lemma means_or:
  "or_spec P (\<lambda>_. True) st x y i \<Longrightarrow> means P st A x \<Longrightarrow> means P st B y \<Longrightarrow> means P st (\<lambda>e. A e \<or> B e) i"
  unfolding means_def or_spec_def outcome_def either_def by blast

text \<open>The edges of a range: true inside, false outside.\<close>

lemma set_sort_by [simp]: "set (sort_by cmp xs) = set xs"
proof -
  have "set (insert_by cmp x xs) = insert x (set xs)" for x xs by (induction xs) auto
  then show ?thesis by (induction xs) (simp_all add: sort_by_def)
qed

lemma first_edge_unique:
  assumes "\<exists>(rng, c)\<in>set es. inside rng" "\<And>rng c. (rng, c) \<in> set es \<Longrightarrow> inside rng \<Longrightarrow> c = d"
  shows "first_edge inside es = Some d"
proof (cases "first_edge inside es")
  case None
  then show ?thesis using assms(1) unfolding first_edge_None by auto
next
  case (Some c)
  obtain rng where "(rng, c) \<in> set es" "inside rng" using first_edge_in [OF Some] by (elim exE conjE)
  then have "c = d" by (rule assms(2))
  then show ?thesis using Some by simp
qed

lemma range_segments:
  assumes "range_laws I T K" "K r" "b \<in> set (i_iter I r)"
  shows "i_bounding_range I (i_from_range_bounds I b) \<noteq> None" "K (i_from_range_bounds I b)"
  using assms unfolding range_laws_def range_closed_def by blast+

lemma range_segments_mem:
  assumes "range_laws I T K" "K r" "T v"
  shows "i_contains I r v \<longleftrightarrow> (\<exists>b\<in>set (i_iter I r). i_contains I (i_from_range_bounds I b) v)"
  using assms unfolding range_laws_def range_members_def by blast

lemma edges_from_range_total:
  assumes laws: "range_laws I T K" and rng: "K rng"
  shows "\<exists>es. edges_from_range I rng = Some es \<and> all_K K es \<and> snd ` set es \<subseteq> {NODE_TRUE, NODE_FALSE} \<and>
    (\<forall>v. T v \<longrightarrow> first_edge (\<lambda>r. i_contains I r v) es = Some (if i_contains I rng v then NODE_TRUE else NODE_FALSE))"
proof -
  let ?edge = "\<lambda>t b. (i_from_range_bounds I b, t)" and ?out = "i_complement I rng"
  let ?es = "map (?edge NODE_TRUE) (i_iter I rng) @ map (?edge NODE_FALSE) (i_iter I ?out)"
  have out: "K ?out" using range_K(3) [OF laws rng rng] .
  note seg = range_segments [OF laws rng] range_segments [OF laws out]
  have "\<not> list_ex (\<lambda>e. i_bounding_range I (fst e) = None) ?es" using seg(1,3) by (auto simp: list_ex_iff)
  then have "edges_from_range I rng = Some (sort_by (edge_cmp I) ?es)"
    unfolding edges_from_range_def Let_def by simp
  moreover have "all_K K (sort_by (edge_cmp I) ?es)" using seg(2,4) by (auto simp: all_K_def)
  moreover have "snd ` set (sort_by (edge_cmp I) ?es) \<subseteq> {NODE_TRUE, NODE_FALSE}" by auto
  moreover have "first_edge (\<lambda>r. i_contains I r v) (sort_by (edge_cmp I) ?es) =
      Some (if i_contains I rng v then NODE_TRUE else NODE_FALSE)" if "T v" for v
  proof (rule first_edge_unique)
    note mem = range_segments_mem [OF laws rng that] range_segments_mem [OF laws out that]
      range_mem(3) [OF laws rng rng that]
    show "\<exists>(rng, c)\<in>set (sort_by (edge_cmp I) ?es). i_contains I rng v"
      using mem by (cases "i_contains I rng v") auto
    show "c = (if i_contains I rng v then NODE_TRUE else NODE_FALSE)"
      if "(r, c) \<in> set (sort_by (edge_cmp I) ?es)" "i_contains I r v" for r c
      using that mem by auto
  qed
  ultimately show ?thesis by blast
qed

definition same_tables :: "('r, 'q) interner \<Rightarrow> ('r, 'q) interner \<Rightarrow> bool" where
  "same_tables st st' \<longleftrightarrow> and_cache st' = and_cache st \<and> known_exclusions st' = known_exclusions st"

lemma same_tables_trans [trans]: "same_tables st1 st2 \<Longrightarrow> same_tables st2 st3 \<Longrightarrow> same_tables st1 st3"
  by (simp add: same_tables_def)

text \<open>A decision on one variable, in the environments of the class \<open>D\<close>.\<close>

lemma leaf_node:
  assumes laws: "deps_laws P KV KS" and st: "store_ok P KV KS st" and ok: "edges_ok P KV KS v es"
    and leaf: "set (edge_nodes es) \<subseteq> {NODE_TRUE, NODE_FALSE}"
    and sel: "\<And>e. env_ok e \<Longrightarrow> D e \<Longrightarrow> select P (choice_of e v) es = Some (if Q e then NODE_TRUE else NODE_FALSE)"
  shows "\<exists>i st'. create_node P v es st = Some (i, st') \<and> store_ok P KV KS st' \<and> grows st st' \<and>
    same_tables st st' \<and> outcome P st' (\<lambda>w. w < v) (\<lambda>e b. D e \<and> b = Q e) i"
proof -
  have "\<forall>c\<in>set (edge_nodes es). valid st c \<and> below st v c" using leaf by auto
  then obtain i st' where i: "create_node P v es st = Some (i, st')" "node_outcome P KV KS v es st i st'"
    using create_node_outcome [OF laws st ok] by blast
  have "denotes P st' e i (Q e)" if "env_ok e" "D e" for e
  proof -
    have "denotes P st e (if Q e then NODE_TRUE else NODE_FALSE) (Q e)" by simp
    then show ?thesis using i(2) that(1) sel [OF that] unfolding node_outcome_def by blast
  qed
  then show ?thesis using i unfolding node_outcome_def outcome_def same_tables_def by blast
qed

text \<open>The leaf \<open>key == 'value'\<close>.\<close>

definition atom_holds :: "canonical_string \<times> string \<Rightarrow> context_env \<Rightarrow> bool" where
  "atom_holds a e \<longleftrightarrow> get_string (fst e) (fst a) = snd a"

lemma string_edges_node:
  assumes laws: "deps_laws P KV KS" and st: "store_ok P KV KS st" and K: "KS rng"
    and es: "edges_from_range (string_ranges P) rng = Some es"
  shows "\<exists>i st'. create_node P (VString k) (EString es) st = Some (i, st') \<and> store_ok P KV KS st' \<and> grows st st' \<and>
    same_tables st st' \<and> means P st' (\<lambda>e. i_contains (string_ranges P) rng (get_string (fst e) k)) i"
proof -
  let ?Q = "\<lambda>e. i_contains (string_ranges P) rng (get_string (fst e) k)"
  have r: "all_K KS es" "snd ` set es \<subseteq> {NODE_TRUE, NODE_FALSE}"
    "first_edge (\<lambda>r. i_contains (string_ranges P) r s) es =
       Some (if i_contains (string_ranges P) rng s then NODE_TRUE else NODE_FALSE)" for s
    using edges_from_range_total [OF deps_lawsD(2) [OF laws] K] es by auto
  have ok: "edges_ok P KV KS (VString k) (EString es)"
    using r covers_nonempty [of P "EString es"] by (simp add: edges_ok_def)
  have "\<exists>i st'. create_node P (VString k) (EString es) st = Some (i, st') \<and> store_ok P KV KS st' \<and> grows st st' \<and>
      same_tables st st' \<and> outcome P st' (\<lambda>w. w < VString k) (\<lambda>e b. True \<and> b = ?Q e) i"
    by (rule leaf_node [OF laws st ok]) (use r in simp_all)
  then show ?thesis unfolding outcome_def means_def by blast
qed

lemma string_node_equal:
  assumes laws: "deps_laws P KV KS" and st: "store_ok P KV KS st"
  shows "\<exists>i st'. string_node P k MoEqual value st = Some (i, st') \<and> store_ok P KV KS st' \<and> grows st st' \<and>
    same_tables st st' \<and> means P st' (atom_holds (k, value)) i"
proof -
  let ?S = "string_ranges P" and ?rng = "i_singleton (string_ranges P) value"
  note S = deps_lawsD(2) [OF laws]
  have K: "KS ?rng" using S [THEN range_closedD] by (simp add: range_closed_def)
  have m: "i_contains ?S ?rng s \<longleftrightarrow> s = value" for s
    using S [THEN range_membersD] deps_lawsD(5) [OF laws] by (simp add: range_members_def)
  obtain es where es: "edges_from_range ?S ?rng = Some es" using edges_from_range_total [OF S K] by blast
  then have "string_node P k MoEqual value st = create_node P (VString k) (EString es) st"
    by (simp add: string_node_def edges_from_string_def string_range_def)
  then show ?thesis
    using string_edges_node [OF laws st K es, of k] unfolding atom_holds_def m by simp
qed

lemma create_atoms_runs:
  "deps_laws P KV KS \<Longrightarrow> store_ok P KV KS st \<Longrightarrow> \<exists>ids st'. create_atoms P atoms st = Some (ids, st') \<and> store_ok P KV KS st' \<and>
    grows st st' \<and> same_tables st st' \<and> list_all2 (\<lambda>a. means P st' (atom_holds a)) atoms ids"
proof (induction P atoms st rule: create_atoms.induct)
  case (2 P k val atoms st)
  obtain i st1 where i: "string_node P k MoEqual val st = Some (i, st1)" "store_ok P KV KS st1" "grows st st1"
    "same_tables st st1" "means P st1 (atom_holds (k, val)) i"
    using string_node_equal [OF 2(2,3)] by blast
  obtain ids st2 where r: "create_atoms P atoms st1 = Some (ids, st2)" "store_ok P KV KS st2" "grows st1 st2"
    "same_tables st1 st2" "list_all2 (\<lambda>a. means P st2 (atom_holds a)) atoms ids"
    using 2(1) [OF i(1) refl 2(2) i(2)] by blast
  show ?case
    using i(1) r grows_trans [OF i(3) r(3)] same_tables_trans [OF i(4) r(4)] means_grows [OF r(3) i(5)] by simp
qed (simp add: same_tables_def)

text \<open>The combinations of values that the code takes to be impossible.\<close>

definition incompatible_pairs :: "((canonical_string \<times> string) \<times> (canonical_string \<times> string)) list" where
  "incompatible_pairs =
     map (\<lambda>(a, b). ((OsName, a), (SysPlatform, b)))
       [(''nt'', ''linux''), (''nt'', ''darwin''), (''nt'', ''ios''), (''posix'', ''win32'')] @
     concat (map (\<lambda>s. map (\<lambda>p. ((PlatformSystem, s), (SysPlatform, p)))
         (filter (\<lambda>p. \<not> (p = ''ios'' \<and> (s = ''iOS'' \<or> s = ''iPadOS'')))
           [''aix'', ''android'', ''emscripten'', ''ios'', ''linux'', ''darwin'', ''win32'', ''cygwin'', ''wasi'']))
       [''FreeBSD'', ''NetBSD'', ''OpenBSD'', ''SunOS'', ''iOS'', ''iPadOS''])"

definition consistent :: "context_env \<Rightarrow> bool" where
  "consistent e \<longleftrightarrow> list_all (\<lambda>(a, b). \<not> (atom_holds a e \<and> atom_holds b e)) incompatible_pairs"

text \<open>An environment with given strings.\<close>

definition strings_env :: "(canonical_string \<Rightarrow> string) \<Rightarrow> context_env" where
  "strings_env g =
     (let zero = string_version_of (Full (plain_full [0])) in
      (\<lparr>implementation_name = g ImplementationName, implementation_version = zero, os_name = g OsName,
        platform_machine = g PlatformMachine, platform_python_implementation = g PlatformPythonImplementation,
        platform_release = g PlatformRelease, platform_system = g PlatformSystem,
        platform_version = g PlatformVersion, python_full_version = zero, python_version = zero,
        sys_platform = g SysPlatform\<rparr>, ExtrasEnv []))"

lemma strings_env: "get_string (fst (strings_env g)) k = g k" "env_ok (strings_env g)"
proof -
  have "ok_version (Full (plain_full [0]))" by code_simp
  then have "ok_version (get_version (fst (strings_env g)) k)" for k
    by (cases k) (simp_all add: strings_env_def string_version_of_def Let_def)
  then show "env_ok (strings_env g)" by (simp add: env_ok_def)
  show "get_string (fst (strings_env g)) k = g k" by (cases k) (simp_all add: strings_env_def Let_def)
qed

lemma atoms_distinct:
  assumes "means P st (atom_holds a) i" "means P st (atom_holds b) j" "a \<noteq> b"
  shows "i \<noteq> j"
proof
  assume "i = j"
  let ?e = "strings_env (\<lambda>k. if k = fst a then snd a else snd b @ ''.'')"
  have "denotes P st ?e i (atom_holds a ?e)" "denotes P st ?e i (atom_holds b ?e)"
    using assms(1,2) strings_env(2) \<open>i = j\<close> unfolding means_def by blast+
  then have "atom_holds a ?e = atom_holds b ?e" by (rule denotes_det)
  moreover have "atom_holds a ?e" by (simp add: atom_holds_def strings_env)
  ultimately show False using assms(3) by (auto simp: atom_holds_def strings_env prod_eq_iff split: if_splits)
qed

lemma atoms_distinct_list:
  assumes "list_all2 (\<lambda>a. means P st (atom_holds a)) atoms ids" "distinct atoms"
  shows "distinct ids"
  using assms
proof (induction rule: list_all2_induct)
  case (Cons a atoms i ids)
  have "i \<notin> set ids"
  proof
    assume "i \<in> set ids"
    then obtain k where k: "k < length ids" "i = ids ! k" by (auto simp: in_set_conv_nth)
    then have "means P st (atom_holds (atoms ! k)) i" "a \<noteq> atoms ! k"
      using Cons.hyps(2) Cons.prems by (auto simp: list_all2_conv_all_nth)
    then show False using atoms_distinct [OF Cons.hyps(1)] by blast
  qed
  then show ?case using Cons by simp
qed simp

lemma exclusion_pairs_mean:
  assumes "list_all2 (\<lambda>a. means P st (atom_holds a)) exclusion_atoms ids"
  shows "list_all2 (\<lambda>(a, b) (i, j). means P st (atom_holds a) i \<and> means P st (atom_holds b) j)
    incompatible_pairs (exclusion_pairs ids)"
proof -
  have "distinct exclusion_atoms" by (simp add: exclusion_atoms_def)
  then have d: "distinct ids" by (rule atoms_distinct_list [OF assms])
  obtain a0 a1 a2 a3 a4 a5 a6 a7 a8 a9 a10 a11 a12 a13 a14 a15 a16 where ids:
    "ids = [a0, a1, a2, a3, a4, a5, a6, a7, a8, a9, a10, a11, a12, a13, a14, a15, a16]"
    using assms unfolding exclusion_atoms_def list_all2_Cons1 list_all2_Nil by (elim exE conjE) simp
  have ne: "a6 \<noteq> a10" "a6 \<noteq> a11" "a7 \<noteq> a10" "a7 \<noteq> a11" "a8 \<noteq> a10" "a8 \<noteq> a11" "a9 \<noteq> a10" "a9 \<noteq> a11"
    "a4 \<noteq> a12" "a4 \<noteq> a13" "a4 \<noteq> a14" "a2 \<noteq> a4" "a3 \<noteq> a4" "a4 \<noteq> a5" "a4 \<noteq> a15" "a4 \<noteq> a16"
    using d unfolding ids by simp_all
  show ?thesis
    using assms unfolding exclusion_atoms_def ids by (simp add: incompatible_pairs_def exclusion_pairs_def ne ne [symmetric])
qed

lemma exclude_pairs_runs:
  assumes laws: "deps_laws P KV KS"
  shows "list_all2 (\<lambda>(a, b) (i, j). means P (fst s) (atom_holds a) i \<and> means P (fst s) (atom_holds b) j) ps pairs \<Longrightarrow>
    conj_inv P KV KS C E s \<Longrightarrow> means P (fst s) T tree \<Longrightarrow>
    \<exists>i s'. exclude_pairs P pairs tree s = Some (i, s') \<and> conj_inv P KV KS C E s' \<and> grows (fst s) (fst s') \<and>
      means P (fst s') (\<lambda>e. T e \<or> list_ex (\<lambda>(a, b). atom_holds a e \<and> atom_holds b e) ps) i"
proof (induction ps arbitrary: pairs T tree s)
  case (Cons p ps)
  obtain a b where p: "p = (a, b)" by (cases p)
  from Cons.prems(1) obtain i j rest where pairs: "pairs = (i, j) # rest"
    and ij: "means P (fst s) (atom_holds a) i" "means P (fst s) (atom_holds b) j"
    and rest: "list_all2 (\<lambda>(a, b) (i, j). means P (fst s) (atom_holds a) i \<and> means P (fst s) (atom_holds b) j) ps rest"
    by (auto simp: p list_all2_Cons1)
  obtain k s1 where k: "conjunction P i j s = Some (k, s1)" "conj_inv P KV KS C E s1" "grows (fst s) (fst s1)"
    "and_spec P (\<lambda>_. True) (fst s1) i j k"
    using conjunction_runs [OF laws Cons.prems(2)] ij unfolding means_def by blast
  have mk: "means P (fst s1) (\<lambda>e. atom_holds a e \<and> atom_holds b e) k"
    by (rule means_and [OF k(4)]) (use means_grows [OF k(3)] ij in blast)+
  have mt: "means P (fst s1) T tree" using means_grows [OF k(3) Cons.prems(3)] .
  obtain t s2 where t: "disjunction P tree k s1 = Some (t, s2)" "conj_inv P KV KS C E s2" "grows (fst s1) (fst s2)"
    "or_spec P (\<lambda>_. True) (fst s2) tree k t"
    using disjunction_runs [OF laws k(2)] mk mt unfolding means_def by blast
  have mt': "means P (fst s2) (\<lambda>e. T e \<or> atom_holds a e \<and> atom_holds b e) t"
    by (rule means_or [OF t(4)]) (use means_grows [OF t(3)] mk mt in blast)+
  have g: "grows (fst s) (fst s2)" using grows_trans [OF k(3) t(3)] .
  have rest': "list_all2 (\<lambda>(a, b) (i, j). means P (fst s2) (atom_holds a) i \<and> means P (fst s2) (atom_holds b) j) ps rest"
    by (rule list_all2_mono [OF rest]) (use means_grows [OF g] in auto)
  obtain i' s3 where "exclude_pairs P rest t s2 = Some (i', s3)" "conj_inv P KV KS C E s3" "grows (fst s2) (fst s3)"
    "means P (fst s3) (\<lambda>e. (T e \<or> atom_holds a e \<and> atom_holds b e) \<or>
       list_ex (\<lambda>(a, b). atom_holds a e \<and> atom_holds b e) ps) i'"
    using Cons.IH [OF rest' t(2) mt'] by blast
  then show ?case
    using k(1) t(1) grows_trans [OF g] by (simp add: pairs p disj_assoc)
qed simp

section \<open>The invariant of the interner\<close>

text \<open>
  The store is in order, the cache of conjunctions is correct in consistent environments, and the tree of
  exclusions, once built, denotes the inconsistent environments.
\<close>

definition interner_ok :: "('r, 'q) algebra_deps \<Rightarrow> ('r \<Rightarrow> bool) \<Rightarrow> ('q \<Rightarrow> bool) \<Rightarrow> ('r, 'q) interner \<Rightarrow> bool" where
  "interner_ok P KV KS st \<longleftrightarrow>
     store_ok P KV KS st \<and> cache_ok P consistent st (and_cache st) \<and>
     (\<forall>t. known_exclusions st = Some t \<longrightarrow> means P st (\<lambda>e. \<not> consistent e) t)"

lemma same_nodes:
  assumes "nodes st' = nodes st" "unique st' = unique st"
  shows "store_ok P KV KS st' \<longleftrightarrow> store_ok P KV KS st" "cache_ok P G st' cache \<longleftrightarrow> cache_ok P G st cache"
    "means P st' Q i \<longleftrightarrow> means P st Q i"
proof -
  have n: "node_of st' = node_of st" unfolding node_of_def assms ..
  have d: "denotes P st' e i b \<longleftrightarrow> denotes P st e i b" for e i b
    using grows_denotes [of P st e i b st'] grows_denotes [of P st' e i b st] assms by (auto simp: grows_def)
  show "store_ok P KV KS st' \<longleftrightarrow> store_ok P KV KS st" by (simp add: store_ok_def below_def n assms)
  show "means P st' Q i \<longleftrightarrow> means P st Q i" by (simp add: means_def valid_def d assms)
  show "cache_ok P G st' cache \<longleftrightarrow> cache_ok P G st cache"
    by (simp add: cache_ok_def and_spec_def outcome_def both_def below_def valid_def n d assms)
qed

lemma interner_okD:
  assumes "interner_ok P KV KS st"
  shows "store_ok P KV KS st" "cache_ok P consistent st (and_cache st)"
    "known_exclusions st = Some t \<Longrightarrow> means P st (\<lambda>e. \<not> consistent e) t"
  using assms by (simp_all add: interner_ok_def)

lemma interner_ok_default: "interner_ok P KV KS interner_default"
  by (simp add: interner_ok_def store_ok_def cache_ok_def interner_default_def)

lemma interner_ok_grows:
  assumes "interner_ok P KV KS st" "store_ok P KV KS st'" "grows st st'" "same_tables st st'"
  shows "interner_ok P KV KS st'"
  using assms cache_ok_grows [OF interner_okD(1) [OF assms(1)] assms(3)] means_grows [OF assms(3)]
  unfolding interner_ok_def same_tables_def by metis

lemma exclusions_runs:
  assumes laws: "deps_laws P KV KS" and st: "interner_ok P KV KS st"
  shows "\<exists>t st'. exclusions P st = Some (t, st') \<and> interner_ok P KV KS st' \<and> grows st st' \<and>
    means P st' (\<lambda>e. \<not> consistent e) t"
proof (cases "known_exclusions st")
  case (Some t)
  then show ?thesis using st interner_okD(3) [OF st Some] by (simp add: exclusions_def)
next
  case None
  obtain ids st1 where a: "create_atoms P exclusion_atoms st = Some (ids, st1)" "store_ok P KV KS st1" "grows st st1"
    "same_tables st st1" "list_all2 (\<lambda>a. means P st1 (atom_holds a)) exclusion_atoms ids"
    using create_atoms_runs [OF laws interner_okD(1) [OF st]] by blast
  have inv: "conj_inv P KV KS (and_cache st) None (st1, Map.empty)"
    using a(2,4) None by (simp add: conj_inv_def cache_ok_def same_tables_def)
  have pairs: "list_all2 (\<lambda>(a, b) (i, j). means P (fst (st1, Map.empty)) (atom_holds a) i \<and>
      means P (fst (st1, Map.empty)) (atom_holds b) j) incompatible_pairs (exclusion_pairs ids)"
    unfolding fst_conv by (rule exclusion_pairs_mean [OF a(5)])
  have none: "means P (fst (st1, Map.empty)) (\<lambda>_. False) NODE_FALSE" by (simp add: means_def)
  have "\<not> consistent e \<longleftrightarrow> False \<or> list_ex (\<lambda>(a, b). atom_holds a e \<and> atom_holds b e) incompatible_pairs" for e
    unfolding consistent_def list_ex_iff list_all_iff by fast
  then obtain t s2 where t: "exclude_pairs P (exclusion_pairs ids) NODE_FALSE (st1, Map.empty) = Some (t, s2)"
    "conj_inv P KV KS (and_cache st) None s2" "grows st1 (fst s2)" "means P (fst s2) (\<lambda>e. \<not> consistent e) t"
    using exclude_pairs_runs [OF laws pairs inv none] unfolding fst_conv by (elim exE conjE) simp
  let ?st = "fst s2\<lparr>known_exclusions := Some t\<rparr>"
  have g: "grows st (fst s2)" using grows_trans [OF a(3) t(3)] .
  have same: "nodes ?st = nodes (fst s2)" "unique ?st = unique (fst s2)" by simp_all
  have "cache_ok P consistent (fst s2) (and_cache (fst s2))"
    using cache_ok_grows [OF interner_okD(1) [OF st] g interner_okD(2) [OF st]] t(2) by (simp add: conj_inv_def)
  then have "interner_ok P KV KS ?st"
    using t(2,4) by (simp add: interner_ok_def conj_inv_def same_nodes [OF same])
  moreover have "means P ?st (\<lambda>e. \<not> consistent e) t" using t(4) by (simp add: same_nodes [OF same])
  moreover have "grows st ?st" using g by (simp add: grows_def)
  ultimately show ?thesis using None a(1) t(1) by (cases s2) (simp add: exclusions_def)
qed

section \<open>Conjunction and disjunction\<close>

lemma and_spec_false:
  assumes "and_spec P consistent st xi yi i" "means P st (\<lambda>e. \<not> consistent e) t" "disjoint_in P st i (node_not t)"
  shows "and_spec P consistent st xi yi NODE_FALSE"
proof -
  have "\<not> b" if "env_ok e" "both P consistent st xi yi e b" for e b
  proof -
    have "consistent e" using that(2) by (simp add: both_def)
    then have "denotes P st e (node_not t) True" using assms(2) that(1) unfolding means_def by fastforce
    then have "\<not> denotes P st e i True" using assms(3) that(1) unfolding disjoint_in_def by blast
    moreover have "denotes P st e i b" using assms(1) that unfolding and_spec_def outcome_def by blast
    ultimately show ?thesis by (cases b) simp_all
  qed
  then show ?thesis by (auto simp: and_spec_def outcome_def)
qed

text \<open>The check against the known exclusions.\<close>

lemma exclusion_check_runs:
  assumes laws: "deps_laws P KV KS" and st: "interner_ok P KV KS st" and v: "valid st xi" "valid st yi"
    and i: "and_spec P consistent st xi yi i"
  shows "\<exists>r st'. (if conflicting
      then do { (e, st3) \<leftarrow> exclusions P st;
                disjoint \<leftarrow> disjointness P st3 i (node_not e);
                Some (if disjoint then NODE_FALSE else i, st3) }
      else Some (i, st)) = Some (r, st') \<and>
    interner_ok P KV KS st' \<and> grows st st' \<and> and_spec P consistent st' xi yi r"
proof (cases conflicting)
  case True
  obtain t st' where t: "exclusions P st = Some (t, st')" "interner_ok P KV KS st'" "grows st st'"
    "means P st' (\<lambda>e. \<not> consistent e) t"
    using exclusions_runs [OF laws st] by blast
  have i': "and_spec P consistent st' xi yi i" by (rule and_spec_grows [OF interner_okD(1) [OF st] t(3) v i])
  then have "valid st' i" "valid st' (node_not t)" using t(4) by (simp_all add: and_spec_def outcome_def means_def)
  then obtain b where "disjointness P st' i (node_not t) = Some b" "b \<longrightarrow> disjoint_in P st' i (node_not t)"
    using disjointness_sound [OF laws interner_okD(1) [OF t(2)]] unfolding sound_test_def by blast
  then show ?thesis using True t i' and_spec_false [OF i' t(4)] by auto
qed (use st i in simp)

lemma and_nontrivial_step_runs:
  assumes laws: "deps_laws P KV KS" and st: "interner_ok P KV KS st" and v: "valid st xi" "valid st yi"
    and triv: "and_trivial xi yi = None" and f: "computes_and P (interner_ok P KV KS) id consistent f (xi + yi)"
  shows "\<exists>i st'. and_nontrivial_step P f xi yi st = Some (i, st') \<and> interner_ok P KV KS st' \<and> grows st st' \<and>
    and_spec P consistent st' xi yi i"
proof -
  define key where "key = (if xi < yi then (xi, yi) else (yi, xi))"
  have key: "fst key = xi \<and> snd key = yi \<or> fst key = yi \<and> snd key = xi" by (simp add: key_def)
  have sym: "and_spec P consistent st' (fst key) (snd key) r \<longleftrightarrow> and_spec P consistent st' xi yi r" for st' r
    using key and_spec_sym [of P consistent st' xi] by auto
  show ?thesis
  proof (cases "and_cache st key")
    case (Some r)
    then have "and_spec P consistent st (fst key) (snd key) r"
      using interner_okD(2) [OF st] unfolding cache_ok_def by (metis prod.collapse)
    then show ?thesis using st sym Some by (simp add: and_nontrivial_step_def key_def [symmetric])
  next
    case None
    obtain x y where xy: "node_of (id st) xi = Some x" "node_of (id st) yi = Some y"
      using and_trivial_None [OF triv v] by auto
    note store = interner_okD(1)
    have inv: "\<And>s. interner_ok P KV KS s \<Longrightarrow> store_ok P KV KS (id s)" using store by simp
    obtain w es st1 where e: "and_expansion P f xi yi x y st = Some (w, es, st1)" "interner_ok P KV KS st1"
      "grows (id st) (id st1)" "expands_to P KV KS consistent (id st) xi yi w es (id st1)"
      using and_expansion_expands [where Inv = "interner_ok P KV KS" and pr = id, OF laws inv f st xy] by blast
    obtain i st2 where c: "create_node P w es st1 = Some (i, st2)" "store_ok P KV KS st2" "grows st1 st2"
      "and_cache st2 = and_cache st1" "known_exclusions st2 = known_exclusions st1" "and_spec P consistent st2 xi yi i"
      using expands_create [OF laws store [OF st] store [OF e(2)] e(3) [unfolded id_apply] v
          e(4) [unfolded id_apply]] by blast
    have st2: "interner_ok P KV KS st2" "grows st st2"
      using interner_ok_grows [OF e(2) c(2,3)] c(4,5) e(3) grows_trans [OF _ c(3)] by (auto simp: same_tables_def)
    obtain r st3 where r: "(if is_conflicting_variable (var x) \<and> is_conflicting_variable (var y)
        then do { (e, st3) \<leftarrow> exclusions P st2;
                  disjoint \<leftarrow> disjointness P st3 i (node_not e);
                  Some (if disjoint then NODE_FALSE else i, st3) }
        else Some (i, st2)) = Some (r, st3)"
      "interner_ok P KV KS st3" "grows st2 st3" "and_spec P consistent st3 xi yi r"
      using exclusion_check_runs [OF laws st2(1) _ _ c(6)] grows_valid [OF st2(2)] v by meson
    let ?st = "st3\<lparr>and_cache := (and_cache st3)(key \<mapsto> r)\<rparr>"
    have g: "grows st st3" using grows_trans [OF st2(2) r(3)] .
    have same: "nodes ?st = nodes st3" "unique ?st = unique st3" by simp_all
    have "cache_ok P consistent st3 ((and_cache st3)((fst key, snd key) \<mapsto> r))"
      by (rule cache_ok_update [OF interner_okD(2) [OF r(2)]])
        (use key v grows_valid [OF g] r(4) sym in auto)
    then have "interner_ok P KV KS ?st"
      using interner_okD [OF r(2)] by (simp add: interner_ok_def same_nodes [OF same])
    moreover have "and_spec P consistent ?st xi yi r"
      by (rule and_spec_grows [OF store [OF r(2)] _ _ _ r(4)]) (use v grows_valid [OF g] in \<open>auto simp: grows_def\<close>)
    moreover have "grows st ?st" using g by (simp add: grows_def)
    ultimately show ?thesis
      using None xy e(1) c(1) r(1) by (simp add: and_nontrivial_step_def key_def [symmetric] del: fun_upd_apply)
  qed
qed

lemma and_fuel_computes:
  assumes laws: "deps_laws P KV KS"
  shows "computes_and P (interner_ok P KV KS) id consistent (and_fuel P n) n"
proof (induction n)
  case (Suc n)
  have "\<exists>i st'. and_fuel P (Suc n) xi yi st = Some (i, st') \<and> interner_ok P KV KS st' \<and> grows st st' \<and>
      and_spec P consistent st' xi yi i"
    if st: "interner_ok P KV KS st" and v: "valid st xi" "valid st yi" and n: "xi + yi < Suc n" for st xi yi
  proof (cases "and_trivial xi yi")
    case None
    have "computes_and P (interner_ok P KV KS) id consistent (and_fuel P n) (xi + yi)"
      using Suc n by (auto simp: computes_and_def)
    then show ?thesis using and_nontrivial_step_runs [OF laws st v None] None by simp
  qed (use st and_trivial_spec [OF _ v] in simp)
  then show ?case unfolding computes_and_def by simp
qed (simp add: computes_and_def)

lemma and_nontrivial_runs:
  assumes "deps_laws P KV KS" "interner_ok P KV KS st" "valid st xi" "valid st yi" "and_trivial xi yi = None"
  shows "\<exists>i st'. and_nontrivial P xi yi st = Some (i, st') \<and> interner_ok P KV KS st' \<and> grows st st' \<and>
    and_spec P consistent st' xi yi i"
  unfolding and_nontrivial_def by (rule and_nontrivial_step_runs [OF assms and_fuel_computes [OF assms(1)]])

lemma and_node_runs:
  assumes "deps_laws P KV KS" "interner_ok P KV KS st" "valid st xi" "valid st yi"
  shows "\<exists>i st'. and_node P xi yi st = Some (i, st') \<and> interner_ok P KV KS st' \<and> grows st st' \<and>
    and_spec P consistent st' xi yi i"
proof (cases "and_trivial xi yi")
  case None
  then show ?thesis using and_nontrivial_runs [OF assms None] by (simp add: and_node_def)
next
  case (Some r)
  then show ?thesis using and_trivial_spec [OF Some assms(3,4)] assms(2) by (simp add: and_node_def)
qed

lemma or_node_runs:
  assumes "deps_laws P KV KS" "interner_ok P KV KS st" "valid st xi" "valid st yi"
  shows "\<exists>i st'. or_node P xi yi st = Some (i, st') \<and> interner_ok P KV KS st' \<and> grows st st' \<and>
    or_spec P consistent st' xi yi i"
proof -
  obtain i st' where "and_node P (node_not xi) (node_not yi) st = Some (i, st')" "interner_ok P KV KS st'"
    "grows st st'" "and_spec P consistent st' (node_not xi) (node_not yi) i"
    using and_node_runs [OF assms(1,2), of "node_not xi" "node_not yi"] assms(3,4) by auto
  then show ?thesis using or_spec_not by (auto simp: or_node_def)
qed

end
