(* ===== verification/MarkerSegments.thy ===== *)
theory MarkerSegments
  imports MarkerConjunction
begin

text \<open>
  Lists of segments: an executable implementation of the range type that the marker algebra takes as a
  parameter. It satisfies the laws for every value type with a total order, by the contract \<open>keyed_cmp\<close>,
  so the theorems about the algebra have an instance that computes.
\<close>

type_synonym 't segment = "'t bound \<times> 't bound"

fun max_start :: "('t \<Rightarrow> 't \<Rightarrow> ordering) \<Rightarrow> 't bound \<Rightarrow> 't bound \<Rightarrow> 't bound" where
  "max_start cmp Unbounded b = b"
| "max_start cmp a Unbounded = a"
| "max_start cmp (Included a) (Included b) = (if cmp a b = LT then Included b else Included a)"
| "max_start cmp (Included a) (Excluded b) = (if cmp b a = LT then Included a else Excluded b)"
| "max_start cmp (Excluded a) (Included b) = (if cmp a b = LT then Included b else Excluded a)"
| "max_start cmp (Excluded a) (Excluded b) = (if cmp a b = LT then Excluded b else Excluded a)"

fun min_end :: "('t \<Rightarrow> 't \<Rightarrow> ordering) \<Rightarrow> 't bound \<Rightarrow> 't bound \<Rightarrow> 't bound" where
  "min_end cmp Unbounded b = b"
| "min_end cmp a Unbounded = a"
| "min_end cmp (Included a) (Included b) = (if cmp a b = LT then Included a else Included b)"
| "min_end cmp (Included a) (Excluded b) = (if cmp a b = LT then Included a else Excluded b)"
| "min_end cmp (Excluded a) (Included b) = (if cmp b a = LT then Included b else Excluded a)"
| "min_end cmp (Excluded a) (Excluded b) = (if cmp a b = LT then Excluded a else Excluded b)"

fun segment_nonempty :: "('t \<Rightarrow> 't \<Rightarrow> ordering) \<Rightarrow> 't segment \<Rightarrow> bool" where
  "segment_nonempty cmp (Included a, Included b) = (cmp a b \<noteq> GT)"
| "segment_nonempty cmp (Included a, Excluded b) = (cmp a b = LT)"
| "segment_nonempty cmp (Excluded a, Included b) = (cmp a b = LT)"
| "segment_nonempty cmp (Excluded a, Excluded b) = (cmp a b = LT)"
| "segment_nonempty cmp _ = True"

definition segments_intersection ::
  "('t \<Rightarrow> 't \<Rightarrow> ordering) \<Rightarrow> 't segment list \<Rightarrow> 't segment list \<Rightarrow> 't segment list" where
  "segments_intersection cmp r s =
     filter (segment_nonempty cmp)
       (concat (map (\<lambda>(a, b). map (\<lambda>(c, d). (max_start cmp a c, min_end cmp b d)) s) r))"

primrec before_start :: "'t bound \<Rightarrow> 't segment list" where
  "before_start (Included a) = [(Unbounded, Excluded a)]"
| "before_start (Excluded a) = [(Unbounded, Included a)]"
| "before_start Unbounded = []"

primrec after_end :: "'t bound \<Rightarrow> 't segment list" where
  "after_end (Included b) = [(Excluded b, Unbounded)]"
| "after_end (Excluded b) = [(Included b, Unbounded)]"
| "after_end Unbounded = []"

fun segments_complement :: "('t \<Rightarrow> 't \<Rightarrow> ordering) \<Rightarrow> 't segment list \<Rightarrow> 't segment list" where
  "segments_complement cmp [] = [(Unbounded, Unbounded)]"
| "segments_complement cmp ((a, b) # r) =
     segments_intersection cmp (before_start a @ after_end b) (segments_complement cmp r)"

fun start_ok :: "('t \<Rightarrow> 't \<Rightarrow> ordering) \<Rightarrow> 't bound \<Rightarrow> 't \<Rightarrow> bool" where
  "start_ok cmp (Included a) v = (cmp a v \<noteq> GT)"
| "start_ok cmp (Excluded a) v = (cmp a v = LT)"
| "start_ok cmp Unbounded v = True"

fun end_ok :: "('t \<Rightarrow> 't \<Rightarrow> ordering) \<Rightarrow> 't bound \<Rightarrow> 't \<Rightarrow> bool" where
  "end_ok cmp (Included b) v = (cmp v b \<noteq> GT)"
| "end_ok cmp (Excluded b) v = (cmp v b = LT)"
| "end_ok cmp Unbounded v = True"

definition segments_contains :: "('t \<Rightarrow> 't \<Rightarrow> ordering) \<Rightarrow> 't segment list \<Rightarrow> 't \<Rightarrow> bool" where
  "segments_contains cmp r v = list_ex (\<lambda>(a, b). start_ok cmp a v \<and> end_ok cmp b v) r"

definition segments_ok :: "('t \<Rightarrow> bool) \<Rightarrow> 't segment list \<Rightarrow> bool" where
  "segments_ok T r \<longleftrightarrow> (\<forall>b\<in>set r. bound_ok T (fst b) \<and> bound_ok T (snd b))"

lemma segments_ok_simps [simp]:
  "segments_ok T []" "segments_ok T (b # r) \<longleftrightarrow> bound_ok T (fst b) \<and> bound_ok T (snd b) \<and> segments_ok T r"
  "segments_ok T (r @ s) \<longleftrightarrow> segments_ok T r \<and> segments_ok T s"
  by (auto simp: segments_ok_def)

lemma segments_contains_simps [simp]:
  "\<not> segments_contains cmp [] v"
  "segments_contains cmp ((a, b) # r) v \<longleftrightarrow> start_ok cmp a v \<and> end_ok cmp b v \<or> segments_contains cmp r v"
  "segments_contains cmp (r @ s) v \<longleftrightarrow> segments_contains cmp r v \<or> segments_contains cmp s v"
  by (auto simp: segments_contains_def)

lemma segments_intersection_simps [simp]:
  "segments_intersection cmp [] s = []"
  "segments_intersection cmp ((a, b) # r) s =
     filter (segment_nonempty cmp) (map (\<lambda>(c, d). (max_start cmp a c, min_end cmp b d)) s) @
     segments_intersection cmp r s"
  by (simp_all add: segments_intersection_def)

definition segment_ops :: "('t \<Rightarrow> 't \<Rightarrow> bool) \<Rightarrow> ('t \<Rightarrow> 't \<Rightarrow> ordering) \<Rightarrow> ('t, 't segment list) range_ops" where
  "segment_ops eq cmp = \<lparr>
     value_eq = eq, value_cmp = cmp, i_eq = (=),
     i_contains = segments_contains cmp, i_is_empty = (\<lambda>r. r = []),
     i_is_disjoint = (\<lambda>r s. segments_intersection cmp r s = []),
     i_empty = [], i_singleton = (\<lambda>a. [(Included a, Included a)]),
     i_lower_than = (\<lambda>a. [(Unbounded, Included a)]), i_strictly_lower_than = (\<lambda>a. [(Unbounded, Excluded a)]),
     i_higher_than = (\<lambda>a. [(Included a, Unbounded)]), i_strictly_higher_than = (\<lambda>a. [(Excluded a, Unbounded)]),
     i_complement = segments_complement cmp, i_intersection = segments_intersection cmp, i_union = (@),
     i_bounding_range = (\<lambda>r. if r = [] then None else Some (fst (hd r), snd (last r))),
     i_iter = (\<lambda>r. r), i_from_range_bounds = (\<lambda>b. [b]), i_collect = (\<lambda>bs. bs)\<rparr>"

lemma segment_ops_simps [simp]:
  "value_eq (segment_ops eq cmp) = eq" "value_cmp (segment_ops eq cmp) = cmp" "i_eq (segment_ops eq cmp) = (=)"
  "i_contains (segment_ops eq cmp) = segments_contains cmp" "i_is_empty (segment_ops eq cmp) r \<longleftrightarrow> r = []"
  "i_is_disjoint (segment_ops eq cmp) r s \<longleftrightarrow> segments_intersection cmp r s = []"
  "i_empty (segment_ops eq cmp) = []" "i_singleton (segment_ops eq cmp) a = [(Included a, Included a)]"
  "i_lower_than (segment_ops eq cmp) a = [(Unbounded, Included a)]"
  "i_strictly_lower_than (segment_ops eq cmp) a = [(Unbounded, Excluded a)]"
  "i_higher_than (segment_ops eq cmp) a = [(Included a, Unbounded)]"
  "i_strictly_higher_than (segment_ops eq cmp) a = [(Excluded a, Unbounded)]"
  "i_complement (segment_ops eq cmp) = segments_complement cmp"
  "i_intersection (segment_ops eq cmp) = segments_intersection cmp" "i_union (segment_ops eq cmp) = (@)"
  "i_bounding_range (segment_ops eq cmp) r = (if r = [] then None else Some (fst (hd r), snd (last r)))"
  "i_iter (segment_ops eq cmp) r = r" "i_from_range_bounds (segment_ops eq cmp) b = [b]"
  "i_collect (segment_ops eq cmp) bs = bs"
  by (simp_all add: segment_ops_def)

context keyed_cmp
begin

lemma max_start_iff:
  "bound_ok ok a \<Longrightarrow> bound_ok ok b \<Longrightarrow> ok v \<Longrightarrow>
    start_ok cmp (max_start cmp a b) v \<longleftrightarrow> start_ok cmp a v \<and> start_ok cmp b v"
  by (cases a; cases b) (auto simp: cmp_key)

lemma min_end_iff:
  "bound_ok ok a \<Longrightarrow> bound_ok ok b \<Longrightarrow> ok v \<Longrightarrow>
    end_ok cmp (min_end cmp a b) v \<longleftrightarrow> end_ok cmp a v \<and> end_ok cmp b v"
  by (cases a; cases b) (auto simp: cmp_key)

lemma bounds_closed:
  "bound_ok ok a \<Longrightarrow> bound_ok ok b \<Longrightarrow> bound_ok ok (max_start cmp a b)"
  "bound_ok ok a \<Longrightarrow> bound_ok ok b \<Longrightarrow> bound_ok ok (min_end cmp a b)"
  by (cases a; cases b; simp)+

lemma segment_nonempty_if:
  "bound_ok ok a \<Longrightarrow> bound_ok ok b \<Longrightarrow> ok v \<Longrightarrow> start_ok cmp a v \<Longrightarrow> end_ok cmp b v \<Longrightarrow> segment_nonempty cmp (a, b)"
  by (cases a; cases b) (auto simp: cmp_key)

lemma segment_row_ok:
  "bound_ok ok a \<Longrightarrow> bound_ok ok b \<Longrightarrow> segments_ok ok s \<Longrightarrow>
    segments_ok ok (filter (segment_nonempty cmp) (map (\<lambda>(c, d). (max_start cmp a c, min_end cmp b d)) s))"
  by (induction s) (auto simp: bounds_closed)

lemma segments_intersection_ok:
  "segments_ok ok r \<Longrightarrow> segments_ok ok s \<Longrightarrow> segments_ok ok (segments_intersection cmp r s)"
  by (induction r) (auto simp: segment_row_ok)

lemma segment_row_iff:
  assumes "bound_ok ok a" "bound_ok ok b" "ok v"
  shows "segments_ok ok s \<Longrightarrow>
    segments_contains cmp (filter (segment_nonempty cmp) (map (\<lambda>(c, d). (max_start cmp a c, min_end cmp b d)) s)) v \<longleftrightarrow>
    (start_ok cmp a v \<and> end_ok cmp b v) \<and> segments_contains cmp s v"
proof (induction s)
  case (Cons t s)
  obtain c d where t: "t = (c, d)" by (cases t)
  have ok: "bound_ok ok c" "bound_ok ok d" using Cons.prems by (simp_all add: t)
  have "start_ok cmp (max_start cmp a c) v \<and> end_ok cmp (min_end cmp b d) v \<Longrightarrow>
      segment_nonempty cmp (max_start cmp a c, min_end cmp b d)"
    using segment_nonempty_if [OF bounds_closed(1) [OF assms(1) ok(1)] bounds_closed(2) [OF assms(2) ok(2)] assms(3)]
    by blast
  then show ?case
    using Cons max_start_iff [OF assms(1) ok(1) assms(3)] min_end_iff [OF assms(2) ok(2) assms(3)]
    by (auto simp: t)
qed simp

lemma segments_intersection_iff:
  "segments_ok ok r \<Longrightarrow> segments_ok ok s \<Longrightarrow> ok v \<Longrightarrow>
    segments_contains cmp (segments_intersection cmp r s) v \<longleftrightarrow>
    segments_contains cmp r v \<and> segments_contains cmp s v"
  by (induction r) (auto simp: segment_row_iff)

lemma segments_complement_ok: "segments_ok ok r \<Longrightarrow> segments_ok ok (segments_complement cmp r)"
proof (induction r)
  case (Cons s r)
  obtain a b where s: "s = (a, b)" by (cases s)
  have "segments_ok ok (before_start a @ after_end b)" using Cons.prems by (cases a; cases b) (simp_all add: s)
  then show ?case using Cons segments_intersection_ok by (simp add: s)
qed simp

lemma segments_complement_iff:
  "segments_ok ok r \<Longrightarrow> ok v \<Longrightarrow> segments_contains cmp (segments_complement cmp r) v \<longleftrightarrow> \<not> segments_contains cmp r v"
proof (induction r)
  case (Cons s r)
  obtain a b where s: "s = (a, b)" by (cases s)
  have ok: "bound_ok ok a" "bound_ok ok b" "segments_ok ok r" using Cons.prems by (simp_all add: s)
  have "segments_ok ok (before_start a @ after_end b)" using ok by (cases a; cases b) simp_all
  moreover have "segments_contains cmp (before_start a @ after_end b) v \<longleftrightarrow> \<not> (start_ok cmp a v \<and> end_ok cmp b v)"
    using ok Cons.prems(2) by (cases a; cases b) (auto simp: cmp_key)
  ultimately show ?case
    using segments_intersection_iff [OF _ segments_complement_ok [OF ok(3)] Cons.prems(2)] Cons.IH [OF ok(3) Cons.prems(2)]
    by (simp add: s)
qed simp

lemma segment_range_laws:
  assumes "\<And>a b. ok a \<Longrightarrow> ok b \<Longrightarrow> eq a b \<longleftrightarrow> key a = key b"
  shows "range_laws (segment_ops eq cmp) ok (segments_ok ok)"
proof -
  let ?I = "segment_ops eq cmp"
  have b: "above_start ?I a v = start_ok cmp a v" "below_end ?I a v = end_ok cmp a v" for a v
    by (cases a; simp)+
  have closed: "range_closed ?I ok (segments_ok ok)"
    unfolding range_closed_def segment_ops_simps
    by (intro allI impI conjI ballI)
      ((simp add: segments_intersection_ok segments_complement_ok; fail) | (simp add: segments_ok_def; fail))+
  have single: "segments_contains cmp [(Included a, Included a)] v \<longleftrightarrow> eq v a" if "ok v" "ok a" for a v
    using that assms by (auto simp: cmp_key)
  have segs: "segments_contains cmp r v \<longleftrightarrow> (\<exists>b\<in>set r. segments_contains cmp [b] v)" for r v
    by (auto simp: segments_contains_def list_ex_iff)
  have disj: "\<not> (segments_contains cmp r v \<and> segments_contains cmp s v)"
    if "segments_ok ok r" "segments_ok ok s" "ok v" "segments_intersection cmp r s = []" for r s v
    using segments_intersection_iff [OF that(1-3)] that(4) by simp
  have "range_members ?I ok (segments_ok ok)"
    unfolding range_members_def b segment_ops_simps
    by (intro allI impI conjI)
      ((rule segs; fail) | (rule disj; assumption) |
        (simp add: segments_intersection_iff segments_complement_iff single del: segments_contains_simps(2); fail) |
        (simp add: cmp_key; fail) | (simp add: segments_contains_def split_beta; fail))+
  then show ?thesis using closed by (simp add: range_laws_def)
qed

end

section \<open>The instance of the algebra\<close>

interpretation strcmp: keyed_cmp "cmp_of :: string \<Rightarrow> string \<Rightarrow> ordering" "\<lambda>s. s" "\<lambda>_. True"
  by unfold_locales simp

definition segment_specifier_ranges :: "version segment list ranges" where
  "segment_specifier_ranges = \<lparr>
     r_full = [(Unbounded, Unbounded)],
     r_singleton = (\<lambda>a. [(Included a, Included a)]),
     r_between = (\<lambda>a b. [(Included a, Excluded b)]),
     r_from_range = (\<lambda>a b. [(Included a, Excluded b)]),
     r_lower_than = (\<lambda>a. [(Unbounded, Included a)]),
     r_strictly_lower_than = (\<lambda>a. [(Unbounded, Excluded a)]),
     r_higher_than = (\<lambda>a. [(Included a, Unbounded)]),
     r_strictly_higher_than = (\<lambda>a. [(Excluded a, Unbounded)]),
     r_complement = segments_complement version_cmp,
     r_intersection = segments_intersection version_cmp,
     r_contains = segments_contains version_cmp\<rparr>"

definition segment_deps :: "(version segment list, string segment list) algebra_deps" where
  "segment_deps = \<lparr>
     version_ranges = segment_ops version_eq version_cmp,
     string_ranges = segment_ops (=) cmp_of,
     specifier_ranges = segment_specifier_ranges,
     hash_one = (\<lambda>_. 0)\<rparr>"

abbreviation version_segments_ok :: "version segment list \<Rightarrow> bool" where
  "version_segments_ok \<equiv> segments_ok ok_version"

abbreviation string_segments_ok :: "string segment list \<Rightarrow> bool" where
  "string_segments_ok \<equiv> segments_ok (\<lambda>_. True)"

lemma segment_specifier_laws: "ranges_laws segment_specifier_ranges version_segments_ok"
proof -
  have "version_le v a \<longleftrightarrow> version_cmp v a \<noteq> GT" "version_less v a \<longleftrightarrow> version_cmp v a = LT" for v a
    by (simp_all add: version_le_def version_less_def)
  moreover have "version_eq v a \<longleftrightarrow> version_cmp a v \<noteq> GT \<and> version_cmp v a \<noteq> GT" if "ok_version v" "ok_version a" for v a
    using version_order_keys(1) [OF that] vcmp.cmp_key [OF that] vcmp.cmp_key [OF that(2,1)] by auto
  ultimately show ?thesis
    unfolding ranges_laws_def
    by (simp add: segment_specifier_ranges_def vcmp.segments_intersection_ok vcmp.segments_complement_ok
        vcmp.segments_intersection_iff vcmp.segments_complement_iff)
qed

lemma segment_deps_laws: "deps_laws segment_deps version_segments_ok string_segments_ok"
proof -
  have "range_laws (segment_ops version_eq version_cmp) ok_version version_segments_ok"
    by (rule vcmp.segment_range_laws) (rule version_order_keys(1))
  moreover have "range_laws (segment_ops (=) cmp_of) (\<lambda>_. True) string_segments_ok"
    by (rule strcmp.segment_range_laws) simp
  ultimately show ?thesis
    using segment_specifier_laws
    by (simp add: deps_laws_def segment_deps_def) (simp add: segment_specifier_ranges_def)
qed

end
