(* ===== verification/MarkerExpression.thy ===== *)
theory MarkerExpression
  imports MarkerSegments
begin

text \<open>
  Marker expressions (\<open>marker/tree.rs\<close>, \<open>marker/lowering.rs\<close>) and their translation into decision nodes by
  \<open>InternerGuard::expression\<close> in \<open>marker/algebra.rs\<close>: version comparisons, lists of versions, string
  comparisons, list and extra expressions. \<open>python_version\<close> becomes \<open>python_full_version\<close>; some values of
  \<open>platform_system\<close> become values of \<open>sys_platform\<close>.
\<close>

section \<open>Expressions\<close>

datatype marker_value_version = ValueImplementationVersion | ValuePythonFullVersion | ValuePythonVersion

datatype marker_value_string =
    ValueImplementationName | ValueOsName | ValueOsNameDeprecated | ValuePlatformMachine
  | ValuePlatformMachineDeprecated | ValuePlatformPythonImplementation
  | ValuePlatformPythonImplementationDeprecated | ValuePythonImplementationDeprecated
  | ValuePlatformRelease | ValuePlatformSystem | ValuePlatformVersion | ValuePlatformVersionDeprecated
  | ValueSysPlatform | ValueSysPlatformDeprecated

datatype marker_value_extra = ValueExtra extra_name | ValueArbitrary string

datatype extra_operator = ExtraEqual | ExtraNotEqual

datatype container_operator = ContainerIn | ContainerNotIn

datatype marker_expression =
    MeVersion marker_value_version specifier
  | MeVersionIn marker_value_version "version list" container_operator
  | MeString marker_value_string marker_operator string
  | MeList list_pair container_operator
  | MeExtra marker_value_extra extra_operator

primrec canonical_string_of :: "marker_value_string \<Rightarrow> canonical_string" where
  "canonical_string_of ValueImplementationName = ImplementationName"
| "canonical_string_of ValueOsName = OsName"
| "canonical_string_of ValueOsNameDeprecated = OsName"
| "canonical_string_of ValuePlatformMachine = PlatformMachine"
| "canonical_string_of ValuePlatformMachineDeprecated = PlatformMachine"
| "canonical_string_of ValuePlatformPythonImplementation = PlatformPythonImplementation"
| "canonical_string_of ValuePlatformPythonImplementationDeprecated = PlatformPythonImplementation"
| "canonical_string_of ValuePythonImplementationDeprecated = PlatformPythonImplementation"
| "canonical_string_of ValuePlatformRelease = PlatformRelease"
| "canonical_string_of ValuePlatformSystem = PlatformSystem"
| "canonical_string_of ValuePlatformVersion = PlatformVersion"
| "canonical_string_of ValuePlatformVersionDeprecated = PlatformVersion"
| "canonical_string_of ValueSysPlatform = SysPlatform"
| "canonical_string_of ValueSysPlatformDeprecated = SysPlatform"

primrec value_string_of :: "canonical_string \<Rightarrow> marker_value_string" where
  "value_string_of ImplementationName = ValueImplementationName"
| "value_string_of OsName = ValueOsName"
| "value_string_of PlatformMachine = ValuePlatformMachine"
| "value_string_of PlatformPythonImplementation = ValuePlatformPythonImplementation"
| "value_string_of PlatformRelease = ValuePlatformRelease"
| "value_string_of PlatformSystem = ValuePlatformSystem"
| "value_string_of PlatformVersion = ValuePlatformVersion"
| "value_string_of SysPlatform = ValueSysPlatform"

primrec value_version_of :: "canonical_version \<Rightarrow> marker_value_version" where
  "value_version_of ImplementationVersion = ValueImplementationVersion"
| "value_version_of PythonFullVersion = ValuePythonFullVersion"

primrec list_pair_kind :: "list_pair \<Rightarrow> marker_value_list" where
  "list_pair_kind (PairExtras _) = Extras"
| "list_pair_kind (PairDependencyGroup _) = DependencyGroups"
| "list_pair_kind (PairArbitrary k _) = k"

primrec list_pair_value :: "list_pair \<Rightarrow> string" where
  "list_pair_value (PairExtras extra) = extra"
| "list_pair_value (PairDependencyGroup group_name) = group_name"
| "list_pair_value (PairArbitrary _ s) = s"

fun to_pep440_operator :: "marker_operator \<Rightarrow> operator option" where
  "to_pep440_operator MoEqual = Some Equal"
| "to_pep440_operator MoNotEqual = Some NotEqual"
| "to_pep440_operator MoGreaterThan = Some GreaterThan"
| "to_pep440_operator MoGreaterEqual = Some GreaterThanEqual"
| "to_pep440_operator MoLessThan = Some LessThan"
| "to_pep440_operator MoLessEqual = Some LessThanEqual"
| "to_pep440_operator MoTildeEqual = Some TildeEqual"
| "to_pep440_operator _ = None"

primrec invert_operator :: "marker_operator \<Rightarrow> marker_operator" where
  "invert_operator MoLessThan = MoGreaterThan"
| "invert_operator MoLessEqual = MoGreaterEqual"
| "invert_operator MoGreaterThan = MoLessThan"
| "invert_operator MoGreaterEqual = MoLessEqual"
| "invert_operator MoEqual = MoEqual"
| "invert_operator MoNotEqual = MoNotEqual"
| "invert_operator MoTildeEqual = MoTildeEqual"
| "invert_operator MoIn = MoContains"
| "invert_operator MoNotIn = MoNotContains"
| "invert_operator MoContains = MoIn"
| "invert_operator MoNotContains = MoNotIn"

fun extra_operator_of :: "marker_operator \<Rightarrow> extra_operator option" where
  "extra_operator_of MoEqual = Some ExtraEqual"
| "extra_operator_of MoNotEqual = Some ExtraNotEqual"
| "extra_operator_of _ = None"

fun container_operator_of :: "marker_operator \<Rightarrow> container_operator option" where
  "container_operator_of MoIn = Some ContainerIn"
| "container_operator_of MoNotIn = Some ContainerNotIn"
| "container_operator_of _ = None"

text \<open>The operators and values whose conjunction is a range of strings.\<close>

primrec mo_from_lower_bound :: "string bound \<Rightarrow> (marker_operator \<times> string) list" where
  "mo_from_lower_bound (Included s) = [(MoGreaterEqual, s)]"
| "mo_from_lower_bound (Excluded s) = [(MoGreaterThan, s)]"
| "mo_from_lower_bound Unbounded = []"

primrec mo_from_upper_bound :: "string bound \<Rightarrow> (marker_operator \<times> string) list" where
  "mo_from_upper_bound (Included s) = [(MoLessEqual, s)]"
| "mo_from_upper_bound (Excluded s) = [(MoLessThan, s)]"
| "mo_from_upper_bound Unbounded = []"

definition mo_from_bounds :: "string bound \<times> string bound \<Rightarrow> (marker_operator \<times> string) list" where
  "mo_from_bounds b =
     (case b of
        (Included v1, Included v2) \<Rightarrow>
          if v1 = v2 then [(MoEqual, v1)] else mo_from_lower_bound (Included v1) @ mo_from_upper_bound (Included v2)
      | (Excluded v1, Excluded v2) \<Rightarrow>
          if v1 = v2 then [(MoNotEqual, v1)] else mo_from_lower_bound (Excluded v1) @ mo_from_upper_bound (Excluded v2)
      | (lower, upper) \<Rightarrow> mo_from_lower_bound lower @ mo_from_upper_bound upper)"

section \<open>Nodes for versions\<close>

text \<open>
  \<open>python_version_to_full_version\<close>: \<open>Inl\<close> is the constant node of the source's \<open>Err\<close>, and the outer \<open>None\<close> a
  panic. The additions on release numbers wrap.
\<close>

definition python_version_to_full_version :: "specifier \<Rightarrow> (node_id + specifier) option" where
  "python_version_to_full_version sp =
     (let release = v_release (sp_version sp); op = sp_operator sp in
      if is_star op then
        (case release of
           [_] \<Rightarrow> Some (Inr sp)
         | major # minor # rest \<Rightarrow>
             if list_all (\<lambda>x. x = 0) rest
             then do { v \<leftarrow> version_new [major, minor];
                       (case from_version op v of Inl _ \<Rightarrow> None | Inr sp' \<Rightarrow> Some (Inr sp')) }
             else Some (Inl NODE_FALSE)
         | [] \<Rightarrow> Some (Inl NODE_FALSE))
      else if op = TildeEqual then
        (case release of
           [_, _] \<Rightarrow> Some (Inr sp)
         | major # minor # rest \<Rightarrow>
             if list_all (\<lambda>x. x = 0) rest
             then do { v \<leftarrow> version_new [major, minor]; Some (Inr (equals_star_version v)) }
             else Some (Inl NODE_FALSE)
         | _ \<Rightarrow> Some (Inl NODE_FALSE))
      else
        do { trimmed \<leftarrow> only_release_trimmed (sp_version sp);
             (case (case v_release trimmed of
                      [major] \<Rightarrow> Some (major, 0)
                    | [major, minor] \<Rightarrow> Some (major, minor)
                    | _ \<Rightarrow> None) of
                Some (major, minor) \<Rightarrow>
                  do { version \<leftarrow> version_new [major, minor];
                       next_minor \<leftarrow> version_new [major, minor + 1];
                       (case op of
                          Equal \<Rightarrow> Some (Inr (equals_star_version version))
                        | ExactEqual \<Rightarrow> Some (Inr (equals_star_version version))
                        | NotEqual \<Rightarrow> Some (Inr (not_equals_star_version version))
                        | GreaterThan \<Rightarrow> Some (Inr (greater_than_equal_version next_minor))
                        | LessThan \<Rightarrow> Some (if major = 0 \<and> minor = 0 then Inl NODE_FALSE else Inr sp)
                        | GreaterThanEqual \<Rightarrow> Some (if major = 0 \<and> minor = 0 then Inl NODE_TRUE else Inr sp)
                        | LessThanEqual \<Rightarrow> Some (Inr (less_than_version next_minor))
                        | _ \<Rightarrow> None) }
              | None \<Rightarrow>
                  (case release of
                     major # minor # _ \<Rightarrow>
                       do { next_minor \<leftarrow> version_new [major, minor + 1];
                            (case op of
                               Equal \<Rightarrow> Some (Inl NODE_FALSE)
                             | ExactEqual \<Rightarrow> Some (Inl NODE_FALSE)
                             | NotEqual \<Rightarrow> Some (Inl NODE_TRUE)
                             | LessThan \<Rightarrow> Some (Inr (less_than_version next_minor))
                             | LessThanEqual \<Rightarrow> Some (Inr (less_than_version next_minor))
                             | GreaterThan \<Rightarrow> Some (Inr (greater_than_equal_version next_minor))
                             | GreaterThanEqual \<Rightarrow> Some (Inr (greater_than_equal_version next_minor))
                             | _ \<Rightarrow> None) }
                   | _ \<Rightarrow> None)) })"

definition version_edges :: "('r, 'q) algebra_deps \<Rightarrow> 'r \<Rightarrow> ('r, 'q) edges option" where
  "version_edges P rng = do { es \<leftarrow> edges_from_range (version_ranges P) rng; Some (EVersion es) }"

definition edges_from_specifier :: "('r, 'q) algebra_deps \<Rightarrow> specifier \<Rightarrow> ('r, 'q) edges option" where
  "edges_from_specifier P sp =
     do { sp' \<leftarrow> sp_only_release sp;
          rng \<leftarrow> release_specifier_to_range (specifier_ranges P) sp' True;
          version_edges P rng }"

definition container_range :: "('t, 'r) range_ops \<Rightarrow> container_operator \<Rightarrow> 'r \<Rightarrow> 'r" where
  "container_range I operator rng = (if operator = ContainerNotIn then i_complement I rng else rng)"

definition edges_from_versions ::
  "('r, 'q) algebra_deps \<Rightarrow> version list \<Rightarrow> container_operator \<Rightarrow> ('r, 'q) edges option" where
  "edges_from_versions P versions operator =
     do { releases \<leftarrow> those (map only_release versions);
          version_edges P (container_range (version_ranges P) operator
            (i_collect (version_ranges P) (map (\<lambda>v. (Included v, Included v)) releases))) }"

text \<open>The segments of the ranges of the versions, up to the first \<open>Err\<close>.\<close>

fun python_version_segments ::
  "('r, 'q) algebra_deps \<Rightarrow> version list \<Rightarrow> (node_id + (version bound \<times> version bound) list) option" where
  "python_version_segments P [] = Some (Inr [])"
| "python_version_segments P (v # versions) =
     do { release \<leftarrow> only_release v;
          full \<leftarrow> python_version_to_full_version (equals_version release);
          (case full of
             Inl node \<Rightarrow> Some (Inl node)
           | Inr sp \<Rightarrow>
               do { rng \<leftarrow> release_specifier_to_range (specifier_ranges P) sp True;
                    rest \<leftarrow> python_version_segments P versions;
                    Some (case rest of Inl node \<Rightarrow> Inl node | Inr segments \<Rightarrow> Inr (i_iter (version_ranges P) rng @ segments)) }) }"

definition edges_from_python_versions ::
  "('r, 'q) algebra_deps \<Rightarrow> version list \<Rightarrow> container_operator \<Rightarrow> (node_id + ('r, 'q) edges) option" where
  "edges_from_python_versions P versions operator =
     do { segments \<leftarrow> python_version_segments P versions;
          (case segments of
             Inl node \<Rightarrow> Some (Inl node)
           | Inr bs \<Rightarrow>
               do { es \<leftarrow> version_edges P (container_range (version_ranges P) operator (i_collect (version_ranges P) bs));
                    Some (Inr es) }) }"

section \<open>Nodes for expressions\<close>

text \<open>The normalization of \<open>platform_system\<close> to \<open>sys_platform\<close>.\<close>

definition normalize_platform :: "marker_value_string \<Rightarrow> string \<Rightarrow> canonical_string \<times> string" where
  "normalize_platform key value =
     (if key = ValuePlatformSystem then
        if value = ''Windows'' then (SysPlatform, ''win32'')
        else if value = ''Darwin'' then (SysPlatform, ''darwin'')
        else if value = ''Linux'' then (SysPlatform, ''linux'')
        else if value = ''AIX'' then (SysPlatform, ''aix'')
        else if value = ''Emscripten'' then (SysPlatform, ''emscripten'')
        else if value = ''Android'' then (SysPlatform, ''android'')
        else (canonical_string_of key, value)
      else (canonical_string_of key, value))"

text \<open>The specifier that \<open>platform_release\<close> is compared with on Darwin; the outer \<open>None\<close> is a panic.\<close>

definition platform_release_specifier :: "canonical_string \<Rightarrow> marker_operator \<Rightarrow> string \<Rightarrow> specifier option option" where
  "platform_release_specifier key operator value =
     (if key = PlatformRelease then
        (case to_pep440_operator operator of
           None \<Rightarrow> Some None
         | Some op \<Rightarrow>
             (case pattern_from_str value of
                Inl Panic \<Rightarrow> None
              | Inl (Err _) \<Rightarrow> Some None
              | Inr pattern \<Rightarrow>
                  Some (case from_pattern op pattern of Inl _ \<Rightarrow> None | Inr sp \<Rightarrow> Some sp)))
      else Some None)"

definition string_expression ::
  "('r, 'q) algebra_deps \<Rightarrow> marker_value_string \<Rightarrow> marker_operator \<Rightarrow> string \<Rightarrow> ('r, 'q) interner \<Rightarrow>
   (node_id \<times> ('r, 'q) interner) option" where
  "string_expression P key0 operator value0 st =
     (let (key, value) = normalize_platform key0 value0 in
      do { (as_string, st1) \<leftarrow> string_node P key operator value st;
           specifier \<leftarrow> platform_release_specifier key operator value;
           (case specifier of
              None \<Rightarrow> Some (as_string, st1)
            | Some sp \<Rightarrow>
                do { es \<leftarrow> edges_from_specifier P sp;
                     (as_version, st2) \<leftarrow> create_node P (VVersionString key) es st1;
                     (darwin, st3) \<leftarrow> string_node P SysPlatform MoEqual ''darwin'' st2;
                     (on_darwin, st4) \<leftarrow> and_node P darwin as_version st3;
                     (elsewhere, st5) \<leftarrow> and_node P (node_not darwin) as_string st4;
                     or_node P on_darwin elsewhere st5 }) })"

fun expression ::
  "('r, 'q) algebra_deps \<Rightarrow> marker_expression \<Rightarrow> ('r, 'q) interner \<Rightarrow> (node_id \<times> ('r, 'q) interner) option" where
  "expression P (MeVersion key sp) st =
     (case key of
        ValueImplementationVersion \<Rightarrow>
          do { es \<leftarrow> edges_from_specifier P sp; create_node P (VVersion ImplementationVersion) es st }
      | ValuePythonFullVersion \<Rightarrow>
          do { es \<leftarrow> edges_from_specifier P sp; create_node P (VVersion PythonFullVersion) es st }
      | ValuePythonVersion \<Rightarrow>
          do { release \<leftarrow> sp_only_release sp;
               full \<leftarrow> python_version_to_full_version release;
               (case full of
                  Inl node \<Rightarrow> Some (node, st)
                | Inr sp' \<Rightarrow> do { es \<leftarrow> edges_from_specifier P sp'; create_node P (VVersion PythonFullVersion) es st }) })"
| "expression P (MeVersionIn key versions operator) st =
     (case key of
        ValueImplementationVersion \<Rightarrow>
          do { es \<leftarrow> edges_from_versions P versions operator; create_node P (VVersion ImplementationVersion) es st }
      | ValuePythonFullVersion \<Rightarrow>
          do { es \<leftarrow> edges_from_versions P versions operator; create_node P (VVersion PythonFullVersion) es st }
      | ValuePythonVersion \<Rightarrow>
          do { edges \<leftarrow> edges_from_python_versions P versions operator;
               (case edges of
                  Inl node \<Rightarrow> Some (node, st)
                | Inr es \<Rightarrow> create_node P (VVersion PythonFullVersion) es st) })"
| "expression P (MeString key operator value) st =
     (case operator of
        MoIn \<Rightarrow> create_node P (VIn (canonical_string_of key) value) (edges_from_bool True) st
      | MoNotIn \<Rightarrow> create_node P (VIn (canonical_string_of key) value) (edges_from_bool False) st
      | MoContains \<Rightarrow> create_node P (VContains (canonical_string_of key) value) (edges_from_bool True) st
      | MoNotContains \<Rightarrow> create_node P (VContains (canonical_string_of key) value) (edges_from_bool False) st
      | _ \<Rightarrow> string_expression P key operator value st)"
| "expression P (MeList pair operator) st =
     create_node P (VList pair) (edges_from_bool (operator = ContainerIn)) st"
| "expression P (MeExtra name operator) st =
     (case name of
        ValueExtra extra \<Rightarrow> create_node P (VExtra extra) (edges_from_bool (operator = ExtraEqual)) st
      | ValueArbitrary _ \<Rightarrow> Some (NODE_FALSE, st))"

end
