(* ===== verification/MarkerPython.thy ===== *)
theory MarkerPython
  imports MarkerExpression
begin

text \<open>
  The values of \<open>python_version\<close> are the first two release numbers of \<open>python_full_version\<close>. The theory
  shows that the translation of a \<open>python_version\<close> specifier to a \<open>python_full_version\<close> specifier keeps its
  meaning, for every operator but one.
\<close>

section \<open>Membership for release-only versions\<close>

lemma trim_Cons_order:
  fixes x y :: u64
  shows "trim_zeros (x # xs) \<le> trim_zeros (y # ys) \<longleftrightarrow> x < y \<or> x = y \<and> trim_zeros xs \<le> trim_zeros ys"
    "trim_zeros (x # xs) < trim_zeros (y # ys) \<longleftrightarrow> x < y \<or> x = y \<and> trim_zeros xs < trim_zeros ys"
    "trim_zeros (x # xs) = trim_zeros (y # ys) \<longleftrightarrow> x = y \<and> trim_zeros xs = trim_zeros ys"
  by (cases "trim_zeros xs"; cases "trim_zeros ys"; auto simp: word_gt_0)+

text \<open>What a specifier with release \<open>t\<close> accepts, for a version with release \<open>f\<close>.\<close>

primrec accepts :: "operator \<Rightarrow> u64 list \<Rightarrow> u64 list \<Rightarrow> bool" where
  "accepts Equal t f \<longleftrightarrow> trim_zeros f = trim_zeros t"
| "accepts ExactEqual t f \<longleftrightarrow> trim_zeros f = trim_zeros t"
| "accepts NotEqual t f \<longleftrightarrow> trim_zeros f \<noteq> trim_zeros t"
| "accepts LessThan t f \<longleftrightarrow> trim_zeros f < trim_zeros t"
| "accepts LessThanEqual t f \<longleftrightarrow> trim_zeros f \<le> trim_zeros t"
| "accepts GreaterThan t f \<longleftrightarrow> trim_zeros t < trim_zeros f"
| "accepts GreaterThanEqual t f \<longleftrightarrow> trim_zeros t \<le> trim_zeros f"
| "accepts TildeEqual t f \<longleftrightarrow> star_matches (butlast t) f \<and> trim_zeros t \<le> trim_zeros f"
| "accepts EqualStar t f \<longleftrightarrow> star_matches t f"
| "accepts NotEqualStar t f \<longleftrightarrow> \<not> star_matches t f"

definition release_specifier :: "specifier \<Rightarrow> bool" where
  "release_specifier sp \<longleftrightarrow>
     release_only (sp_version sp) \<and> (sp_operator sp = TildeEqual \<longrightarrow> 2 \<le> length (v_release (sp_version sp)))"

lemma release_specifier_valid: "release_specifier sp \<Longrightarrow> valid_specifier sp"
proof -
  assume "release_specifier sp"
  then have r: "release_only (sp_version sp)" "sp_operator sp = TildeEqual \<longrightarrow> 2 \<le> length (v_release (sp_version sp))"
    by (simp_all add: release_specifier_def)
  have "full_pre (make_full (sp_version sp)) = None" "full_post (make_full (sp_version sp)) = None"
    "full_dev (make_full (sp_version sp)) = None"
    by (subst release_only_facts(3) [OF r(1)]; simp add: plain_full_def)+
  then show ?thesis
    using r(2) release_only_facts(1,4) [OF r(1)]
    by (simp add: valid_specifier_def v_fields is_local_def)
qed

lemma contains_release:
  assumes "release_specifier sp" "release_only v"
  shows "sp_contains sp v = Some (accepts (sp_operator sp) (v_release (sp_version sp)) (v_release v))"
proof -
  note valid = release_specifier_valid [OF assms(1)]
  have t: "release_only (sp_version sp)" using assms(1) by (simp add: release_specifier_def)
  note tf = release_only_facts [OF t] and vf = release_only_facts [OF assms(2)]
  note cores = release_only_core [OF t] release_only_core [OF assms(2)] plain_core_order
  have star: "sp_contains sp v = Some ((sp_operator sp = EqualStar) = star_matches (v_release (sp_version sp)) (v_release v))"
    if "is_star (sp_operator sp)"
    using contains_star [OF valid that vf(1)] tf(5) vf(5) by (simp add: v_fields)
  show ?thesis
  proof (cases "sp_operator sp")
    case ExactEqual
    then show ?thesis
      using contains_exact core_order(1) [OF tf(2) vf(2)] tf(4) vf(4) by (auto simp: cores v_fields)
  qed (use star contains_equal [OF valid _ vf(1)] contains_ordered [OF valid vf(1)] tf(4,5) vf(5)
      contains_release_strict [OF valid t assms(2)] contains_tilde [OF valid _ vf(1)] in
      \<open>auto simp: is_star_def cores v_fields\<close>)
qed

text \<open>Versions built from release numbers.\<close>

lemma version_new_release:
  assumes "ns \<noteq> []" "list_all (\<lambda>n. n < u64_MAX) ns"
  shows "\<exists>v. version_new ns = Some v \<and> release_only v \<and> v_release v = ns"
proof -
  obtain v where v: "version_new ns = Some v" "wf_version v" "make_full v = plain_full ns"
    using version_new_full(2) [OF assms(1)] by blast
  then have "public_version v" using assms by (simp add: public_version_full public_full_def plain_full_def)
  then show ?thesis using v by (auto simp: release_only_def v_fields plain_full_def)
qed

lemma only_release_trimmed_release:
  assumes "release_only v"
  shows "\<exists>w. only_release_trimmed v = Some w \<and> release_only w \<and>
    v_release w = (if trim_zeros (v_release v) = [] then [0] else trim_zeros (v_release v))"
proof -
  note v = release_only_facts [OF assms]
  let ?r = "v_release v"
  have r: "?r \<noteq> []" "list_all (\<lambda>n. n < u64_MAX) ?r" using v(7,8) by (simp_all add: v_fields)
  show ?thesis
  proof (cases "rposition (\<lambda>x. x \<noteq> 0) ?r")
    case None
    have "trim_zeros ?r = []" using trim_zeros_take_rposition [of ?r] None by simp
    moreover have "(0::u64) < u64_MAX" by simp
    ultimately show ?thesis using version_new_release [of "[0]"] None by (simp add: only_release_trimmed_def)
  next
    case (Some i)
    then have t: "take (Suc i) ?r = trim_zeros ?r" using trim_zeros_take_rposition [of ?r] by simp
    moreover have "take (Suc i) ?r \<noteq> []" using r(1) by simp
    ultimately have ne: "trim_zeros ?r \<noteq> []" by simp
    have "list_all (\<lambda>n. n < u64_MAX) (take (Suc i) ?r)" using r(2) by (auto simp: list_all_iff dest: in_set_takeD)
    then obtain w where w: "version_new (take (Suc i) ?r) = Some w" "release_only w" "v_release w = take (Suc i) ?r"
      using version_new_release ne t by metis
    have "only_release_trimmed v = Some v \<and> Suc i = length ?r \<or> only_release_trimmed v = version_new (take (Suc i) ?r)"
      using Some by (simp add: only_release_trimmed_def)
    then show ?thesis using w t ne assms by auto
  qed
qed

section \<open>From \<open>python_version\<close> to \<open>python_full_version\<close>\<close>

lemma star_matches_Cons [simp]:
  "star_matches [] f"
  "star_matches (m # p) (a # f) \<longleftrightarrow> m = a \<and> star_matches p f"
  "star_matches (m # p) [] \<longleftrightarrow> m = 0 \<and> star_matches p []"
proof -
  show "star_matches [] f" by (simp add: star_matches_def)
  have "zip p (f @ replicate (length p) 0 @ [0]) = zip p (f @ replicate (length p) 0)"
    by (simp add: zip_append2 flip: append_assoc)
  then show "star_matches (m # p) (a # f) \<longleftrightarrow> m = a \<and> star_matches p f"
    by (simp add: star_matches_def replicate_append_same [symmetric])
  show "star_matches (m # p) [] \<longleftrightarrow> m = 0 \<and> star_matches p []"
    by (simp add: star_matches_def)
qed

lemma star_matches_Nil: "star_matches p [] \<longleftrightarrow> list_all (\<lambda>x. x = 0) p"
  by (induction p) auto

lemma trim_zeros_empty: "trim_zeros p = [] \<longleftrightarrow> list_all (\<lambda>x. x = 0) p"
  by (induction p) auto

lemma star_matches_butlast:
  "p \<noteq> [] \<Longrightarrow> star_matches (butlast p) [] \<Longrightarrow> \<not> list_all (\<lambda>x. x = 0) p \<Longrightarrow> trim_zeros p \<noteq> []"
  by (simp add: trim_zeros_empty)

lemma succ_le_iff:
  fixes n b :: u64
  assumes "n < u64_MAX"
  shows "n + 1 \<le> b \<longleftrightarrow> n < b" "b < n + 1 \<longleftrightarrow> b \<le> n" "n + 1 \<noteq> 0"
  using unat_u64_succ [OF assms] by (auto simp: word_le_nat_alt word_less_nat_alt)

text \<open>
  The result of the translation, for a full version with release \<open>a.b.rest\<close>: a specifier that accepts it
  exactly when \<open>a.b\<close> is accepted, or the constant that says whether \<open>a.b\<close> is accepted.
\<close>

definition translated :: "operator \<Rightarrow> u64 list \<Rightarrow> u64 \<Rightarrow> u64 \<Rightarrow> u64 list \<Rightarrow> node_id + specifier \<Rightarrow> bool" where
  "translated op t a b rest r \<longleftrightarrow>
     (case r of
        Inr sp \<Rightarrow> release_specifier sp \<and>
          accepts (sp_operator sp) (v_release (sp_version sp)) (a # b # rest) = accepts op t [a, b]
      | Inl node \<Rightarrow> node < 2 \<and> (op \<noteq> NotEqualStar \<longrightarrow> accepts op t [a, b] = (node = NODE_TRUE)))"

lemma star_translated:
  assumes sp: "release_specifier sp" and op: "is_star (sp_operator sp)"
  shows "\<exists>r. python_version_to_full_version sp = Some r \<and>
    translated (sp_operator sp) (v_release (sp_version sp)) a b rest r"
proof -
  have t: "release_only (sp_version sp)" using sp by (simp add: release_specifier_def)
  then have r: "v_release (sp_version sp) \<noteq> []" "list_all (\<lambda>n. n < u64_MAX) (v_release (sp_version sp))"
    using release_only_facts(7,8) by (simp_all add: v_fields)
  then consider m where "v_release (sp_version sp) = [m]"
    | m n p where "v_release (sp_version sp) = m # n # p" by (metis neq_Nil_conv)
  then show ?thesis
  proof cases
    case 1
    then show ?thesis
      using op sp by (auto simp: python_version_to_full_version_def translated_def is_star_def)
  next
    case 2
    then obtain w where w: "version_new [m, n] = Some w" "release_only w" "v_release w = [m, n]"
      using version_new_release [of "[m, n]"] r(2) by auto
    have "from_version (sp_operator sp) w = Inr \<lparr>sp_operator = sp_operator sp, sp_version = w\<rparr>"
      using op release_only_facts(4) [OF w(2)] by (auto simp: from_version_def is_star_def is_local_def v_fields)
    then show ?thesis
      using 2 op w
      by (auto simp: python_version_to_full_version_def translated_def is_star_def release_specifier_def
          star_matches_Nil NODE_TRUE_def NODE_FALSE_def)
  qed
qed

lemma tilde_translated:
  assumes sp: "release_specifier sp" and op: "sp_operator sp = TildeEqual"
  shows "\<exists>r. python_version_to_full_version sp = Some r \<and>
    translated (sp_operator sp) (v_release (sp_version sp)) a b rest r"
proof -
  have t: "release_only (sp_version sp)" "2 \<le> length (v_release (sp_version sp))"
    using sp op by (simp_all add: release_specifier_def)
  then have r: "list_all (\<lambda>n. n < u64_MAX) (v_release (sp_version sp))"
    using release_only_facts(8) by (simp add: v_fields)
  obtain m n p where mn: "v_release (sp_version sp) = m # n # p"
    using t(2) by (metis Suc_le_length_iff numeral_2_eq_2)
  obtain w where w: "version_new [m, n] = Some w" "release_only w" "v_release w = [m, n]"
    using version_new_release [of "[m, n]"] r mn by auto
  show ?thesis
  proof (cases "p = []")
    case True
    then show ?thesis
      using sp op mn
      by (auto simp: python_version_to_full_version_def translated_def is_star_def trim_Cons_order
          simp del: trim_zeros_Cons)
  next
    case False
    note trim = trim_zeros_empty [of p] star_matches_Nil [of "butlast p"]
    have zeros: "list_all (\<lambda>x. x = 0) p \<Longrightarrow> list_all (\<lambda>x. x = 0) (butlast p)"
      by (auto simp: list_all_iff dest: in_set_butlastD)
    show ?thesis
    proof (cases "list_all (\<lambda>x. x = 0) p")
      case True
      then have "accepts TildeEqual (m # n # p) [a, b] = accepts EqualStar [m, n] (a # b # rest)"
        using False trim zeros by (auto simp: trim_Cons_order simp del: trim_zeros_Cons)
      then show ?thesis
        using True False op mn w
        by (auto simp: python_version_to_full_version_def translated_def is_star_def equals_star_version_def
            release_specifier_def split: list.splits)
    next
      case nz: False
      then have "\<not> accepts TildeEqual (m # n # p) [a, b]"
        using False trim by (auto simp: trim_Cons_order simp del: trim_zeros_Cons)
      then show ?thesis
        using nz False op mn
        by (auto simp: python_version_to_full_version_def translated_def is_star_def NODE_TRUE_def NODE_FALSE_def
            split: list.splits)
    qed
  qed
qed

text \<open>The other operators look at the trimmed release only.\<close>

lemma trim_zeros_length: "length (trim_zeros p) \<le> length p"
  by (induction p) auto

lemma trim_zeros_prefix: "trim_zeros p = m # n # q \<Longrightarrow> \<exists>p'. p = m # n # p' \<and> trim_zeros p' = q"
  by (cases p; cases "tl p") (auto split: if_splits)

lemma accepts_trim:
  assumes "\<not> is_star op" "op \<noteq> TildeEqual" "trim_zeros t = trim_zeros t'"
  shows "accepts op t f = accepts op t' f"
  using assms by (cases op) (simp_all add: is_star_def)

definition plain_translation :: "operator \<Rightarrow> u64 \<Rightarrow> u64 \<Rightarrow> bool \<Rightarrow> (bool + operator \<times> u64 \<times> u64) option" where
  "plain_translation op m n longer =
     (case op of
        Equal \<Rightarrow> Some (if longer then Inl False else Inr (EqualStar, m, n))
      | ExactEqual \<Rightarrow> Some (if longer then Inl False else Inr (EqualStar, m, n))
      | NotEqual \<Rightarrow> Some (if longer then Inl True else Inr (NotEqualStar, m, n))
      | GreaterThan \<Rightarrow> Some (Inr (GreaterThanEqual, m, n + 1))
      | LessThanEqual \<Rightarrow> Some (Inr (LessThan, m, n + 1))
      | GreaterThanEqual \<Rightarrow>
          Some (if longer then Inr (GreaterThanEqual, m, n + 1)
                else if m = 0 \<and> n = 0 then Inl True else Inr (GreaterThanEqual, m, n))
      | LessThan \<Rightarrow>
          Some (if longer then Inr (LessThan, m, n + 1)
                else if m = 0 \<and> n = 0 then Inl False else Inr (LessThan, m, n))
      | _ \<Rightarrow> None)"

lemma plain_translation_accepts:
  assumes "\<not> is_star op" "op \<noteq> TildeEqual" "n < u64_MAX"
  shows "(case plain_translation op m n (trim_zeros q \<noteq> []) of
      None \<Rightarrow> False
    | Some (Inl c) \<Rightarrow> accepts op (m # n # q) [a, b] = c
    | Some (Inr (op', m', n')) \<Rightarrow> accepts op' [m', n'] (a # b # rest) = accepts op (m # n # q) [a, b])"
proof -
  note succ = succ_le_iff [OF assms(3)]
  have nil: "trim_zeros q \<le> [] \<longleftrightarrow> trim_zeros q = []" "[] < trim_zeros q \<longleftrightarrow> trim_zeros q \<noteq> []"
    by (cases "trim_zeros q"; simp)+
  have le: "b < n \<or> n = b \<longleftrightarrow> b \<le> n" "n + 1 < b \<or> n + 1 = b \<longleftrightarrow> n < b"
    using succ(1) [of b] by (auto simp: order.order_iff_strict)
  show ?thesis
    using assms(1,2)
    by (cases op; cases "trim_zeros q = []")
      (simp_all add: plain_translation_def is_star_def trim_Cons_order nil le succ word_gt_0
        eq_commute [of a m] eq_commute [of b n] del: trim_zeros_Cons)
qed

lemma set_trim_zeros: "set (trim_zeros p) \<subseteq> set p"
  by (induction p) auto

lemma short_release:
  assumes "length (trim_zeros t) \<le> 2" "list_all (\<lambda>n. n + 1 < u64_MAX \<and> n < u64_MAX) (trim_zeros t)"
  shows "\<exists>m n. trim_zeros t = trim_zeros [m, n] \<and> n + 1 < u64_MAX \<and> n < u64_MAX \<and> m < u64_MAX \<and>
    (case (if trim_zeros t = [] then [0] else trim_zeros t) of
       [major] \<Rightarrow> Some (major, 0) | [major, minor] \<Rightarrow> Some (major, minor) | _ \<Rightarrow> None) = Some (m, n)"
proof -
  have idem: "trim_zeros (trim_zeros t) = trim_zeros t" by (rule trim_zeros_idem)
  consider "trim_zeros t = []" | m where "trim_zeros t = [m]" | m n where "trim_zeros t = [m, n]"
    using assms(1) by (cases "trim_zeros t"; cases "tl (trim_zeros t)") auto
  then show ?thesis
  proof cases
    case 1
    then show ?thesis by (intro exI [of _ 0]) simp
  next
    case (2 m)
    then show ?thesis using assms(2) idem by (intro exI [of _ m] exI [of _ 0]) (auto split: if_splits)
  next
    case (3 m n)
    then show ?thesis using assms(2) idem by (intro exI [of _ m] exI [of _ n]) (auto split: if_splits)
  qed
qed

lemmas specifier_builders = equals_star_version_def not_equals_star_version_def greater_than_equal_version_def
  less_than_version_def release_specifier_def is_star_def NODE_TRUE_def NODE_FALSE_def

lemma plain_translated:
  assumes sp: "release_specifier sp" and op: "\<not> is_star (sp_operator sp)" "sp_operator sp \<noteq> TildeEqual"
    and lim: "list_all (\<lambda>n. n + 1 < u64_MAX \<and> n < u64_MAX) (v_release (sp_version sp))"
  shows "\<exists>r. python_version_to_full_version sp = Some r \<and>
    translated (sp_operator sp) (v_release (sp_version sp)) a b rest r"
proof -
  let ?t = "v_release (sp_version sp)" and ?op = "sp_operator sp"
  have t: "release_only (sp_version sp)" using sp by (simp add: release_specifier_def)
  obtain w where w: "only_release_trimmed (sp_version sp) = Some w"
    "v_release w = (if trim_zeros ?t = [] then [0] else trim_zeros ?t)"
    using only_release_trimmed_release [OF t] by blast
  have new: "\<exists>v. version_new [m, n] = Some v \<and> release_only v \<and> v_release v = [m, n]"
    if "m < u64_MAX" "n < u64_MAX" for m n
    using version_new_release [of "[m, n]"] that by simp
  have lim': "list_all (\<lambda>n. n + 1 < u64_MAX \<and> n < u64_MAX) (trim_zeros ?t)"
    using lim set_trim_zeros [of ?t] by (auto simp: list_all_iff)
  show ?thesis
  proof (cases "length (trim_zeros ?t) \<le> 2")
    case True
    obtain m n where mn: "trim_zeros ?t = trim_zeros [m, n]" "n + 1 < u64_MAX" "n < u64_MAX" "m < u64_MAX"
      "(case v_release w of [major] \<Rightarrow> Some (major, 0) | [major, minor] \<Rightarrow> Some (major, minor) | _ \<Rightarrow> None) = Some (m, n)"
      using short_release [OF True lim', folded w(2)] by blast
    obtain v v' where v: "version_new [m, n] = Some v" "release_only v" "v_release v = [m, n]"
      "version_new [m, n + 1] = Some v'" "release_only v'" "v_release v' = [m, n + 1]"
      using new [OF mn(4,3)] new [OF mn(4,2)] by blast
    note tr = plain_translation_accepts [OF op mn(3), of m "[]" a b rest]
    have acc: "accepts ?op ?t f = accepts ?op [m, n] f" for f by (rule accepts_trim [OF op mn(1)])
    have acc': "sp_operator sp = op' \<Longrightarrow> accepts op' ?t f = accepts op' [m, n] f" for f op' using acc by blast
    have "python_version_to_full_version sp = Some (case ?op of
        Equal \<Rightarrow> Inr (equals_star_version v) | ExactEqual \<Rightarrow> Inr (equals_star_version v)
      | NotEqual \<Rightarrow> Inr (not_equals_star_version v)
      | GreaterThan \<Rightarrow> Inr (greater_than_equal_version v') | LessThanEqual \<Rightarrow> Inr (less_than_version v')
      | GreaterThanEqual \<Rightarrow> if m = 0 \<and> n = 0 then Inl NODE_TRUE else Inr sp
      | _ \<Rightarrow> if m = 0 \<and> n = 0 then Inl NODE_FALSE else Inr sp)"
      using op by (cases ?op) (simp_all add: python_version_to_full_version_def is_star_def w(1) mn(5) v(1,4))
    then show ?thesis
      using op tr v(2,3,5,6) sp
      by (cases ?op)
        (auto simp: translated_def acc' plain_translation_def specifier_builders
          split: if_splits simp del: accepts.simps trim_zeros_Cons)
  next
    case False
    then have "Suc (Suc (Suc 0)) \<le> length (trim_zeros ?t)" by simp
    then obtain m n x q where q: "trim_zeros ?t = m # n # x # q" by (auto simp only: Suc_le_length_iff)
    then obtain p where p: "?t = m # n # p" "trim_zeros p = x # q" using trim_zeros_prefix by blast
    obtain v' where v: "version_new [m, n + 1] = Some v'" "release_only v'" "v_release v' = [m, n + 1]"
      using new [of m "n + 1"] lim p(1) by auto
    have n: "n < u64_MAX" using lim p(1) by simp
    note tr = plain_translation_accepts [OF op n, of m p a b rest]
    have "(case v_release w of [major] \<Rightarrow> Some (major, 0) | [major, minor] \<Rightarrow> Some (major, minor) | _ \<Rightarrow> None) = None"
      by (simp add: w(2) q)
    then have "python_version_to_full_version sp = Some (case ?op of
        Equal \<Rightarrow> Inl NODE_FALSE | ExactEqual \<Rightarrow> Inl NODE_FALSE | NotEqual \<Rightarrow> Inl NODE_TRUE
      | LessThan \<Rightarrow> Inr (less_than_version v') | LessThanEqual \<Rightarrow> Inr (less_than_version v')
      | _ \<Rightarrow> Inr (greater_than_equal_version v'))"
      using op by (cases ?op) (simp_all add: python_version_to_full_version_def is_star_def w(1) p(1) v(1))
    then show ?thesis
      using op tr v(2,3) p
      by (cases ?op)
        (simp_all add: translated_def plain_translation_def specifier_builders del: accepts.simps trim_zeros_Cons)
  qed
qed

lemmas python_version_translated = star_translated tilde_translated plain_translated

section \<open>Properties\<close>

text \<open>
  C21. A \<open>python_version\<close> specifier over a release is always translated without a panic. A resulting specifier
  accepts a full version \<open>a.b.\<dots>\<close> exactly when the given specifier accepts its \<open>python_version\<close> \<open>a.b\<close>. A
  resulting constant says for every \<open>a.b\<close> whether the given specifier accepts it, for every operator except
  \<open>!=V.*\<close>. The release numbers of the specifier stay below the largest number by two, so that the next minor
  version is a version.
\<close>

theorem python_version_translation:
  assumes "release_specifier sp" "list_all (\<lambda>n. n + 1 < u64_MAX \<and> n < u64_MAX) (v_release (sp_version sp))"
    and "release_only short" "v_release short = [a, b]" "release_only full" "v_release full = a # b # rest"
  shows "\<exists>r. python_version_to_full_version sp = Some r \<and>
    (case r of
       Inr sp' \<Rightarrow> sp_contains sp' full = sp_contains sp short
     | Inl node \<Rightarrow> (node = NODE_TRUE \<or> node = NODE_FALSE) \<and>
         (sp_operator sp = NotEqualStar \<or> sp_contains sp short = Some (node = NODE_TRUE)))"
proof -
  obtain r where r: "python_version_to_full_version sp = Some r"
    "translated (sp_operator sp) (v_release (sp_version sp)) a b rest r"
    using python_version_translated [OF assms(1)] assms(2) by blast
  then show ?thesis
    using contains_release [OF assms(1,3)] contains_release [OF _ assms(5)] assms(4,6)
    by (auto simp: translated_def NODE_TRUE_def NODE_FALSE_def less_2_cases_iff split: sum.splits)
qed

definition release_of :: "u64 list \<Rightarrow> version" where
  "release_of ns = the (version_new ns)"

definition specifier_of :: "operator \<Rightarrow> u64 list \<Rightarrow> specifier" where
  "specifier_of op ns = \<lparr>sp_operator = op, sp_version = release_of ns\<rparr>"

theorem python_version_translation_witness:
  "\<exists>r. python_version_to_full_version (specifier_of GreaterThan [3, 7, 2]) = Some r \<and>
    (case r of
       Inr sp' \<Rightarrow> sp_contains sp' (release_of [3, 8, 1]) =
         sp_contains (specifier_of GreaterThan [3, 7, 2]) (release_of [3, 8])
     | Inl node \<Rightarrow> (node = NODE_TRUE \<or> node = NODE_FALSE) \<and>
         (sp_operator (specifier_of GreaterThan [3, 7, 2]) = NotEqualStar \<or>
          sp_contains (specifier_of GreaterThan [3, 7, 2]) (release_of [3, 8]) = Some (node = NODE_TRUE)))"
  by (rule python_version_translation [where a = 3 and b = 8 and rest = "[1]"]; code_simp)


end
