(* ===== verification/MarkerBoolean.thy ===== *)
theory MarkerBoolean
  imports MarkerExpression
begin

text \<open>
  The boolean operations of \<open>MarkerTree\<close> (\<open>marker/tree.rs\<close>): conjunction, disjunction, implication and
  negation return, keep the interner in order and evaluate to the corresponding operation on truth values;
  the tests for disjointness and unreachability can be trusted when they answer \<open>true\<close>.
\<close>

section \<open>Evaluation of results\<close>

abbreviation evaluation ::
  "('r, 'q) algebra_deps \<Rightarrow> ('r, 'q) interner \<Rightarrow> context_env \<Rightarrow> node_id \<Rightarrow> bool option" where
  "evaluation P st e i \<equiv> evaluate_reporter_impl P st (fst e) (snd e) i"

text \<open>
  The environment decides every variable on the path through the tree: no comparison as a version with a
  string that is not a version, and no list expression on an arbitrary value.
\<close>

definition decided :: "('r, 'q) algebra_deps \<Rightarrow> ('r, 'q) interner \<Rightarrow> context_env \<Rightarrow> node_id \<Rightarrow> bool" where
  "decided P st e i \<longleftrightarrow> (\<exists>b. denotes P st e i b)"

lemma decidedD:
  assumes "store_ok P KV KS st" "valid st i" "decided P st e i"
  shows "\<exists>b. denotes P st e i b \<and> evaluation P st e i = Some b"
proof -
  obtain b where "denotes P st e i b" using assms(3) unfolding decided_def by (elim exE)
  then show ?thesis using denotes_evaluate [OF assms(1) _ assms(2)] by blast
qed

lemma outcome_evaluation:
  assumes "store_ok P KV KS st" "outcome P st L Q i" "env_ok e" "Q e b"
  shows "denotes P st e i b" "evaluation P st e i = Some b"
proof -
  show d: "denotes P st e i b" using assms unfolding outcome_def by blast
  then show "evaluation P st e i = Some b"
    using denotes_evaluate [OF assms(1) d] assms(2) unfolding outcome_def by blast
qed

text \<open>The value of a result against the values of two operands, in the interner before the operation.\<close>

definition computes_op ::
  "('r, 'q) algebra_deps \<Rightarrow> (bool \<Rightarrow> bool \<Rightarrow> bool) \<Rightarrow> ('r, 'q) interner \<Rightarrow> node_id \<Rightarrow> node_id \<Rightarrow>
   ('r, 'q) interner \<Rightarrow> node_id \<Rightarrow> bool" where
  "computes_op P f st x y st' i \<longleftrightarrow>
     (\<forall>e. env_ok e \<longrightarrow> consistent e \<longrightarrow> decided P st e x \<longrightarrow> decided P st e y \<longrightarrow>
        (\<exists>a b. evaluation P st e x = Some a \<and> evaluation P st e y = Some b \<and>
           decided P st' e i \<and> evaluation P st' e i = Some (f a b)))"

lemma computes_opI:
  assumes st: "store_ok P KV KS st" "store_ok P KV KS st'" and xy: "valid st x" "valid st y" and g: "grows st st'"
    and Q: "outcome P st' L Q i"
    and ab: "\<And>e a b. consistent e \<Longrightarrow> denotes P st' e x a \<Longrightarrow> denotes P st' e y b \<Longrightarrow> Q e (f a b)"
  shows "computes_op P f st x y st' i"
  unfolding computes_op_def
proof (intro allI impI)
  fix e
  assume e: "env_ok e" "consistent e" "decided P st e x" "decided P st e y"
  obtain a where a: "denotes P st e x a" "evaluation P st e x = Some a" using decidedD [OF st(1) xy(1) e(3)] by blast
  obtain b where b: "denotes P st e y b" "evaluation P st e y = Some b" using decidedD [OF st(1) xy(2) e(4)] by blast
  have "Q e (f a b)" using ab [OF e(2)] grows_denotes [OF a(1) g] grows_denotes [OF b(1) g] by blast
  then show "\<exists>a b. evaluation P st e x = Some a \<and> evaluation P st e y = Some b \<and>
      decided P st' e i \<and> evaluation P st' e i = Some (f a b)"
    using outcome_evaluation [OF st(2) Q e(1)] a(2) b(2) unfolding decided_def by blast
qed

text \<open>An operation on two trees that returns, keeps the invariant and computes \<open>f\<close>.\<close>

definition operates ::
  "('r, 'q) algebra_deps \<Rightarrow> ('r \<Rightarrow> bool) \<Rightarrow> ('q \<Rightarrow> bool) \<Rightarrow> (bool \<Rightarrow> bool \<Rightarrow> bool) \<Rightarrow> ('r, 'q) interner \<Rightarrow>
   node_id \<Rightarrow> node_id \<Rightarrow> (node_id \<times> ('r, 'q) interner) option \<Rightarrow> bool" where
  "operates P KV KS f st x y result \<longleftrightarrow>
     (\<exists>i st'. result = Some (i, st') \<and> interner_ok P KV KS st' \<and> grows st st' \<and> valid st' i \<and>
        computes_op P f st x y st' i)"

lemma tree_or_node: "tree_or P x y st = or_node P x y st"
  by (auto simp: tree_or_def or_node_def or_trivial_def or_nontrivial_def and_node_def split: option.splits)

lemma tree_and_operates:
  assumes laws: "deps_laws P KV KS" and st: "interner_ok P KV KS st" and xy: "valid st x" "valid st y"
  shows "operates P KV KS (\<and>) st x y (tree_and P x y st)"
proof -
  obtain i st' where i: "and_node P x y st = Some (i, st')" "interner_ok P KV KS st'" "grows st st'"
    "and_spec P consistent st' x y i"
    using and_node_runs [OF assms] by (elim exE conjE)
  have "computes_op P (\<and>) st x y st' i"
    by (rule computes_opI [OF interner_okD(1) [OF st] interner_okD(1) [OF i(2)] xy i(3) i(4) [unfolded and_spec_def]])
      (auto simp: both_def)
  then show ?thesis
    using i unfolding operates_def tree_and_def and_node_def and_spec_def outcome_def by blast
qed

lemma tree_or_operates:
  assumes laws: "deps_laws P KV KS" and st: "interner_ok P KV KS st" and xy: "valid st x" "valid st y"
  shows "operates P KV KS (\<or>) st x y (tree_or P x y st)"
proof -
  obtain i st' where i: "or_node P x y st = Some (i, st')" "interner_ok P KV KS st'" "grows st st'"
    "or_spec P consistent st' x y i"
    using or_node_runs [OF assms] by (elim exE conjE)
  have "computes_op P (\<or>) st x y st' i"
    by (rule computes_opI [OF interner_okD(1) [OF st] interner_okD(1) [OF i(2)] xy i(3) i(4) [unfolded or_spec_def]])
      (auto simp: either_def)
  then show ?thesis
    using i unfolding operates_def tree_or_node or_spec_def outcome_def by blast
qed

text \<open>Negation: in the same interner, every decided value is negated.\<close>

lemma tree_negate_evaluation:
  assumes "store_ok P KV KS st" "valid st x" "decided P st e x"
  shows "\<exists>b. evaluation P st e x = Some b \<and> evaluation P st e (tree_negate x) = Some (\<not> b)"
proof -
  obtain b where b: "denotes P st e x b" "evaluation P st e x = Some b" using decidedD [OF assms] by blast
  have "denotes P st e (tree_negate x) (\<not> b)" using b(1) by (simp add: tree_negate_def)
  then show ?thesis using denotes_evaluate [OF assms(1)] b(2) assms(2) by (auto simp: tree_negate_def)
qed

lemma decided_negate: "decided P st e (tree_negate x) \<longleftrightarrow> decided P st e x"
  unfolding decided_def tree_negate_def denotes_not by (simp add: ex_bool_eq disj_commute)

lemma tree_implies_operates:
  assumes laws: "deps_laws P KV KS" and st: "interner_ok P KV KS st" and xy: "valid st x" "valid st y"
  shows "operates P KV KS (\<longrightarrow>) st x y (tree_implies P x y st)"
proof -
  have "valid st (tree_negate x)" using xy(1) by (simp add: tree_negate_def)
  then have "operates P KV KS (\<or>) st (tree_negate x) y (tree_implies P x y st)"
    using tree_or_operates [OF laws st _ xy(2)] by (simp add: tree_implies_def)
  moreover have "computes_op P (\<longrightarrow>) st x y st' i" if c: "computes_op P (\<or>) st (tree_negate x) y st' i" for st' i
    unfolding computes_op_def
  proof (intro allI impI)
    fix e
    assume e: "env_ok e" "consistent e" "decided P st e x" "decided P st e y"
    obtain a b where "evaluation P st e (tree_negate x) = Some a" "evaluation P st e y = Some b"
      "decided P st' e i" "evaluation P st' e i = Some (a \<or> b)"
      using c e unfolding computes_op_def decided_negate by blast
    then show "\<exists>a b. evaluation P st e x = Some a \<and> evaluation P st e y = Some b \<and>
        decided P st' e i \<and> evaluation P st' e i = Some (a \<longrightarrow> b)"
      using tree_negate_evaluation [OF interner_okD(1) [OF st] xy(1) e(3)] by auto
  qed
  ultimately show ?thesis unfolding operates_def by blast
qed

section \<open>Evaluation\<close>

text \<open>Evaluation gives up with \<open>false\<close>, so the answer \<open>true\<close> is always a denoted value.\<close>

lemma evaluate_fuel_true:
  assumes "store_ok P KV KS st"
  shows "valid st i \<Longrightarrow> evaluate_fuel P st m (fst e) (snd e) i = Some True \<Longrightarrow> denotes P st e i True"
proof (induction m arbitrary: i)
  case (Suc m)
  show ?case
  proof (cases "i < 2")
    case True
    then have "i = NODE_TRUE" using Suc.prems(2) by (simp add: evaluate_fuel_terminal del: evaluate_fuel.simps)
    then show ?thesis by simp
  next
    case False
    then obtain n where n: "node_of st i = Some n" using Suc.prems(1) valid_node_of by blast
    then have "typed (var n) (children n)" using store_node(1) [OF assms n] edges_okD by blast
    then obtain c where c: "select P (choice_of e (var n)) (children n) = Some c"
      "evaluate_fuel P st m (fst e) (snd e) (node_negate c i) = Some True"
      using Suc.prems(2) by (auto simp: evaluate_fuel_node [OF n] simp del: evaluate_fuel.simps split: option.splits)
    have "valid st (node_negate c i)" using store_node(3) [OF assms n select_in [OF c(1)]] by simp
    then have "denotes P st e (node_negate c i) True" using Suc.IH c(2) by blast
    then show ?thesis using c(1) denotes_node_iff [OF n] by blast
  qed
qed simp

lemma evaluation_true:
  assumes "store_ok P KV KS st" "valid st i"
  shows "evaluation P st e i = Some True \<longleftrightarrow> denotes P st e i True"
  using evaluate_fuel_true [OF assms] denotes_evaluate [OF assms(1) _ assms(2)]
  unfolding evaluate_reporter_impl_def by blast

text \<open>The values of a tree do not change when the interner grows.\<close>

lemma evaluate_grows:
  assumes st: "store_ok P KV KS st" and st': "store_ok P KV KS st'" and g: "grows st st'" and i: "valid st i"
  shows "evaluation P st' e i = evaluation P st e i"
proof -
  note i' = grows_valid [OF g i]
  have "denotes P st' e i True \<longleftrightarrow> denotes P st e i True" using grows_denotes_iff [OF st g i] .
  then have "evaluation P st' e i = Some True \<longleftrightarrow> evaluation P st e i = Some True"
    unfolding evaluation_true [OF st i] evaluation_true [OF st' i'] .
  moreover obtain b b' where "evaluation P st e i = Some b" "evaluation P st' e i = Some b'"
    using evaluate_total [OF st i] evaluate_total [OF st' i'] by metis
  ultimately show ?thesis by auto
qed

section \<open>Disjointness and unreachability\<close>

text \<open>A test that returns and keeps the invariant, and whose answer \<open>true\<close> gives \<open>A\<close> for consistent environments.\<close>

definition tests ::
  "('r, 'q) algebra_deps \<Rightarrow> ('r \<Rightarrow> bool) \<Rightarrow> ('q \<Rightarrow> bool) \<Rightarrow> ('r, 'q) interner \<Rightarrow>
   (bool \<times> ('r, 'q) interner) option \<Rightarrow> (context_env \<Rightarrow> bool) \<Rightarrow> bool" where
  "tests P KV KS st result A \<longleftrightarrow>
     (\<exists>b st'. result = Some (b, st') \<and> interner_ok P KV KS st' \<and> grows st st' \<and>
        (b \<longrightarrow> (\<forall>e. env_ok e \<longrightarrow> consistent e \<longrightarrow> A e)))"

lemma testsI:
  assumes "result = Some (b, st')" "interner_ok P KV KS st'" "grows st st'"
    "\<And>e. b \<Longrightarrow> env_ok e \<Longrightarrow> consistent e \<Longrightarrow> A e"
  shows "tests P KV KS st result A"
  using assms unfolding tests_def by blast

lemma and_spec_not_both:
  assumes "and_spec P consistent st' x y NODE_FALSE" "env_ok e" "consistent e"
    "denotes P st' e x True" "denotes P st' e y True"
  shows False
proof -
  have "both P consistent st' x y e True" using assms(3-5) unfolding both_def by blast
  then have "denotes P st' e NODE_FALSE True" using assms(1,2) unfolding and_spec_def outcome_def by blast
  then show False by simp
qed

text \<open>The test by a conjunction.\<close>

lemma and_node_tests:
  assumes "deps_laws P KV KS" "interner_ok P KV KS st" "valid st x" "valid st y"
  shows "tests P KV KS st (do { (i, st') \<leftarrow> and_node P x y st; Some (node_is_false i, st') })
    (\<lambda>e. \<not> (denotes P st e x True \<and> denotes P st e y True))"
proof -
  obtain i st' where i: "and_node P x y st = Some (i, st')" "interner_ok P KV KS st'" "grows st st'"
    "and_spec P consistent st' x y i"
    using and_node_runs [OF assms] by (elim exE conjE)
  show ?thesis
  proof (rule testsI [OF _ i(2,3)])
    show "(do { (i, st') \<leftarrow> and_node P x y st; Some (node_is_false i, st') }) = Some (node_is_false i, st')"
      by (simp add: i(1))
    fix e
    assume "node_is_false i" and e: "env_ok e" "consistent e"
    then have "and_spec P consistent st' x y NODE_FALSE" using i(4) by (simp add: node_is_false_def)
    then show "\<not> (denotes P st e x True \<and> denotes P st e y True)"
      using and_spec_not_both e grows_denotes [OF _ i(3)] by blast
  qed
qed

lemma is_disjoint_tests:
  assumes laws: "deps_laws P KV KS" and st: "interner_ok P KV KS st" and xy: "valid st x" "valid st y"
    and nt: "and_trivial x y = None"
  shows "tests P KV KS st (is_disjoint_nontrivial P x y st)
    (\<lambda>e. \<not> (denotes P st e x True \<and> denotes P st e y True))"
proof -
  have "\<not> x < 2" "\<not> y < 2"
    using nt by (auto simp: terminal_iff and_trivial_def node_is_true_def node_is_false_def split: if_splits)
  then obtain m n where mn: "node_of st x = Some m" "node_of st y = Some n" using xy valid_node_of by metis
  note store = interner_okD(1) [OF st]
  show ?thesis
  proof (cases "is_conflicting_variable (var m) \<and> is_conflicting_variable (var n)")
    case True
    then show ?thesis
      using and_node_tests [OF laws st xy] by (simp add: is_disjoint_nontrivial_def mn)
  next
    case False
    have "sound_test (disjoint_expansion P (disjointness P st) x y m n) (disjoint_in P st x y)"
      by (rule disjoint_expansion_sound [OF laws store mn]) (rule disjointness_sound [OF laws store])
    then obtain b where b: "disjoint_expansion P (disjointness P st) x y m n = Some b" "b \<longrightarrow> disjoint_in P st x y"
      unfolding sound_test_def by (elim exE conjE)
    have "is_disjoint_nontrivial P x y st = Some (b, st)"
      unfolding is_disjoint_nontrivial_def mn using False by (auto simp: b(1))
    then show ?thesis by (rule testsI [OF _ st grows_refl]) (use b(2) in \<open>unfold disjoint_in_def, blast\<close>)
  qed
qed

lemma tree_is_disjoint_tests:
  assumes laws: "deps_laws P KV KS" and st: "interner_ok P KV KS st" and xy: "valid st x" "valid st y"
  shows "tests P KV KS st (tree_is_disjoint P x y st)
    (\<lambda>e. \<not> (denotes P st e x True \<and> denotes P st e y True))"
proof (cases "and_trivial x y")
  case None
  then show ?thesis
    using is_disjoint_tests [OF laws st xy None] by (simp add: tree_is_disjoint_def is_disjoint_trivial_def)
next
  case (Some r)
  have "tree_is_disjoint P x y st = do { (i, st') \<leftarrow> and_node P x y st; Some (node_is_false i, st') }"
    using Some by (simp add: tree_is_disjoint_def is_disjoint_trivial_def and_node_def)
  then show ?thesis using and_node_tests [OF laws st xy] by simp
qed

lemma tree_is_unreachable_tests:
  assumes laws: "deps_laws P KV KS" and st: "interner_ok P KV KS st" and x: "valid st x"
  shows "tests P KV KS st (tree_is_unreachable P x st) (\<lambda>e. \<not> denotes P st e x True)"
proof (cases "node_is_true x \<or> node_is_false x")
  case True
  then show ?thesis
    by (intro testsI [OF _ st grows_refl, of _ "node_is_false x"])
      (auto simp: tree_is_unreachable_def node_is_false_def)
next
  case False
  obtain t st' where t: "exclusions P st = Some (t, st')" "interner_ok P KV KS st'" "grows st st'"
    "means P st' (\<lambda>e. \<not> consistent e) t"
    using exclusions_runs [OF laws st] by (elim exE conjE)
  have v: "valid st' x" "valid st' (node_not t)" using grows_valid [OF t(3) x] t(4) by (simp_all add: means_def)
  have eq: "tree_is_unreachable P x st =
      do { (i, st'') \<leftarrow> and_node P x (node_not t) st'; Some (node_is_false i, st'') }"
    using False t(1) by (simp add: tree_is_unreachable_def is_unreachable_def)
  obtain b st'' where b: "tree_is_unreachable P x st = Some (b, st'')" "interner_ok P KV KS st''" "grows st' st''"
    "b \<longrightarrow> (\<forall>e. env_ok e \<longrightarrow> consistent e \<longrightarrow> \<not> (denotes P st' e x True \<and> denotes P st' e (node_not t) True))"
    using and_node_tests [OF laws t(2) v] unfolding tests_def eq [symmetric] by (elim exE conjE)
  show ?thesis
  proof (rule testsI [OF b(1,2) grows_trans [OF t(3) b(3)]])
    fix e
    assume "b" and e: "env_ok e" "consistent e"
    have "denotes P st' e t False" using t(4) e unfolding means_def by (metis (full_types))
    then have "denotes P st' e (node_not t) True" by simp
    then show "\<not> denotes P st e x True" using b(4) \<open>b\<close> e grows_denotes [OF _ t(3)] by blast
  qed
qed

section \<open>An example\<close>

text \<open>A leaf on a boolean variable, for an interner in order.\<close>

lemma boolean_leaf:
  assumes laws: "deps_laws P KV KS" and st: "interner_ok P KV KS st"
    and v: "typed v (EBoolean NODE_TRUE NODE_FALSE :: ('r, 'q) edges)"
  shows "\<exists>i st'. create_node P v (edges_from_bool pos :: ('r, 'q) edges) st = Some (i, st') \<and> interner_ok P KV KS st' \<and>
    grows st st' \<and> outcome P st' (\<lambda>w. w < v) (\<lambda>e b. \<exists>c. choice_of e v = CBool c \<and> b = (c = pos)) i"
proof -
  let ?D = "\<lambda>e. \<exists>c. choice_of e v = CBool c" and ?Q = "\<lambda>e. choice_of e v = CBool pos"
  have "typed v (edges_from_bool pos :: ('r, 'q) edges)" using v by (cases v) (auto simp: edges_from_bool_def)
  then have ok: "edges_ok P KV KS v (edges_from_bool pos)" by (simp add: edges_ok_def edges_from_bool_def)
  have "\<exists>i st'. create_node P v (edges_from_bool pos :: ('r, 'q) edges) st = Some (i, st') \<and> store_ok P KV KS st' \<and> grows st st' \<and>
      same_tables st st' \<and> outcome P st' (\<lambda>w. w < v) (\<lambda>e b. ?D e \<and> b = ?Q e) i"
    by (rule leaf_node [OF laws interner_okD(1) [OF st] ok]) (auto simp: edges_from_bool_def)
  then obtain i st' where i: "create_node P v (edges_from_bool pos :: ('r, 'q) edges) st = Some (i, st')"
    "store_ok P KV KS st'" "grows st st'" "same_tables st st'" "outcome P st' (\<lambda>w. w < v) (\<lambda>e b. ?D e \<and> b = ?Q e) i"
    by (elim exE conjE)
  have "outcome P st' (\<lambda>w. w < v) (\<lambda>e b. \<exists>c. choice_of e v = CBool c \<and> b = (c = pos)) i"
    by (rule outcome_mono [OF i(5)]) auto
  then show ?thesis using i interner_ok_grows [OF st i(2,3,4)] by blast
qed

text \<open>The interner after \<open>extra == 'a'\<close> (id 2) and \<open>extra != 'b'\<close> (id 5).\<close>

definition example_interner :: "(version segment list, string segment list) interner" where
  "example_interner =
     (case do { (i, st) \<leftarrow> expression segment_deps (MeExtra (ValueExtra ''a'') ExtraEqual) interner_default;
                expression segment_deps (MeExtra (ValueExtra ''b'') ExtraNotEqual) st } of
        Some (i, st) \<Rightarrow> st | None \<Rightarrow> interner_default)"

lemma example_interner_ok: "interner_ok segment_deps version_segments_ok string_segments_ok example_interner"
proof -
  have leaf: "\<exists>i st'. expression segment_deps (MeExtra (ValueExtra name) op) st = Some (i, st') \<and>
      interner_ok segment_deps version_segments_ok string_segments_ok st'"
    if "interner_ok segment_deps version_segments_ok string_segments_ok st" for name op st
    using boolean_leaf [OF segment_deps_laws that, of "VExtra name" "op = ExtraEqual"] by auto
  obtain i st where "expression segment_deps (MeExtra (ValueExtra ''a'') ExtraEqual) interner_default = Some (i, st)"
    "interner_ok segment_deps version_segments_ok string_segments_ok st"
    using leaf [OF interner_ok_default] by blast
  moreover obtain j st' where "expression segment_deps (MeExtra (ValueExtra ''b'') ExtraNotEqual) st = Some (j, st')"
    "interner_ok segment_deps version_segments_ok string_segments_ok st'"
    using leaf [OF calculation(2)] by blast
  ultimately show ?thesis by (simp add: example_interner_def del: expression.simps)
qed

lemma example_valid: "valid example_interner 2" "valid example_interner 5"
  by code_simp+

text \<open>An environment with the extra \<open>a\<close>.\<close>

definition example_env :: context_env where
  "example_env = (fst (strings_env (\<lambda>_. ''linux'')), ExtrasEnv [''a''])"

lemma example_env: "env_ok example_env" "consistent example_env"
proof -
  show "env_ok example_env" using strings_env(2) by (simp add: env_ok_def example_env_def)
  show "consistent example_env" by code_simp
qed

lemma example_decided: "decided segment_deps example_interner example_env 2" "decided segment_deps example_interner example_env 5"
proof -
  have n: "node_of example_interner 2 = Some \<lparr>var = VExtra ''a'', children = EBoolean 0 1\<rparr>"
    "node_of example_interner 5 = Some \<lparr>var = VExtra ''b'', children = EBoolean 0 1\<rparr>"
    by code_simp+
  have c: "choice_of example_env (VExtra ''a'') = CBool True" "choice_of example_env (VExtra ''b'') = CBool False"
    "node_negate 0 2 = NODE_TRUE" "node_negate 1 5 = NODE_TRUE"
    by code_simp+
  show "decided segment_deps example_interner example_env 2" "decided segment_deps example_interner example_env 5"
    unfolding decided_def denotes_node_iff [OF n(1)] denotes_node_iff [OF n(2)]
    by (auto simp: c ex_bool_eq simp del: choice_of.simps One_nat_def)
qed

lemmas example_facts = segment_deps_laws example_interner_ok example_valid

section \<open>Properties\<close>

text \<open>
  C23. The conjunction of two trees returns, and its result evaluates to the conjunction of their values in
  every consistent environment that decides both. An environment is consistent when it has none of the
  combinations of \<open>os_name\<close>, \<open>platform_system\<close> and \<open>sys_platform\<close> that the code takes to be impossible.
\<close>

theorem tree_and_correct:
  assumes "deps_laws P KV KS" "interner_ok P KV KS st" "valid st x" "valid st y"
  shows "\<exists>i st'. tree_and P x y st = Some (i, st') \<and> valid st' i \<and>
    (\<forall>e. env_ok e \<longrightarrow> consistent e \<longrightarrow> decided P st e x \<longrightarrow> decided P st e y \<longrightarrow>
       (\<exists>a b. evaluation P st e x = Some a \<and> evaluation P st e y = Some b \<and> evaluation P st' e i = Some (a \<and> b)))"
  using tree_and_operates [OF assms] unfolding operates_def computes_op_def by meson

theorem tree_and_correct_witness:
  "\<exists>i st'. tree_and segment_deps 2 5 example_interner = Some (i, st') \<and> evaluation segment_deps st' example_env i = Some True"
proof -
  obtain i st' where i: "tree_and segment_deps 2 5 example_interner = Some (i, st')"
    "\<forall>e. env_ok e \<longrightarrow> consistent e \<longrightarrow> decided segment_deps example_interner e 2 \<longrightarrow>
      decided segment_deps example_interner e 5 \<longrightarrow>
      (\<exists>a b. evaluation segment_deps example_interner e 2 = Some a \<and>
         evaluation segment_deps example_interner e 5 = Some b \<and> evaluation segment_deps st' e i = Some (a \<and> b))"
    using tree_and_correct [OF example_facts] by (elim exE conjE)
  have "evaluation segment_deps example_interner example_env 2 = Some True"
    "evaluation segment_deps example_interner example_env 5 = Some True"
    by code_simp+
  then show ?thesis using i(1) i(2) [rule_format, OF example_env example_decided] by auto
qed

text \<open>
  C24. Disjunction and implication return, and evaluate to the disjunction and implication of the values of
  their operands in the same environments.
\<close>

theorem tree_or_implies_correct:
  assumes "deps_laws P KV KS" "interner_ok P KV KS st" "valid st x" "valid st y"
  shows "operates P KV KS (\<or>) st x y (tree_or P x y st) \<and> operates P KV KS (\<longrightarrow>) st x y (tree_implies P x y st)"
  using tree_or_operates [OF assms] tree_implies_operates [OF assms] by blast

theorem tree_or_implies_correct_witness:
  "operates segment_deps version_segments_ok string_segments_ok (\<longrightarrow>) example_interner 2 5
     (tree_implies segment_deps 2 5 example_interner)"
  using tree_or_implies_correct [OF example_facts] by blast

text \<open>
  C25. Every tree evaluates in every environment: the walk over the decision nodes ends without a panic, and
  negation flips the value wherever the environment decides the variables on the path.
\<close>

theorem evaluation_returns:
  assumes "store_ok P KV KS st" "valid st x"
  shows "\<exists>b. evaluate_reporter_impl P st env extras x = Some b \<and>
    (decided P st (env, extras) x \<longrightarrow> evaluate_reporter_impl P st env extras (tree_negate x) = Some (\<not> b))"
proof -
  obtain b where "evaluate_reporter_impl P st env extras x = Some b" using evaluate_total [OF assms] by blast
  then show ?thesis using tree_negate_evaluation [OF assms, of "(env, extras)"] by auto
qed

theorem evaluation_returns_witness:
  "evaluation segment_deps example_interner example_env (tree_negate 5) = Some False"
proof -
  have "evaluation segment_deps example_interner example_env 5 = Some True" by code_simp
  then show ?thesis
    using evaluation_returns [OF interner_okD(1) [OF example_interner_ok] example_valid(2),
        of "fst example_env" "snd example_env"] example_decided(2) by auto
qed

text \<open>
  C26. The tests can be trusted when they answer \<open>true\<close>, and they always return: disjoint trees are never
  both true in a consistent environment, and an unreachable tree is true in none.
\<close>

theorem disjoint_unreachable_sound:
  assumes "deps_laws P KV KS" "interner_ok P KV KS st" "valid st x" "valid st y"
  shows "(\<exists>b st'. tree_is_disjoint P x y st = Some (b, st') \<and> (b \<longrightarrow>
      (\<forall>e. env_ok e \<longrightarrow> consistent e \<longrightarrow> \<not> (evaluation P st e x = Some True \<and> evaluation P st e y = Some True)))) \<and>
    (\<exists>b st'. tree_is_unreachable P x st = Some (b, st') \<and> (b \<longrightarrow>
      (\<forall>e. env_ok e \<longrightarrow> consistent e \<longrightarrow> evaluation P st e x = Some False)))"
proof (rule conjI)
  note store = interner_okD(1) [OF assms(2)]
  note true = evaluation_true [OF store assms(3)] evaluation_true [OF store assms(4)]
  show "\<exists>b st'. tree_is_disjoint P x y st = Some (b, st') \<and> (b \<longrightarrow>
      (\<forall>e. env_ok e \<longrightarrow> consistent e \<longrightarrow> \<not> (evaluation P st e x = Some True \<and> evaluation P st e y = Some True)))"
    using tree_is_disjoint_tests [OF assms] unfolding tests_def true by blast
  have "evaluation P st e x = Some False \<longleftrightarrow> \<not> denotes P st e x True" for e
    using evaluate_total [OF store assms(3), of "fst e" "snd e"] true(1) [of e] by auto
  then show "\<exists>b st'. tree_is_unreachable P x st = Some (b, st') \<and> (b \<longrightarrow>
      (\<forall>e. env_ok e \<longrightarrow> consistent e \<longrightarrow> evaluation P st e x = Some False))"
    using tree_is_unreachable_tests [OF assms(1-3)] unfolding tests_def by blast
qed

theorem disjoint_unreachable_sound_witness:
  "\<exists>b st'. tree_is_disjoint segment_deps 2 5 example_interner = Some (b, st') \<and> \<not> b"
proof -
  have "evaluation segment_deps example_interner example_env 2 = Some True"
    "evaluation segment_deps example_interner example_env 5 = Some True"
    by code_simp+
  then show ?thesis using disjoint_unreachable_sound [OF example_facts] example_env by blast
qed




end
