(* ===== verification/MarkerExtras.thy ===== *)
theory MarkerExtras
  imports MarkerBoolean
begin

text \<open>
  Evaluation of marker trees when only the active extras are known (\<open>marker/tree.rs\<close>): \<open>evaluate_extras\<close> asks
  whether some environment could satisfy the tree, \<open>evaluate_only_extras\<close> whether every environment does. The
  theory shows that both return and bound evaluation in an environment from above and from below.
\<close>

section \<open>Quantifiers over subtrees\<close>

lemma any_opt_total:
  assumes "\<And>x. x \<in> set xs \<Longrightarrow> \<exists>b. f x = Some b"
  shows "any_opt f xs = Some (\<exists>x\<in>set xs. f x = Some True)"
  using assms by (induction xs) fastforce+

lemma all_opt_total:
  assumes "\<And>x. x \<in> set xs \<Longrightarrow> \<exists>b. f x = Some b"
  shows "all_opt f xs = Some (\<forall>x\<in>set xs. f x = Some True)"
  using assms by (induction xs) fastforce+

text \<open>The kind of a node: an extra with its two subtrees, or a variable that the extras do not decide.\<close>

lemma tree_kind_node:
  assumes "node_of st i = Some n" "typed (var n) (children n)"
  obtains (Extra) name hi lo where "var n = VExtra name" "children n = EBoolean hi lo"
      "tree_kind st i = Some (KExtra name (node_negate hi i) (node_negate lo i))"
  | (Other) k where "tree_kind st i = Some k" "k \<noteq> KTrue" "k \<noteq> KFalse" "\<And>name hi lo. k \<noteq> KExtra name hi lo"
      "set (kind_children k) = (\<lambda>c. node_negate c i) ` set (edge_nodes (children n))"
proof -
  have "\<not> i < 2" using assms(1) by (auto simp: node_of_Some_iff)
  then have "\<not> node_is_true i" "\<not> node_is_false i"
    by (auto simp: node_is_true_def node_is_false_def terminal_iff)
  then show thesis
    using assms that
    by (cases "var n"; cases "children n") (auto simp: tree_kind_def tree_edges_def image_image split_beta)
qed

lemma extras_fuel_terminal:
  assumes "i < 2"
  shows "evaluate_extras_fuel st (Suc m) extras i = Some (i = NODE_TRUE)"
    "evaluate_only_extras_fuel st (Suc m) extras i = Some (i = NODE_TRUE)"
  using assms
  by (auto simp: terminal_iff tree_kind_def node_is_true_def node_is_false_def NODE_TRUE_def NODE_FALSE_def)

text \<open>
  With fuel above the id both evaluations return. The results bound the values that the id denotes in the
  environments with these extras.
\<close>

definition with_extras :: "extra_name list \<Rightarrow> context_env \<Rightarrow> bool" where
  "with_extras extras e \<longleftrightarrow> env_extra (snd e) = extras"

lemma denotes_extra:
  assumes "node_of st i = Some n" "var n = VExtra name" "children n = EBoolean hi lo" "with_extras extras e"
    "denotes P st e i b"
  shows "denotes P st e (tree_edge (node_negate hi i) (node_negate lo i) (List.member extras name)) b"
  using assms by (auto simp: denotes_node_iff with_extras_def tree_edge_def)

lemma denotes_child:
  assumes "node_of st i = Some n" "denotes P st e i b"
  shows "\<exists>c\<in>(\<lambda>c. node_negate c i) ` set (edge_nodes (children n)). denotes P st e c b"
  using assms select_in by (fastforce simp: denotes_node_iff)

text \<open>Induction over the trees of a store, by the kinds of their roots.\<close>

lemma tree_induct [consumes 2, case_names Terminal Extra Other]:
  assumes "store_ok P KV KS st" "valid st i"
    and terminal: "\<And>i. i < 2 \<Longrightarrow> Q i"
    and extra: "\<And>i n name hi lo. node_of st i = Some n \<Longrightarrow> var n = VExtra name \<Longrightarrow> children n = EBoolean hi lo \<Longrightarrow>
      tree_kind st i = Some (KExtra name (node_negate hi i) (node_negate lo i)) \<Longrightarrow>
      (\<And>b. Q (tree_edge (node_negate hi i) (node_negate lo i) b) \<and> tree_edge (node_negate hi i) (node_negate lo i) b < i) \<Longrightarrow> Q i"
    and other: "\<And>i n k. node_of st i = Some n \<Longrightarrow> tree_kind st i = Some k \<Longrightarrow> k \<noteq> KTrue \<Longrightarrow> k \<noteq> KFalse \<Longrightarrow>
      (\<And>name hi lo. k \<noteq> KExtra name hi lo) \<Longrightarrow>
      set (kind_children k) = (\<lambda>c. node_negate c i) ` set (edge_nodes (children n)) \<Longrightarrow>
      (\<And>c. c \<in> set (kind_children k) \<Longrightarrow> Q c \<and> c < i) \<Longrightarrow> Q i"
  shows "Q i"
  using assms(2)
proof (induction i rule: less_induct)
  case (less i)
  show ?case
  proof (cases "i < 2")
    case True
    then show ?thesis by (rule terminal)
  next
    case False
    then obtain n where n: "node_of st i = Some n" using less.prems valid_node_of by blast
    then have t: "typed (var n) (children n)" using store_node(1) [OF assms(1) n] edges_okD by blast
    have ih: "Q (node_negate c i) \<and> node_negate c i < i" if "c \<in> set (edge_nodes (children n))" for c
      using store_node(3,4) [OF assms(1) n that] less.IH by simp
    from n t show ?thesis
    proof (cases rule: tree_kind_node)
      case (Extra name hi lo)
      then show ?thesis using extra [OF n Extra] ih by (simp add: tree_edge_def)
    next
      case (Other k)
      have "Q c \<and> c < i" if "c \<in> set (kind_children k)" for c using that ih unfolding Other(5) by auto
      then show ?thesis by (rule other [OF n Other])
    qed
  qed
qed

lemma extras_fuel_enough:
  assumes "store_ok P KV KS st" "valid st i"
  shows "\<forall>m>i. \<exists>b. evaluate_extras_fuel st m extras i = Some b \<and> (\<forall>e. with_extras extras e \<longrightarrow> denotes P st e i True \<longrightarrow> b)"
  using assms
proof (induction rule: tree_induct)
  case (Terminal i)
  have "evaluate_extras_fuel st m extras i = Some (i = NODE_TRUE)" if "m > i" for m
    using extras_fuel_terminal(1) [OF Terminal] that by (cases m) (auto simp del: evaluate_extras_fuel.simps)
  then show ?case using Terminal by (auto simp: terminal_iff simp del: evaluate_extras_fuel.simps)
next
  case (Extra i n name hi lo)
  let ?c = "tree_edge (node_negate hi i) (node_negate lo i) (List.member extras name)"
  have "\<exists>b. evaluate_extras_fuel st m extras i = Some b \<and> (\<forall>e. with_extras extras e \<longrightarrow> denotes P st e i True \<longrightarrow> b)" if mi: "m > i" for m
  proof -
    obtain m' where m: "m = Suc m'" "?c < m'" using mi Extra(5) [of "List.member extras name"] by (cases m) auto
    have "evaluate_extras_fuel st m extras i = evaluate_extras_fuel st m' extras ?c" by (simp add: m(1) Extra(4))
    moreover obtain b where "evaluate_extras_fuel st m' extras ?c = Some b"
      "\<forall>e. with_extras extras e \<longrightarrow> denotes P st e ?c True \<longrightarrow> b"
      using Extra(5) [of "List.member extras name", THEN conjunct1] m(2) by blast
    ultimately show ?thesis using denotes_extra [OF Extra(1-3), of extras] by auto
  qed
  then show ?case by blast
next
  case (Other i n k)
  have "\<exists>b. evaluate_extras_fuel st m extras i = Some b \<and> (\<forall>e. with_extras extras e \<longrightarrow> denotes P st e i True \<longrightarrow> b)" if mi: "m > i" for m
  proof -
    obtain m' where m: "m = Suc m'" "i \<le> m'" using mi by (cases m) auto
    have ih: "\<exists>b. evaluate_extras_fuel st m' extras c = Some b \<and> (\<forall>e. with_extras extras e \<longrightarrow> denotes P st e c True \<longrightarrow> b)"
      if "c \<in> set (kind_children k)" for c
      using Other(7) [OF that] m(2) by simp
    have "evaluate_extras_fuel st m extras i = any_opt (evaluate_extras_fuel st m' extras) (kind_children k)"
      using Other(2-5) by (cases k) (auto simp: m)
    also have "\<dots> = Some (\<exists>c\<in>set (kind_children k). evaluate_extras_fuel st m' extras c = Some True)"
      using ih by (intro any_opt_total) blast
    finally have r: "evaluate_extras_fuel st m extras i = Some (\<exists>c\<in>set (kind_children k). evaluate_extras_fuel st m' extras c = Some True)" .
    have "\<exists>c\<in>set (kind_children k). evaluate_extras_fuel st m' extras c = Some True" if e: "with_extras extras e" "denotes P st e i True" for e
    proof -
      obtain c where c: "c \<in> set (kind_children k)" "denotes P st e c True"
        using denotes_child [OF Other(1) e(2)] Other(6) by blast
      obtain b where "evaluate_extras_fuel st m' extras c = Some b" "b" using ih [OF c(1)] e(1) c(2) by blast
      then show ?thesis using c(1) by auto
    qed
    then show ?thesis unfolding r by blast
  qed
  then show ?case by blast
qed

lemma only_extras_fuel_enough:
  assumes "store_ok P KV KS st" "valid st i"
  shows "\<forall>m>i. \<exists>b. evaluate_only_extras_fuel st m extras i = Some b \<and> (\<forall>e. with_extras extras e \<longrightarrow> denotes P st e i False \<longrightarrow> \<not> b)"
  using assms
proof (induction rule: tree_induct)
  case (Terminal i)
  have "evaluate_only_extras_fuel st m extras i = Some (i = NODE_TRUE)" if "m > i" for m
    using extras_fuel_terminal(2) [OF Terminal] that by (cases m) (auto simp del: evaluate_only_extras_fuel.simps)
  then show ?case using Terminal by (auto simp: terminal_iff simp del: evaluate_only_extras_fuel.simps)
next
  case (Extra i n name hi lo)
  let ?c = "tree_edge (node_negate hi i) (node_negate lo i) (List.member extras name)"
  have "\<exists>b. evaluate_only_extras_fuel st m extras i = Some b \<and> (\<forall>e. with_extras extras e \<longrightarrow> denotes P st e i False \<longrightarrow> \<not> b)" if mi: "m > i" for m
  proof -
    obtain m' where m: "m = Suc m'" "?c < m'" using mi Extra(5) [of "List.member extras name"] by (cases m) auto
    have "evaluate_only_extras_fuel st m extras i = evaluate_only_extras_fuel st m' extras ?c" by (simp add: m(1) Extra(4))
    moreover obtain b where "evaluate_only_extras_fuel st m' extras ?c = Some b"
      "\<forall>e. with_extras extras e \<longrightarrow> denotes P st e ?c False \<longrightarrow> \<not> b"
      using Extra(5) [of "List.member extras name", THEN conjunct1] m(2) by blast
    ultimately show ?thesis using denotes_extra [OF Extra(1-3), of extras] by auto
  qed
  then show ?case by blast
next
  case (Other i n k)
  have "\<exists>b. evaluate_only_extras_fuel st m extras i = Some b \<and> (\<forall>e. with_extras extras e \<longrightarrow> denotes P st e i False \<longrightarrow> \<not> b)" if mi: "m > i" for m
  proof -
    obtain m' where m: "m = Suc m'" "i \<le> m'" using mi by (cases m) auto
    have ih: "\<exists>b. evaluate_only_extras_fuel st m' extras c = Some b \<and> (\<forall>e. with_extras extras e \<longrightarrow> denotes P st e c False \<longrightarrow> \<not> b)"
      if "c \<in> set (kind_children k)" for c
      using Other(7) [OF that] m(2) by simp
    have "evaluate_only_extras_fuel st m extras i = all_opt (evaluate_only_extras_fuel st m' extras) (kind_children k)"
      using Other(2-5) by (cases k) (auto simp: m)
    also have "\<dots> = Some (\<forall>c\<in>set (kind_children k). evaluate_only_extras_fuel st m' extras c = Some True)"
      using ih by (intro all_opt_total) blast
    finally have r: "evaluate_only_extras_fuel st m extras i = Some (\<forall>c\<in>set (kind_children k). evaluate_only_extras_fuel st m' extras c = Some True)" .
    have "\<not> (\<forall>c\<in>set (kind_children k). evaluate_only_extras_fuel st m' extras c = Some True)" if e: "with_extras extras e" "denotes P st e i False" for e
    proof -
      obtain c where c: "c \<in> set (kind_children k)" "denotes P st e c False"
        using denotes_child [OF Other(1) e(2)] Other(6) by blast
      obtain b where "evaluate_only_extras_fuel st m' extras c = Some b" "\<not> b" using ih [OF c(1)] e(1) c(2) by blast
      then have "evaluate_only_extras_fuel st m' extras c \<noteq> Some True" by simp
      then show ?thesis using c(1) by blast
    qed
    then show ?thesis unfolding r by blast
  qed
  then show ?case by blast
qed

section \<open>What the answers mean\<close>

lemma evaluate_extras_bounds:
  assumes "store_ok P KV KS st" "valid st x"
  shows "\<exists>b. evaluate_extras st extras x = Some b \<and> (\<forall>e. with_extras extras e \<longrightarrow> denotes P st e x True \<longrightarrow> b)"
    "\<exists>b. evaluate_only_extras st extras x = Some b \<and> (\<forall>e. with_extras extras e \<longrightarrow> denotes P st e x False \<longrightarrow> \<not> b)"
  using extras_fuel_enough [OF assms, of extras] only_extras_fuel_enough [OF assms, of extras]
  unfolding evaluate_extras_def evaluate_only_extras_def by (meson lessI)+

text \<open>
  C36. Deciding a marker by the active extras alone is safe, and always returns. When \<open>evaluate_extras\<close> says no,
  no environment with these extras satisfies the marker, so a requirement that is dropped would never have
  been activated. When \<open>evaluate_only_extras\<close> says yes, every environment with these extras that decides the
  variables on the path satisfies it.
\<close>

theorem extras_evaluation_sound:
  assumes "store_ok P KV KS st" "valid st x"
  shows "\<exists>possible certain. evaluate_extras st extras x = Some possible \<and> evaluate_only_extras st extras x = Some certain \<and>
    (\<forall>env. (evaluate P st env extras x = Some True \<longrightarrow> possible) \<and>
      (certain \<longrightarrow> decided P st (env, ExtrasEnv extras) x \<longrightarrow> evaluate P st env extras x = Some True))"
proof -
  obtain p c where p: "evaluate_extras st extras x = Some p" "\<forall>e. with_extras extras e \<longrightarrow> denotes P st e x True \<longrightarrow> p"
    and c: "evaluate_only_extras st extras x = Some c" "\<forall>e. with_extras extras e \<longrightarrow> denotes P st e x False \<longrightarrow> \<not> c"
    using evaluate_extras_bounds [OF assms] by blast
  have w: "with_extras extras (env, ExtrasEnv extras)" for env by (simp add: with_extras_def)
  have t: "evaluate P st env extras x = Some True \<longleftrightarrow> denotes P st (env, ExtrasEnv extras) x True" for env
    using evaluation_true [OF assms, of "(env, ExtrasEnv extras)"] by (simp add: evaluate_def)
  have d: "denotes P st (env, ExtrasEnv extras) x True" if "c" "decided P st (env, ExtrasEnv extras) x" for env
    using that c(2) w [of env] unfolding decided_def ex_bool_eq by blast
  show ?thesis using p c(1) w t d by blast
qed

theorem extras_evaluation_sound_witness:
  "evaluate_extras example_interner [''b''] 2 = Some False \<and>
   evaluate segment_deps example_interner (fst example_env) [''b''] 2 \<noteq> Some True \<and>
   evaluate_only_extras example_interner [''a''] 2 = Some True \<and>
   evaluate segment_deps example_interner (fst example_env) [''a''] 2 = Some True"
proof -
  note sound = extras_evaluation_sound [OF interner_okD(1) [OF example_interner_ok] example_valid(1)]
  have r: "evaluate_extras example_interner [''b''] 2 = Some False" "evaluate_only_extras example_interner [''a''] 2 = Some True"
    by code_simp+
  have e: "(fst example_env, ExtrasEnv [''a'']) = example_env" by (simp add: example_env_def)
  show ?thesis
    using sound [of "[''b'']"] sound [of "[''a'']"] r example_decided(1) e by auto
qed

end
