(* ===== verification/OnceMap.thy ===== *)
theory OnceMap
  imports Prelude "HOL-Library.Monad_Syntax"
begin

text \<open>
  The once-map of \<open>uv-once-map\<close>: tasks register jobs, wait for the results of jobs that other tasks run, and
  read finished results. Every access to the concurrent map, to a notification and to a mutex is one atomic
  step of a task; the tasks interleave in any order. The concurrent map (crate \<open>papaya\<close>) and the notification
  (\<open>tokio::sync::Notify\<close>) are parameters with the laws \<open>once_laws\<close>.

  The theory shows that at most one task gets to run the job of a key, that nobody panics, that the values
  received are the results of the jobs, and that no wakeup is lost: every run ends with all tasks finished
  and every waiter holding its value.
\<close>

section \<open>The map\<close>

text \<open>\<open>Value\<close>, with the addresses of the \<open>Arc<Notify>\<close> and of the \<open>Mutex<Option<V>>\<close>.\<close>

datatype entry_value = Waiting nat | Filled nat

record ('m, 'n, 'w, 'k) once_deps =
  hm_new :: 'm
  hm_get :: "'m \<Rightarrow> 'k \<Rightarrow> entry_value option"
  hm_insert :: "'m \<Rightarrow> 'k \<Rightarrow> entry_value \<Rightarrow> 'm"
  hm_remove :: "'m \<Rightarrow> 'k \<Rightarrow> 'm"
  notify_new :: 'n
  notify_notified :: "'n \<Rightarrow> 'w \<times> 'n"
  notify_waiters :: "'n \<Rightarrow> 'n"
  notify_ready :: "'n \<Rightarrow> 'w \<Rightarrow> bool"

text \<open>The map with the heap of notifications and of mutexes; an address is an index.\<close>

record ('m, 'n, 'v) once_map =
  items :: 'm
  notifies :: "'n list"
  slots :: "'v option list"

type_synonym ('m, 'n, 'w, 'k) deps = "('m, 'n, 'w, 'k) once_deps"

definition once_default :: "('m, 'n, 'w, 'k) deps \<Rightarrow> ('m, 'n, 'v) once_map" where
  "once_default D = \<lparr>items = hm_new D, notifies = [], slots = []\<rparr>"

text \<open>\<open>Value::filled\<close> stored under a key.\<close>

definition insert_filled ::
  "('m, 'n, 'w, 'k) deps \<Rightarrow> 'k \<Rightarrow> 'v \<Rightarrow> ('m, 'n, 'v) once_map \<Rightarrow> ('m, 'n, 'v) once_map" where
  "insert_filled D k v m =
     m\<lparr>items := hm_insert D (items m) k (Filled (length (slots m))), slots := slots m @ [Some v]\<rparr>"

definition from_iter :: "('m, 'n, 'w, 'k) deps \<Rightarrow> ('k \<times> 'v) list \<Rightarrow> ('m, 'n, 'v) once_map" where
  "from_iter D kvs = foldl (\<lambda>m (k, v). insert_filled D k v m) (once_default D) kvs"

text \<open>\<open>try_insert_with\<close> of a fresh \<open>Value::Waiting\<close>: the entry already there, or \<open>None\<close> and the new map.\<close>

definition try_insert_waiting ::
  "('m, 'n, 'w, 'k) deps \<Rightarrow> 'k \<Rightarrow> ('m, 'n, 'v) once_map \<Rightarrow> entry_value option \<times> ('m, 'n, 'v) once_map" where
  "try_insert_waiting D k m =
     (case hm_get D (items m) k of
        Some x \<Rightarrow> (Some x, m)
      | None \<Rightarrow> (None, m\<lparr>items := hm_insert D (items m) k (Waiting (length (notifies m))),
                        notifies := notifies m @ [notify_new D]\<rparr>))"

definition register ::
  "('m, 'n, 'w, 'k) deps \<Rightarrow> 'k \<Rightarrow> ('m, 'n, 'v) once_map \<Rightarrow> bool \<times> ('m, 'n, 'v) once_map" where
  "register D k m = (case try_insert_waiting D k m of (x, m') \<Rightarrow> (x = None, m'))"

definition contains_key :: "('m, 'n, 'w, 'k) deps \<Rightarrow> 'k \<Rightarrow> ('m, 'n, 'v) once_map \<Rightarrow> bool" where
  "contains_key D k m \<longleftrightarrow> hm_get D (items m) k \<noteq> None"

text \<open>The insertion of \<open>done\<close>; the notification to call, if an entry was waiting.\<close>

definition done_insert ::
  "('m, 'n, 'w, 'k) deps \<Rightarrow> 'k \<Rightarrow> 'v \<Rightarrow> ('m, 'n, 'v) once_map \<Rightarrow> nat option \<times> ('m, 'n, 'v) once_map" where
  "done_insert D k v m =
     ((case hm_get D (items m) k of Some (Waiting n) \<Rightarrow> Some n | _ \<Rightarrow> None), insert_filled D k v m)"

section \<open>Tasks\<close>

text \<open>
  Where a task is. The first group are calls about to start, the second the points inside \<open>wait_pending\<close>
  and inside reads of a mutex, and the third the owner of a job and the calls of \<open>done\<close> and \<open>remove\<close>.
  A wait remembers whether \<open>register_or_wait\<close> or \<open>RegisteredEntry::wait\<close> called it.
  \<open>Received\<close> holds the value the task got; \<open>Finished\<close> is a call that returned without a value.
\<close>

datatype caller = FromRegister | FromEntry

datatype ('k, 'v, 'w) task =
    RegisterOrWait 'k | Register 'k | RegisterEntry 'k | GetRegistered 'k | Get 'k
  | WaitRegistered 'k | ReadWait caller 'k nat | ReadGet 'k nat
  | WaitPending caller 'k nat | Recheck caller 'k nat 'w | ReadRecheck caller 'k nat 'w nat
  | Await caller 'k nat 'w | Lookup caller 'k
  | Job 'k | Done 'k 'v | NotifyWaiters nat | Remove 'k | Take 'k nat
  | Received 'k 'v | Finished | Panicked

text \<open>\<open>Value::get\<close> and \<open>Value::take\<close> on the mutex at an address.\<close>

definition slot_get :: "('m, 'n, 'v) once_map \<Rightarrow> nat \<Rightarrow> 'v option" where
  "slot_get m s = (if s < length (slots m) then slots m ! s else None)"

definition slot_take :: "('m, 'n, 'v) once_map \<Rightarrow> nat \<Rightarrow> 'v option \<times> ('m, 'n, 'v) once_map" where
  "slot_take m s = (slot_get m s, m\<lparr>slots := (slots m)[s := None]\<rparr>)"

definition received :: "'k \<Rightarrow> 'v option \<Rightarrow> ('k, 'v, 'w) task \<Rightarrow> ('k, 'v, 'w) task" where
  "received k r otherwise = (case r of Some v \<Rightarrow> Received k v | None \<Rightarrow> otherwise)"

text \<open>The calls about to start.\<close>

definition start_step ::
  "('m, 'n, 'w, 'k) deps \<Rightarrow> ('k, 'v, 'w) task \<Rightarrow> ('m, 'n, 'v) once_map \<Rightarrow>
   (('k, 'v, 'w) task \<times> ('m, 'n, 'v) once_map) option" where
  "start_step D t m =
     (case t of
        RegisterOrWait k \<Rightarrow>
          (case try_insert_waiting D k m of
            (None, m') \<Rightarrow> Some (Job k, m')
          | (Some (Filled s), m') \<Rightarrow> Some (ReadWait FromRegister k s, m')
          | (Some (Waiting n), m') \<Rightarrow> Some (WaitPending FromRegister k n, m'))
      | Register k \<Rightarrow>
          (case register D k m of (b, m') \<Rightarrow> Some (if b then Job k else Finished, m'))
      | RegisterEntry k \<Rightarrow>
          (case register D k m of (b, m') \<Rightarrow> Some (if b then Job k else WaitRegistered k, m'))
      | GetRegistered k \<Rightarrow>
          Some (if contains_key D k m then WaitRegistered k else Finished, m)
      | Get k \<Rightarrow>
          (case hm_get D (items m) k of
            Some (Filled s) \<Rightarrow> Some (ReadGet k s, m)
          | _ \<Rightarrow> Some (Finished, m))
      | WaitRegistered k \<Rightarrow>
          (case hm_get D (items m) k of
            None \<Rightarrow> Some (Panicked, m)
          | Some (Filled s) \<Rightarrow> Some (ReadWait FromEntry k s, m)
          | Some (Waiting n) \<Rightarrow> Some (WaitPending FromEntry k n, m))
      | _ \<Rightarrow>
          None)"

text \<open>\<open>wait_pending\<close> and the reads.\<close>

definition wait_step ::
  "('m, 'n, 'w, 'k) deps \<Rightarrow> ('k, 'v, 'w) task \<Rightarrow> ('m, 'n, 'v) once_map \<Rightarrow>
   (('k, 'v, 'w) task \<times> ('m, 'n, 'v) once_map) option" where
  "wait_step D t m =
     (case t of
        WaitPending c k n \<Rightarrow>
          (let (w, notify) = notify_notified D (notifies m ! n) in
          Some (Recheck c k n w, m\<lparr>notifies := (notifies m)[n := notify]\<rparr>))
      | Recheck c k n w \<Rightarrow>
          (case hm_get D (items m) k of
            None \<Rightarrow> Some (Panicked, m)
          | Some (Filled s) \<Rightarrow> Some (ReadRecheck c k n w s, m)
          | Some (Waiting _) \<Rightarrow> Some (Await c k n w, m))
      | ReadRecheck c k n w s \<Rightarrow>
          Some (received k (slot_get m s) (Await c k n w), m)
      | Await c k n w \<Rightarrow>
          (if notify_ready D (notifies m ! n) w then Some (Lookup c k, m) else None)
      | Lookup c k \<Rightarrow>
          (case hm_get D (items m) k of
            Some (Filled s) \<Rightarrow> Some (ReadWait c k s, m)
          | _ \<Rightarrow> Some (Panicked, m))
      | ReadWait c k s \<Rightarrow>
          Some (received k (slot_get m s) (case c of FromRegister \<Rightarrow> Job k | FromEntry \<Rightarrow> Panicked), m)
      | ReadGet k s \<Rightarrow>
          Some (received k (slot_get m s) Finished, m)
      | _ \<Rightarrow>
          None)"

text \<open>The owner of a job runs it and calls \<open>done\<close>; \<open>remove\<close>.\<close>

definition owner_step ::
  "('m, 'n, 'w, 'k) deps \<Rightarrow> ('k \<Rightarrow> 'v) \<Rightarrow> ('k, 'v, 'w) task \<Rightarrow> ('m, 'n, 'v) once_map \<Rightarrow>
   (('k, 'v, 'w) task \<times> ('m, 'n, 'v) once_map) option" where
  "owner_step D job t m =
     (case t of
        Job k \<Rightarrow>
          Some (Done k (job k), m)
      | Done k v \<Rightarrow>
          (case done_insert D k v m of
            (Some n, m') \<Rightarrow> Some (NotifyWaiters n, m')
          | (None, m') \<Rightarrow> Some (Finished, m'))
      | NotifyWaiters n \<Rightarrow>
          Some (Finished, m\<lparr>notifies := (notifies m)[n := notify_waiters D (notifies m ! n)]\<rparr>)
      | Remove k \<Rightarrow>
          (case hm_get D (items m) k of
            Some (Filled s) \<Rightarrow> Some (Take k s, m\<lparr>items := hm_remove D (items m) k\<rparr>)
          | _ \<Rightarrow> Some (Finished, m\<lparr>items := hm_remove D (items m) k\<rparr>))
      | Take k s \<Rightarrow>
          (case slot_take m s of (r, m') \<Rightarrow> Some (received k r Finished, m'))
      | _ \<Rightarrow>
          None)"

definition task_step ::
  "('m, 'n, 'w, 'k) deps \<Rightarrow> ('k \<Rightarrow> 'v) \<Rightarrow> ('k, 'v, 'w) task \<Rightarrow> ('m, 'n, 'v) once_map \<Rightarrow>
   (('k, 'v, 'w) task \<times> ('m, 'n, 'v) once_map) option" where
  "task_step D job t m =
     (case start_step D t m of
        Some r \<Rightarrow> Some r
      | None \<Rightarrow> (case wait_step D t m of Some r \<Rightarrow> Some r | None \<Rightarrow> owner_step D job t m))"

type_synonym ('m, 'n, 'w, 'k, 'v) system = "('k, 'v, 'w) task list \<times> ('m, 'n, 'v) once_map"

inductive once_step ::
  "('m, 'n, 'w, 'k) deps \<Rightarrow> ('k \<Rightarrow> 'v) \<Rightarrow> ('m, 'n, 'w, 'k, 'v) system \<Rightarrow> ('m, 'n, 'w, 'k, 'v) system \<Rightarrow> bool"
  for D job where
  once_step: "i < length ts \<Longrightarrow> task_step D job (ts ! i) m = Some (t, m') \<Longrightarrow>
    once_step D job (ts, m) (ts[i := t], m')"

section \<open>The laws of the parameters\<close>

text \<open>
  The map is a map. A notification counts the calls of \<open>notify_waiters\<close> (\<open>nc\<close>), a waiter remembers the count at
  its creation (\<open>wc\<close>), and it is ready once there was a later call, whether or not it was polled before.
\<close>

definition once_laws :: "('m, 'n, 'w, 'k) deps \<Rightarrow> ('n \<Rightarrow> nat) \<Rightarrow> ('w \<Rightarrow> nat) \<Rightarrow> bool" where
  "once_laws D nc wc \<longleftrightarrow>
     (\<forall>k. hm_get D (hm_new D) k = None) \<and>
     (\<forall>h k x k'. hm_get D (hm_insert D h k x) k' = (if k' = k then Some x else hm_get D h k')) \<and>
     (\<forall>h k k'. hm_get D (hm_remove D h k) k' = (if k' = k then None else hm_get D h k')) \<and>
     nc (notify_new D) = 0 \<and> (\<forall>n. nc (notify_waiters D n) = Suc (nc n)) \<and>
     (\<forall>n. wc (fst (notify_notified D n)) = nc n \<and> nc (snd (notify_notified D n)) = nc n) \<and>
     (\<forall>n w. notify_ready D n w \<longleftrightarrow> wc w < nc n)"

lemma once_lawsD:
  assumes "once_laws D nc wc"
  shows "hm_get D (hm_new D) k = None"
    "hm_get D (hm_insert D h k x) k' = (if k' = k then Some x else hm_get D h k')"
    "hm_get D (hm_remove D h k) k' = (if k' = k then None else hm_get D h k')"
    "nc (notify_new D) = 0" "nc (notify_waiters D n) = Suc (nc n)"
    "wc (fst (notify_notified D n)) = nc n" "nc (snd (notify_notified D n)) = nc n"
    "notify_ready D n w \<longleftrightarrow> wc w < nc n"
  using assms by (simp_all add: once_laws_def)

section \<open>The invariant\<close>

abbreviation entry :: "('m, 'n, 'w, 'k) deps \<Rightarrow> ('m, 'n, 'v) once_map \<Rightarrow> 'k \<Rightarrow> entry_value option" where
  "entry D m k \<equiv> hm_get D (items m) k"

definition slot_holds :: "('m, 'n, 'v) once_map \<Rightarrow> nat \<Rightarrow> 'v \<Rightarrow> bool" where
  "slot_holds m s v \<longleftrightarrow> s < length (slots m) \<and> slots m ! s = Some v"

definition is_filled :: "('m, 'n, 'w, 'k) deps \<Rightarrow> ('m, 'n, 'v) once_map \<Rightarrow> 'k \<Rightarrow> bool" where
  "is_filled D m k \<longleftrightarrow> (\<exists>s. entry D m k = Some (Filled s))"

definition pending :: "('m, 'n, 'w, 'k) deps \<Rightarrow> ('m, 'n, 'v) once_map \<Rightarrow> 'k \<Rightarrow> nat \<Rightarrow> bool" where
  "pending D m k n \<longleftrightarrow> n < length (notifies m) \<and> (entry D m k = Some (Waiting n) \<or> is_filled D m k)"

text \<open>
  What holds at each point of a task. A task that awaits a notification will be woken: the entry is still
  waiting, or the notification came, or a task is about to send it.
\<close>

primrec task_ok ::
  "('m, 'n, 'w, 'k) deps \<Rightarrow> ('n \<Rightarrow> nat) \<Rightarrow> ('w \<Rightarrow> nat) \<Rightarrow> ('k \<Rightarrow> 'v) \<Rightarrow> ('k, 'v, 'w) task list \<Rightarrow>
   ('m, 'n, 'v) once_map \<Rightarrow> ('k, 'v, 'w) task \<Rightarrow> bool" where
  "task_ok D nc wc job ts m (WaitPending c k n) \<longleftrightarrow> pending D m k n"
| "task_ok D nc wc job ts m (Recheck c k n w) \<longleftrightarrow> pending D m k n \<and> wc w \<le> nc (notifies m ! n)"
| "task_ok D nc wc job ts m (ReadRecheck c k n w s) \<longleftrightarrow> pending D m k n \<and> wc w \<le> nc (notifies m ! n) \<and> slot_holds m s (job k)"
| "task_ok D nc wc job ts m (Await c k n w) \<longleftrightarrow> pending D m k n \<and> wc w \<le> nc (notifies m ! n) \<and>
     (entry D m k = Some (Waiting n) \<or> wc w < nc (notifies m ! n) \<or> NotifyWaiters n \<in> set ts)"
| "task_ok D nc wc job ts m (Lookup c k) \<longleftrightarrow> is_filled D m k"
| "task_ok D nc wc job ts m (ReadWait c k s) \<longleftrightarrow> slot_holds m s (job k)"
| "task_ok D nc wc job ts m (ReadGet k s) \<longleftrightarrow> slot_holds m s (job k)"
| "task_ok D nc wc job ts m (WaitRegistered k) \<longleftrightarrow> entry D m k \<noteq> None"
| "task_ok D nc wc job ts m (Job k) \<longleftrightarrow> entry D m k \<noteq> None"
| "task_ok D nc wc job ts m (Done k v) \<longleftrightarrow> v = job k"
| "task_ok D nc wc job ts m (NotifyWaiters n) \<longleftrightarrow> n < length (notifies m)"
| "task_ok D nc wc job ts m (Received k v) \<longleftrightarrow> v = job k"
| "task_ok D nc wc job ts m (Remove k) \<longleftrightarrow> False"
| "task_ok D nc wc job ts m (Take k s) \<longleftrightarrow> False"
| "task_ok D nc wc job ts m Panicked \<longleftrightarrow> False"
| "task_ok D nc wc job ts m (RegisterOrWait k) \<longleftrightarrow> True"
| "task_ok D nc wc job ts m (Register k) \<longleftrightarrow> True"
| "task_ok D nc wc job ts m (RegisterEntry k) \<longleftrightarrow> True"
| "task_ok D nc wc job ts m (GetRegistered k) \<longleftrightarrow> True"
| "task_ok D nc wc job ts m (Get k) \<longleftrightarrow> True"
| "task_ok D nc wc job ts m Finished \<longleftrightarrow> True"

definition has_producer :: "('k, 'v, 'w) task list \<Rightarrow> 'k \<Rightarrow> bool" where
  "has_producer ts k \<longleftrightarrow> Job k \<in> set ts \<or> (\<exists>v. Done k v \<in> set ts)"

primrec entry_ok ::
  "('m, 'n, 'w, 'k) deps \<Rightarrow> ('n \<Rightarrow> nat) \<Rightarrow> ('k \<Rightarrow> 'v) \<Rightarrow> ('k, 'v, 'w) task list \<Rightarrow> ('m, 'n, 'v) once_map \<Rightarrow>
   'k \<Rightarrow> entry_value \<Rightarrow> bool" where
  "entry_ok D nc job ts m k (Waiting n) \<longleftrightarrow>
     n < length (notifies m) \<and> nc (notifies m ! n) = 0 \<and> NotifyWaiters n \<notin> set ts \<and> has_producer ts k \<and>
     (\<forall>k'. k' \<noteq> k \<longrightarrow> entry D m k' \<noteq> Some (Waiting n))"
| "entry_ok D nc job ts m k (Filled s) \<longleftrightarrow> slot_holds m s (job k)"

definition single_owner :: "('k, 'v, 'w) task list \<Rightarrow> bool" where
  "single_owner ts \<longleftrightarrow> (\<forall>k i j. i < length ts \<longrightarrow> j < length ts \<longrightarrow> ts ! i = Job k \<longrightarrow> ts ! j = Job k \<longrightarrow> i = j)"

definition once_inv ::
  "('m, 'n, 'w, 'k) deps \<Rightarrow> ('n \<Rightarrow> nat) \<Rightarrow> ('w \<Rightarrow> nat) \<Rightarrow> ('k \<Rightarrow> 'v) \<Rightarrow> ('m, 'n, 'w, 'k, 'v) system \<Rightarrow> bool" where
  "once_inv D nc wc job s \<longleftrightarrow>
     (\<forall>t\<in>set (fst s). task_ok D nc wc job (fst s) (snd s) t) \<and>
     (\<forall>k x. entry D (snd s) k = Some x \<longrightarrow> entry_ok D nc job (fst s) (snd s) k x) \<and>
     single_owner (fst s)"

lemma once_invD:
  assumes "once_inv D nc wc job (ts, m)"
  shows "i < length ts \<Longrightarrow> task_ok D nc wc job ts m (ts ! i)"
    "entry D m k = Some x \<Longrightarrow> entry_ok D nc job ts m k x" "single_owner ts"
  using assms by (simp_all add: once_inv_def)

text \<open>How the rest of the system may change during a step of one task.\<close>

definition evolves ::
  "('m, 'n, 'w, 'k) deps \<Rightarrow> ('n \<Rightarrow> nat) \<Rightarrow> ('k, 'v, 'w) task list \<Rightarrow> ('m, 'n, 'v) once_map \<Rightarrow>
   ('k, 'v, 'w) task list \<Rightarrow> ('m, 'n, 'v) once_map \<Rightarrow> bool" where
  "evolves D nc ts m ts' m' \<longleftrightarrow>
     (\<forall>k. is_filled D m k \<longrightarrow> is_filled D m' k) \<and>
     (\<forall>k n. entry D m k = Some (Waiting n) \<longrightarrow>
        entry D m' k = Some (Waiting n) \<or> is_filled D m' k \<and> NotifyWaiters n \<in> set ts') \<and>
     length (notifies m) \<le> length (notifies m') \<and>
     (\<forall>n < length (notifies m). nc (notifies m ! n) \<le> nc (notifies m' ! n) \<and>
        (NotifyWaiters n \<in> set ts \<longrightarrow> NotifyWaiters n \<in> set ts' \<or> nc (notifies m ! n) < nc (notifies m' ! n))) \<and>
     (\<forall>s v. slot_holds m s v \<longrightarrow> slot_holds m' s v)"

lemma evolves_pending: "evolves D nc ts m ts' m' \<Longrightarrow> pending D m k n \<Longrightarrow> pending D m' k n"
  unfolding evolves_def pending_def by (meson order_less_le_trans)

lemma evolves_entry: "evolves D nc ts m ts' m' \<Longrightarrow> entry D m k \<noteq> None \<Longrightarrow> entry D m' k \<noteq> None"
proof -
  assume e: "evolves D nc ts m ts' m'" and "entry D m k \<noteq> None"
  then obtain x where x: "entry D m k = Some x" by blast
  show ?thesis
  proof (cases x)
    case (Waiting n)
    then have "entry D m' k = Some (Waiting n) \<or> is_filled D m' k" using e x unfolding evolves_def by blast
    then show ?thesis by (auto simp: is_filled_def)
  next
    case (Filled s)
    then have "is_filled D m' k" using e x unfolding evolves_def is_filled_def by blast
    then show ?thesis by (auto simp: is_filled_def)
  qed
qed

lemma evolves_task:
  assumes e: "evolves D nc ts m ts' m'" and t: "task_ok D nc wc job ts m t"
  shows "task_ok D nc wc job ts' m' t"
proof -
  have slot: "slot_holds m s v \<Longrightarrow> slot_holds m' s v" for s v using e by (simp add: evolves_def)
  have calls: "pending D m k n \<Longrightarrow> c \<le> nc (notifies m ! n) \<Longrightarrow> c \<le> nc (notifies m' ! n)" for k n c
    using e unfolding evolves_def pending_def by (meson order_trans)
  show ?thesis
  proof (cases t)
    case (Await c k n w)
    have n: "n < length (notifies m)" "pending D m k n" using t Await by (simp_all add: pending_def)
    have c: "wc w \<le> nc (notifies m ! n)" using t Await by simp
    have c': "nc (notifies m ! n) \<le> nc (notifies m' ! n)" using e n(1) by (simp add: evolves_def)
    have "entry D m' k = Some (Waiting n) \<or> wc w < nc (notifies m' ! n) \<or> NotifyWaiters n \<in> set ts'"
    proof -
      consider "entry D m k = Some (Waiting n)" | "wc w < nc (notifies m ! n)" | "NotifyWaiters n \<in> set ts"
        using t Await by auto
      then show ?thesis
      proof cases
        case 1
        then show ?thesis using e unfolding evolves_def by blast
      next
        case 2
        then show ?thesis using c' by simp
      next
        case 3
        then have "NotifyWaiters n \<in> set ts' \<or> nc (notifies m ! n) < nc (notifies m' ! n)"
          using e n(1) unfolding evolves_def by blast
        then show ?thesis using c by auto
      qed
    qed
    then show ?thesis using Await evolves_pending [OF e n(2)] calls [OF n(2) c] by simp
  next
    case (Lookup c k)
    then show ?thesis using e t by (auto simp: evolves_def)
  next
    case (NotifyWaiters n)
    then show ?thesis using e t by (auto simp: evolves_def)
  qed (use t slot calls evolves_pending [OF e] evolves_entry [OF e] in \<open>auto\<close>)
qed

lemma inv_step:
  assumes inv: "once_inv D nc wc job (ts, m)" and i: "i < length ts" and e: "evolves D nc ts m (ts[i := t]) m'"
    and t: "task_ok D nc wc job (ts[i := t]) m' t"
    and x: "\<And>k x. entry D m' k = Some x \<Longrightarrow> entry_ok D nc job (ts[i := t]) m' k x"
    and own: "\<And>k. t = Job k \<Longrightarrow> Job k \<notin> set ts"
  shows "once_inv D nc wc job (ts[i := t], m')"
proof -
  have tasks: "task_ok D nc wc job (ts[i := t]) m' u" if "u \<in> set (ts[i := t])" for u
  proof (cases "u = t")
    case False
    then have "u \<in> set ts" using that set_update_subset_insert [of ts i t] by blast
    then show ?thesis using evolves_task [OF e] inv by (simp add: once_inv_def)
  qed (use t in simp)
  have "single_owner (ts[i := t])"
    unfolding single_owner_def
  proof (intro allI impI)
    fix k a b
    assume ab: "a < length (ts[i := t])" "b < length (ts[i := t])" "ts[i := t] ! a = Job k" "ts[i := t] ! b = Job k"
    show "a = b"
    proof (cases "t = Job k")
      case True
      have "c = i" if "c < length ts" "ts[i := t] ! c = Job k" for c
        using that own [OF True] nth_mem [OF that(1)] by (metis nth_list_update_neq)
      then show ?thesis using ab by (metis length_list_update)
    next
      case False
      then show ?thesis
        using ab once_invD(3) [OF inv] i unfolding single_owner_def
        by (metis length_list_update nth_list_update_eq nth_list_update_neq)
    qed
  qed
  then show ?thesis using tasks x by (simp add: once_inv_def)
qed

lemma set_update_other: "i < length ts \<Longrightarrow> u \<noteq> ts ! i \<Longrightarrow> u \<in> set ts \<Longrightarrow> u \<in> set (ts[i := t])"
  by (metis in_set_conv_nth length_list_update nth_list_update_neq)

lemma set_update_new: "i < length ts \<Longrightarrow> t \<in> set (ts[i := t])"
  by (simp add: set_update_memI)

text \<open>A task that is no producer and sends no notification.\<close>

definition bystander :: "('k, 'v, 'w) task \<Rightarrow> bool" where
  "bystander t \<longleftrightarrow> (case t of Job k \<Rightarrow> False | Done k v \<Rightarrow> False | NotifyWaiters n \<Rightarrow> False | _ \<Rightarrow> True)"

lemma bystander_simps [simp]:
  "\<not> bystander (Job k)" "\<not> bystander (Done k v)" "\<not> bystander (NotifyWaiters n)"
  by (simp_all add: bystander_def)

lemma bystander_kept:
  assumes "i < length ts" "bystander (ts ! i)"
  shows "Job k \<in> set ts \<Longrightarrow> Job k \<in> set (ts[i := t])" "Done k v \<in> set ts \<Longrightarrow> Done k v \<in> set (ts[i := t])"
    "NotifyWaiters n \<in> set ts \<Longrightarrow> NotifyWaiters n \<in> set (ts[i := t])" "has_producer ts k \<Longrightarrow> has_producer (ts[i := t]) k"
proof -
  have "Job k \<noteq> ts ! i" "Done k v \<noteq> ts ! i" "NotifyWaiters n \<noteq> ts ! i" for k v n
    using assms(2) by (metis bystander_simps)+
  then show "Job k \<in> set ts \<Longrightarrow> Job k \<in> set (ts[i := t])" "Done k v \<in> set ts \<Longrightarrow> Done k v \<in> set (ts[i := t])"
    "NotifyWaiters n \<in> set ts \<Longrightarrow> NotifyWaiters n \<in> set (ts[i := t])" "has_producer ts k \<Longrightarrow> has_producer (ts[i := t]) k"
    using set_update_other [OF assms(1)] unfolding has_producer_def by metis+
qed

lemma entry_ok_quiet:
  assumes "entry_ok D nc job ts m k x" "\<And>n. t \<noteq> NotifyWaiters n" "\<And>k. has_producer ts k \<Longrightarrow> has_producer (ts[i := t]) k"
  shows "entry_ok D nc job (ts[i := t]) m k x"
  using assms set_update_subset_insert [of ts i t] by (cases x) auto

text \<open>A step that leaves the map alone.\<close>

lemma quiet_step:
  assumes inv: "once_inv D nc wc job (ts, m)" and i: "i < length ts" and b: "bystander (ts ! i)" "bystander t"
    and t: "task_ok D nc wc job (ts[i := t]) m t"
  shows "once_inv D nc wc job (ts[i := t], m)"
proof (rule inv_step [OF inv i _ t])
  show "evolves D nc ts m (ts[i := t]) m" using bystander_kept(3) [OF i b(1)] by (simp add: evolves_def)
  show "entry_ok D nc job (ts[i := t]) m k x" if "entry D m k = Some x" for k x
    using once_invD(2) [OF inv that] by (rule entry_ok_quiet) (use b bystander_kept(4) [OF i b(1)] in auto)
  show "Job k \<notin> set ts" if "t = Job k" for k using b(2) that by simp
qed

text \<open>Registering a new job.\<close>

lemma register_step:
  assumes laws: "once_laws D nc wc" and inv: "once_inv D nc wc job (ts, m)" and i: "i < length ts"
    and b: "bystander (ts ! i)" and new: "entry D m k = None"
  shows "once_inv D nc wc job (ts[i := Job k], snd (try_insert_waiting D k m))"
proof -
  note L = once_lawsD [OF laws]
  let ?m = "snd (try_insert_waiting D k m)" and ?n = "length (notifies m)"
  have m: "items ?m = hm_insert D (items m) k (Waiting ?n)" "notifies ?m = notifies m @ [notify_new D]" "slots ?m = slots m"
    using new by (simp_all add: try_insert_waiting_def)
  have notify: "n < length (notifies m) \<Longrightarrow> notifies ?m ! n = notifies m ! n" for n by (simp add: m nth_append)
  have slot: "slot_holds ?m s v = slot_holds m s v" for s v by (simp add: slot_holds_def m)
  have old: "entry D m k' = Some x \<Longrightarrow> entry D ?m k' = Some x" for k' x using new by (auto simp: m L)
  show ?thesis
  proof (rule inv_step [OF inv i])
    show "evolves D nc ts m (ts[i := Job k]) ?m"
      using bystander_kept(3) [OF i b] old notify slot by (auto simp: evolves_def is_filled_def m)
    show "task_ok D nc wc job (ts[i := Job k]) ?m (Job k)" by (simp add: m L)
    show "Job k' \<notin> set ts" if "Job k = Job k'" for k'
      using inv new that by (auto simp: once_inv_def)
    show "entry_ok D nc job (ts[i := Job k]) ?m k' x" if x: "entry D ?m k' = Some x" for k' x
    proof (cases "k' = k")
      case True
      have fresh: "entry D m k'' \<noteq> Some (Waiting ?n)" "NotifyWaiters ?n \<notin> set ts" for k''
        using once_invD(2) [OF inv, of k'' "Waiting ?n"] inv by (auto simp: once_inv_def)
      have "NotifyWaiters ?n \<notin> set (ts[i := Job k])"
        using fresh(2) set_update_subset_insert [of ts i "Job k"] by auto
      moreover have "has_producer (ts[i := Job k]) k" using set_update_new [OF i] by (auto simp: has_producer_def)
      moreover have "\<forall>k''. k'' \<noteq> k \<longrightarrow> entry D ?m k'' \<noteq> Some (Waiting ?n)" using fresh(1) by (simp add: m L)
      moreover have "?n < length (notifies ?m)" "nc (notifies ?m ! ?n) = 0" by (simp_all add: m L)
      moreover have "x = Waiting ?n" using x True by (simp add: m L)
      ultimately show ?thesis unfolding True by (simp only: entry_ok.simps) blast
    next
      case False
      then have x': "entry D m k' = Some x" using x by (simp add: m L)
      have "entry_ok D nc job (ts[i := Job k]) m k' x"
        using once_invD(2) [OF inv x'] by (rule entry_ok_quiet) (use bystander_kept(4) [OF i b] in auto)
      then show ?thesis using notify slot by (cases x) (auto simp: m L nth_append split: if_splits)
    qed
  qed
qed

text \<open>Creating a waiter.\<close>

lemma notified_step:
  assumes laws: "once_laws D nc wc" and inv: "once_inv D nc wc job (ts, m)" and i: "i < length ts"
    and ti: "ts ! i = WaitPending c k n" and w: "notify_notified D (notifies m ! n) = (w, notify)"
  shows "once_inv D nc wc job (ts[i := Recheck c k n w], m\<lparr>notifies := (notifies m)[n := notify]\<rparr>)"
proof -
  note L = once_lawsD(6,7) [OF laws, of "notifies m ! n", unfolded w fst_conv snd_conv]
  let ?m = "m\<lparr>notifies := (notifies m)[n := notify]\<rparr>" and ?t = "Recheck c k n w"
  have b: "bystander (ts ! i)" by (simp add: ti bystander_def)
  have p: "pending D m k n" using once_invD(1) [OF inv i] ti by simp
  have nc: "nc (notifies ?m ! n') = nc (notifies m ! n')" for n'
    using L(2) p by (cases "n' = n") (auto simp: pending_def)
  have slot: "slot_holds ?m s v = slot_holds m s v" for s v by (simp add: slot_holds_def)
  show ?thesis
  proof (rule inv_step [OF inv i])
    show "evolves D nc ts m (ts[i := ?t]) ?m"
      using bystander_kept(3) [OF i b] nc slot by (auto simp: evolves_def is_filled_def)
    show "task_ok D nc wc job (ts[i := ?t]) ?m ?t"
      using p nc [of n] L(1) by (simp add: pending_def is_filled_def)
    show "entry_ok D nc job (ts[i := ?t]) ?m k' x" if "entry D ?m k' = Some x" for k' x
    proof -
      have x: "entry D m k' = Some x" using that by simp
      have "entry_ok D nc job (ts[i := ?t]) m k' x"
        using once_invD(2) [OF inv x] by (rule entry_ok_quiet) (use bystander_kept(4) [OF i b] in auto)
      then show ?thesis using nc slot by (cases x) auto
    qed
  qed simp
qed

text \<open>Storing a result.\<close>

lemma done_step:
  assumes laws: "once_laws D nc wc" and inv: "once_inv D nc wc job (ts, m)" and i: "i < length ts"
    and ti: "ts ! i = Done k v" and d: "done_insert D k v m = (r, m')"
    and t: "t = (case r of Some n \<Rightarrow> NotifyWaiters n | None \<Rightarrow> Finished)"
  shows "once_inv D nc wc job (ts[i := t], m')"
proof -
  note L = once_lawsD [OF laws]
  have v: "v = job k" using once_invD(1) [OF inv i] ti by simp
  have m: "items m' = hm_insert D (items m) k (Filled (length (slots m)))" "notifies m' = notifies m"
    "slots m' = slots m @ [Some v]"
    and r: "r = Some n \<longleftrightarrow> entry D m k = Some (Waiting n)" for n
    using d by (auto simp: done_insert_def insert_filled_def split: option.splits entry_value.splits)
  have slot: "slot_holds m s u \<Longrightarrow> slot_holds m' s u" for s u by (auto simp: slot_holds_def m nth_append)
  have nw: "NotifyWaiters n \<in> set ts \<Longrightarrow> NotifyWaiters n \<in> set (ts[i := t])" for n
    using set_update_other [OF i, of "NotifyWaiters n"] ti by simp
  have prod: "has_producer ts k' \<Longrightarrow> k' \<noteq> k \<Longrightarrow> has_producer (ts[i := t]) k'" for k'
    using set_update_other [OF i, of "Job k'"] set_update_other [OF i, of "Done k' _"] ti
    by (auto simp: has_producer_def)
  have new: "t \<in> set (ts[i := t])" by (rule set_update_new [OF i])
  show ?thesis
  proof (rule inv_step [OF inv i])
    have "NotifyWaiters n \<in> set (ts[i := t])" if "entry D m k = Some (Waiting n)" for n
      using new r [of n] that by (simp add: t)
    then show "evolves D nc ts m (ts[i := t]) m'" using nw slot by (auto simp: evolves_def is_filled_def m L)
    show "task_ok D nc wc job (ts[i := t]) m' t"
    proof (cases r)
      case (Some n)
      then have "entry D m k = Some (Waiting n)" using r [of n] by simp
      then show ?thesis using once_invD(2) [OF inv] Some by (fastforce simp: m t)
    qed (simp add: t)
    show "entry_ok D nc job (ts[i := t]) m' k' x" if x: "entry D m' k' = Some x" for k' x
    proof (cases "k' = k")
      case True
      then show ?thesis using x v by (auto simp: m L slot_holds_def)
    next
      case False
      then have x': "entry D m k' = Some x" using x by (simp add: m L)
      note ok = once_invD(2) [OF inv x']
      show ?thesis
      proof (cases x)
        case (Waiting n)
        have w: "n < length (notifies m)" "nc (notifies m ! n) = 0" "NotifyWaiters n \<notin> set ts" "has_producer ts k'"
          and inj: "\<forall>k''. k'' \<noteq> k' \<longrightarrow> entry D m k'' \<noteq> Some (Waiting n)"
          using ok unfolding Waiting entry_ok.simps by blast+
        have "t \<noteq> NotifyWaiters n"
        proof
          assume "t = NotifyWaiters n"
          then have "entry D m k = Some (Waiting n)" using r [of n] t by (cases r) simp_all
          then show False using inj False by auto
        qed
        then have "NotifyWaiters n \<notin> set (ts[i := t])"
          using w(3) set_update_subset_insert [of ts i t] by blast
        moreover have "\<forall>k''. k'' \<noteq> k' \<longrightarrow> entry D m' k'' \<noteq> Some (Waiting n)" using inj by (simp add: m L)
        ultimately show ?thesis
          using w prod [OF w(4) False] unfolding Waiting by (simp only: entry_ok.simps m) blast
      qed (use ok slot in auto)
    qed
  qed (simp add: t split: option.splits)
qed

text \<open>Waking the waiters.\<close>

lemma notify_step:
  assumes laws: "once_laws D nc wc" and inv: "once_inv D nc wc job (ts, m)" and i: "i < length ts"
    and ti: "ts ! i = NotifyWaiters n"
  shows "once_inv D nc wc job (ts[i := Finished], m\<lparr>notifies := (notifies m)[n := notify_waiters D (notifies m ! n)]\<rparr>)"
proof -
  note L = once_lawsD(5) [OF laws, of "notifies m ! n"]
  let ?m = "m\<lparr>notifies := (notifies m)[n := notify_waiters D (notifies m ! n)]\<rparr>"
  have n: "n < length (notifies m)" using once_invD(1) [OF inv i] ti by simp
  have nc: "nc (notifies ?m ! n') = (if n' = n then Suc (nc (notifies m ! n)) else nc (notifies m ! n'))" for n'
    using L n by simp
  have slot: "slot_holds ?m s v = slot_holds m s v" for s v by (simp add: slot_holds_def)
  have nw: "NotifyWaiters n' \<in> set ts \<Longrightarrow> n' \<noteq> n \<Longrightarrow> NotifyWaiters n' \<in> set (ts[i := Finished])" for n'
    using set_update_other [OF i, of "NotifyWaiters n'"] ti by simp
  have prod: "has_producer ts k' \<Longrightarrow> has_producer (ts[i := Finished]) k'" for k'
    using set_update_other [OF i, of "Job k'"] set_update_other [OF i, of "Done k' _"] ti
    by (auto simp: has_producer_def)
  have mem: "NotifyWaiters n \<in> set ts" using nth_mem [OF i] ti by simp
  show ?thesis
  proof (rule inv_step [OF inv i])
    show "evolves D nc ts m (ts[i := Finished]) ?m"
      using nw nc slot by (auto simp: evolves_def is_filled_def)
    show "entry_ok D nc job (ts[i := Finished]) ?m k' x" if "entry D ?m k' = Some x" for k' x
    proof -
      have ok: "entry_ok D nc job ts m k' x" using once_invD(2) [OF inv] that by simp
      then have "entry_ok D nc job (ts[i := Finished]) m k' x" by (rule entry_ok_quiet) (use prod in auto)
      then show ?thesis using nc slot ok mem by (cases x) auto
    qed
  qed simp_all
qed

text \<open>Running the job.\<close>

lemma job_step:
  assumes inv: "once_inv D nc wc job (ts, m)" and i: "i < length ts" and ti: "ts ! i = Job k"
  shows "once_inv D nc wc job (ts[i := Done k (job k)], m)"
proof (rule inv_step [OF inv i])
  have other: "u \<in> set ts \<Longrightarrow> u \<noteq> Job k \<Longrightarrow> u \<in> set (ts[i := Done k (job k)])" for u
    using set_update_other [OF i] ti by simp
  then show "evolves D nc ts m (ts[i := Done k (job k)]) m" by (auto simp: evolves_def)
  show "entry_ok D nc job (ts[i := Done k (job k)]) m k' x" if "entry D m k' = Some x" for k' x
    using once_invD(2) [OF inv that]
  proof (rule entry_ok_quiet)
    show "has_producer (ts[i := Done k (job k)]) k'" if "has_producer ts k'" for k'
      using that other set_update_new [OF i] by (cases "k' = k") (auto simp: has_producer_def)
  qed simp
qed simp_all

section \<open>Every step keeps the invariant\<close>

lemmas step_defs = task_step_def start_step_def wait_step_def owner_step_def

lemma slot_get_holds: "slot_holds m s v \<Longrightarrow> slot_get m s = Some v"
  by (simp add: slot_holds_def slot_get_def)

lemma try_insert_known: "entry D m k = Some x \<Longrightarrow> try_insert_waiting D k m = (Some x, m)"
  by (simp add: try_insert_waiting_def)

lemma try_insert_new: "entry D m k = None \<Longrightarrow> try_insert_waiting D k m = (None, snd (try_insert_waiting D k m))"
  by (simp add: try_insert_waiting_def)

text \<open>The steps that leave the map alone.\<close>

lemma entry_task_ok:
  assumes "once_inv D nc wc job (ts, m)"
  shows "entry D m k = Some (Filled s) \<Longrightarrow> slot_holds m s (job k)" "entry D m k = Some (Waiting n) \<Longrightarrow> pending D m k n"
proof -
  show "slot_holds m s (job k)" if "entry D m k = Some (Filled s)" using once_invD(2) [OF assms that] by simp
  show "pending D m k n" if "entry D m k = Some (Waiting n)" using once_invD(2) [OF assms that] that by (simp add: pending_def)
qed

lemma task_step_start: "start_step D t m = Some r \<Longrightarrow> task_step D job t m = Some r"
  by (simp add: task_step_def)

lemma start_keeps:
  assumes laws: "once_laws D nc wc" and inv: "once_inv D nc wc job (ts, m)" and i: "i < length ts"
    and step: "start_step D (ts ! i) m = Some (t, m')"
  shows "once_inv D nc wc job (ts[i := t], m')"
proof -
  have b: "bystander (ts ! i)" using step by (auto simp: start_step_def bystander_def split: task.splits)
  have quiet: "once_inv D nc wc job (ts[i := t], m)" if "bystander t" "task_ok D nc wc job (ts[i := t]) m t"
    using quiet_step [OF inv i b that] .
  note ok = once_invD(1) [OF inv i] and filled = entry_task_ok(1) [OF inv] and waiting = entry_task_ok(2) [OF inv]
  have new: "once_inv D nc wc job (ts[i := Job k], snd (try_insert_waiting D k m))" if "entry D m k = None" for k
    by (rule register_step [OF laws inv i b that])
  have known: "once_inv D nc wc job (ts[i := t], m')"
    if "try_insert_waiting D k m = (Some x, m)" "m' = m" "bystander t" "task_ok D nc wc job (ts[i := t]) m t" for k x
    using quiet that by simp
  show ?thesis
  proof (cases "\<exists>k. (ts ! i = RegisterOrWait k \<or> ts ! i = Register k \<or> ts ! i = RegisterEntry k) \<and> entry D m k = None")
    case True
    then obtain k where k: "ts ! i = RegisterOrWait k \<or> ts ! i = Register k \<or> ts ! i = RegisterEntry k" "entry D m k = None"
      by blast
    have "t = Job k \<and> m' = snd (try_insert_waiting D k m)"
      using step k try_insert_new [OF k(2)] by (auto simp: start_step_def register_def split: prod.splits)
    then show ?thesis using new [OF k(2)] by simp
  next
    case False
    then have "m' = m \<and> bystander t \<and> task_ok D nc wc job (ts[i := t]) m t"
      using step ok filled waiting
      by (cases "ts ! i")
        (auto simp: start_step_def bystander_def try_insert_known register_def contains_key_def
          split: option.splits entry_value.splits if_splits)
    then show ?thesis using quiet by simp
  qed
qed

lemma wait_keeps:
  assumes laws: "once_laws D nc wc" and inv: "once_inv D nc wc job (ts, m)" and i: "i < length ts"
    and step: "wait_step D (ts ! i) m = Some (t, m')"
  shows "once_inv D nc wc job (ts[i := t], m')"
proof (cases "\<exists>c k n. ts ! i = WaitPending c k n")
  case True
  then obtain c k n where ti: "ts ! i = WaitPending c k n" by blast
  obtain w notify where w: "notify_notified D (notifies m ! n) = (w, notify)" by (cases "notify_notified D (notifies m ! n)")
  show ?thesis using notified_step [OF laws inv i ti w] step by (simp add: wait_step_def ti w)
next
  case False
  have b: "bystander (ts ! i)" using step by (auto simp: wait_step_def bystander_def split: task.splits)
  note ok = once_invD(1) [OF inv i] and filled = entry_task_ok(1) [OF inv]
  note ready = once_lawsD(8) [OF laws]
  have await: "is_filled D m k" if "ts ! i = Await c k n w" "notify_ready D (notifies m ! n) w" for c k n w
  proof -
    have "entry D m k \<noteq> Some (Waiting n)"
      using once_invD(2) [OF inv, of k "Waiting n"] that(2) by (auto simp: ready)
    then show ?thesis using ok that(1) by (auto simp: pending_def)
  qed
  have "m' = m \<and> bystander t \<and> task_ok D nc wc job (ts[i := t]) m t"
    using step ok False await filled
    by (cases "ts ! i")
      (auto simp: wait_step_def bystander_def received_def slot_get_holds is_filled_def pending_def
        split: option.splits entry_value.splits if_splits)
  then show ?thesis using quiet_step [OF inv i b] by simp
qed

lemma owner_keeps:
  assumes laws: "once_laws D nc wc" and inv: "once_inv D nc wc job (ts, m)" and i: "i < length ts"
    and step: "owner_step D job (ts ! i) m = Some (t, m')"
  shows "once_inv D nc wc job (ts[i := t], m')"
proof (cases "ts ! i")
  case (Job k)
  then show ?thesis using job_step [OF inv i Job] step by (simp add: owner_step_def)
next
  case (Done k v)
  obtain r m'' where d: "done_insert D k v m = (r, m'')" by (cases "done_insert D k v m")
  then have "t = (case r of Some n \<Rightarrow> NotifyWaiters n | None \<Rightarrow> Finished)" "m'' = m'"
    using step Done by (auto simp: owner_step_def split: option.splits)
  then show ?thesis using done_step [OF laws inv i Done d] by simp
next
  case (NotifyWaiters n)
  then show ?thesis using notify_step [OF laws inv i NotifyWaiters] step by (simp add: owner_step_def)
qed (use step once_invD(1) [OF inv i] in \<open>auto simp: owner_step_def\<close>)

lemma task_step_keeps:
  assumes "once_laws D nc wc" "once_inv D nc wc job (ts, m)" "i < length ts" "task_step D job (ts ! i) m = Some (t, m')"
  shows "once_inv D nc wc job (ts[i := t], m')"
  using assms(4) start_keeps [OF assms(1-3)] wait_keeps [OF assms(1-3)] owner_keeps [OF assms(1-3)]
  by (auto simp: task_step_def split: option.splits)

lemma once_step_keeps:
  assumes "once_laws D nc wc" "once_step D job s s'" "once_inv D nc wc job s"
  shows "once_inv D nc wc job s'"
  using assms(2,3) task_step_keeps [OF assms(1)] by cases blast

text \<open>The tasks a program starts with: any calls but \<open>remove\<close>, and \<open>done\<close> with the result of the job.\<close>

definition client :: "('k \<Rightarrow> 'v) \<Rightarrow> ('k, 'v, 'w) task \<Rightarrow> bool" where
  "client job t \<longleftrightarrow>
     (case t of
        RegisterOrWait k \<Rightarrow> True | Register k \<Rightarrow> True | RegisterEntry k \<Rightarrow> True | GetRegistered k \<Rightarrow> True
      | Get k \<Rightarrow> True | Done k v \<Rightarrow> v = job k | _ \<Rightarrow> False)"

lemma init_inv:
  assumes "once_laws D nc wc" "list_all (client job) ts"
  shows "once_inv D nc wc job (ts, once_default D)"
proof -
  have c: "client job t" if "t \<in> set ts" for t using assms(2) that by (simp add: list_all_iff)
  have "task_ok D nc wc job ts (once_default D) t" if "t \<in> set ts" for t
    using c [OF that] by (cases t) (auto simp: client_def)
  moreover have "ts ! i \<noteq> Job k" if "i < length ts" for i k
    using c [OF nth_mem [OF that]] by (auto simp: client_def)
  ultimately show ?thesis
    using once_lawsD(1) [OF assms(1)] by (simp add: once_inv_def once_default_def single_owner_def)
qed

lemma steps_keep:
  assumes "once_laws D nc wc" "(once_step D job)\<^sup>*\<^sup>* s s'" "once_inv D nc wc job s"
  shows "once_inv D nc wc job s'"
  using assms(2,3) by (induction rule: rtranclp_induct) (use once_step_keeps [OF assms(1)] in blast)+

section \<open>Progress\<close>

definition task_done :: "('k, 'v, 'w) task \<Rightarrow> bool" where
  "task_done t \<longleftrightarrow> t = Finished \<or> (\<exists>k v. t = Received k v)"

lemma blocked_task:
  assumes "task_ok D nc wc job ts m t" "task_step D job t m = None" "\<not> task_done t"
  obtains c k n w where "t = Await c k n w" "\<not> notify_ready D (notifies m ! n) w"
  using assms
  by (cases t)
    (auto simp: step_defs task_done_def Let_def split: option.splits entry_value.splits if_splits prod.splits)

lemma progress:
  assumes laws: "once_laws D nc wc" and inv: "once_inv D nc wc job (ts, m)" and t: "t \<in> set ts" "\<not> task_done t"
  shows "\<exists>s. once_step D job (ts, m) s"
proof -
  have moves: "\<exists>s. once_step D job (ts, m) s" if "u \<in> set ts" "task_step D job u m \<noteq> None" for u
    using that once_step [of _ ts D job m] by (fastforce simp: in_set_conv_nth)
  have producer: "task_step D job (Job k) m \<noteq> None" "task_step D job (Done k v) m \<noteq> None"
    "task_step D job (NotifyWaiters n) m \<noteq> None" for k v n
    by (simp_all add: step_defs split: prod.splits option.splits)
  have ok: "task_ok D nc wc job ts m t" using inv t(1) by (simp add: once_inv_def)
  show ?thesis
  proof (cases "task_step D job t m")
    case None
    then obtain c k n w where w: "t = Await c k n w" "\<not> notify_ready D (notifies m ! n) w"
      using blocked_task [OF ok _ t(2)] by blast
    then consider "entry D m k = Some (Waiting n)" | "NotifyWaiters n \<in> set ts"
      using ok once_lawsD(8) [OF laws] by auto
    then show ?thesis
    proof cases
      case 1
      then have "has_producer ts k" using once_invD(2) [OF inv] by fastforce
      then show ?thesis using moves producer unfolding has_producer_def by blast
    next
      case 2
      then show ?thesis using moves producer by blast
    qed
  qed (use moves t(1) in simp)
qed

text \<open>Every step brings its task closer to the end.\<close>

definition task_rank :: "('k, 'v, 'w) task \<Rightarrow> nat" where
  "task_rank t =
     (case t of
        RegisterOrWait k \<Rightarrow> 10 | Register k \<Rightarrow> 4 | RegisterEntry k \<Rightarrow> 11 | GetRegistered k \<Rightarrow> 11 | Get k \<Rightarrow> 2
      | WaitRegistered k \<Rightarrow> 10 | ReadWait c k s \<Rightarrow> 4 | ReadGet k s \<Rightarrow> 1
      | WaitPending c k n \<Rightarrow> 9 | Recheck c k n w \<Rightarrow> 8 | ReadRecheck c k n w s \<Rightarrow> 7 | Await c k n w \<Rightarrow> 6 | Lookup c k \<Rightarrow> 5
      | Job k \<Rightarrow> 3 | Done k v \<Rightarrow> 2 | NotifyWaiters n \<Rightarrow> 1 | Remove k \<Rightarrow> 2 | Take k s \<Rightarrow> 1
      | Received k v \<Rightarrow> 0 | Finished \<Rightarrow> 0 | Panicked \<Rightarrow> 0)"

definition system_rank :: "('m, 'n, 'w, 'k, 'v) system \<Rightarrow> nat" where
  "system_rank s = sum_list (map task_rank (fst s))"

lemma task_step_rank: "task_step D job t m = Some (t', m') \<Longrightarrow> task_rank t' < task_rank t"
  by (cases t)
    (auto simp: step_defs task_rank_def received_def register_def Let_def
      split: option.splits entry_value.splits if_splits prod.splits caller.splits)

lemma once_step_rank: "once_step D job s s' \<Longrightarrow> system_rank s' < system_rank s"
proof (induction rule: once_step.induct)
  case (once_step i ts m t m')
  have "task_rank (ts ! i) \<le> sum_list (map task_rank ts)"
    using once_step(1) by (auto intro: member_le_sum_list)
  then show ?case
    using task_step_rank [OF once_step(2)] once_step(1)
    by (simp add: system_rank_def map_update sum_list_update)
qed

lemma steps_rank: "(once_step D job ^^ n) s s' \<Longrightarrow> n + system_rank s' \<le> system_rank s"
proof (induction n arbitrary: s')
  case (Suc n)
  then obtain s1 where "(once_step D job ^^ n) s s1" "once_step D job s1 s'" by auto
  then show ?case using Suc.IH [of s1] once_step_rank [of D job s1 s'] by simp
qed simp

section \<open>Waiters and owners\<close>

text \<open>The tasks that wait for the value of a key, up to the moment they have it.\<close>

definition waits :: "'k \<Rightarrow> ('k, 'v, 'w) task \<Rightarrow> bool" where
  "waits k t \<longleftrightarrow>
     (case t of
        WaitRegistered k' \<Rightarrow> k' = k | ReadWait c k' s \<Rightarrow> k' = k | WaitPending c k' n \<Rightarrow> k' = k
      | Recheck c k' n w \<Rightarrow> k' = k | ReadRecheck c k' n w s \<Rightarrow> k' = k | Await c k' n w \<Rightarrow> k' = k
      | Lookup c k' \<Rightarrow> k' = k | Received k' v \<Rightarrow> k' = k | _ \<Rightarrow> False)"

lemma waits_step:
  assumes inv: "once_inv D nc wc job (ts, m)" and step: "once_step D job (ts, m) (ts', m')"
    and j: "j < length ts" and w: "waits k (ts ! j)"
  shows "waits k (ts' ! j)"
  using step
proof cases
  case (once_step i t)
  show ?thesis
  proof (cases "j = i")
    case True
    have "waits k t"
      using once_step(3) w once_invD(1) [OF inv j] unfolding True
      by (cases "ts ! i")
        (auto simp: waits_def step_defs received_def slot_get_holds is_filled_def pending_def Let_def
          split: option.splits entry_value.splits if_splits prod.splits)
    then show ?thesis using once_step(1,2) True by simp
  qed (use once_step(1) w in simp)
qed

lemma once_step_length: "once_step D job s s' \<Longrightarrow> length (fst s') = length (fst s)"
  by (induction rule: once_step.induct) simp

lemma steps_length: "(once_step D job)\<^sup>*\<^sup>* s s' \<Longrightarrow> length (fst s') = length (fst s)"
  by (induction rule: rtranclp_induct) (auto dest: once_step_length)

lemma waits_steps:
  assumes laws: "once_laws D nc wc" and steps: "(once_step D job)\<^sup>*\<^sup>* s s'" and inv: "once_inv D nc wc job s"
    and j: "j < length (fst s)" "waits k (fst s ! j)"
  shows "waits k (fst s' ! j)"
  using steps
proof (induction rule: rtranclp_induct)
  case (step s1 s2)
  have "once_inv D nc wc job s1" using steps_keep [OF laws step.hyps(1) inv] .
  moreover have "j < length (fst s1)" using steps_length [OF step.hyps(1)] j(1) by simp
  ultimately show ?case
    using waits_step [of D nc wc job "fst s1" "snd s1" "fst s2" "snd s2"] step by simp
qed (rule j(2))

text \<open>A key stays registered, and a registered key gets no new owner.\<close>

lemma owner_step_registered:
  assumes inv: "once_inv D nc wc job (ts, m)" and laws: "once_laws D nc wc"
    and step: "once_step D job (ts, m) (ts', m')" and k: "entry D m k \<noteq> None"
  shows "entry D m' k \<noteq> None \<and> (\<forall>j < length ts. ts' ! j = Job k \<longrightarrow> ts ! j = Job k)"
  using step
proof cases
  case (once_step i t)
  have ok: "task_ok D nc wc job ts m (ts ! i)" using once_invD(1) [OF inv once_step(2)] .
  note L = once_lawsD [OF laws]
  have "entry D m' k \<noteq> None \<and> t \<noteq> Job k"
    using once_step(3) k ok
    by (cases "ts ! i")
      (auto simp: step_defs received_def slot_get_holds register_def try_insert_waiting_def contains_key_def
        done_insert_def insert_filled_def L Let_def
        split: option.splits entry_value.splits if_splits prod.splits)
  then show ?thesis using once_step(1,2) by (auto simp: nth_list_update)
qed

lemma owner_steps_registered:
  assumes laws: "once_laws D nc wc" and steps: "(once_step D job)\<^sup>*\<^sup>* s s'" and inv: "once_inv D nc wc job s"
    and k: "entry D (snd s) k \<noteq> None"
  shows "entry D (snd s') k \<noteq> None \<and> (\<forall>j < length (fst s). fst s' ! j = Job k \<longrightarrow> fst s ! j = Job k)"
  using steps
proof (induction rule: rtranclp_induct)
  case (step s1 s2)
  have "once_inv D nc wc job (fst s1, snd s1)" using steps_keep [OF laws step.hyps(1) inv] by simp
  then show ?case
    using owner_step_registered [OF _ laws, of job "fst s1" "snd s1" "fst s2" "snd s2" k] step
      steps_length [OF step.hyps(1)] by auto
qed (use k in simp)

section \<open>An instance and schedules\<close>

text \<open>An association list, and notifications that are the number of calls.\<close>

definition alist_deps :: "((string \<times> entry_value) list, nat, nat, string) deps" where
  "alist_deps =
     \<lparr>hm_new = [], hm_get = map_of, hm_insert = (\<lambda>h k x. (k, x) # h), hm_remove = (\<lambda>h k. filter (\<lambda>e. fst e \<noteq> k) h),
      notify_new = 0, notify_notified = (\<lambda>n. (n, n)), notify_waiters = Suc, notify_ready = (\<lambda>n w. w < n)\<rparr>"

lemma alist_laws: "once_laws alist_deps id id"
proof -
  have "map_of (filter (\<lambda>e. fst e \<noteq> k) h) k' = (if k' = k then None else map_of h k')"
    for h :: "(string \<times> entry_value) list" and k k'
    by (induction h) auto
  then show ?thesis by (simp add: once_laws_def alist_deps_def)
qed

text \<open>The run in which the tasks with the given indices step one after the other.\<close>

fun run_schedule ::
  "('m, 'n, 'w, 'k) deps \<Rightarrow> ('k \<Rightarrow> 'v) \<Rightarrow> nat list \<Rightarrow> ('m, 'n, 'w, 'k, 'v) system \<Rightarrow>
   ('m, 'n, 'w, 'k, 'v) system option" where
  "run_schedule D job [] s = Some s"
| "run_schedule D job (i # is) (ts, m) =
     (if i < length ts then
        do { (t, m') \<leftarrow> task_step D job (ts ! i) m; run_schedule D job is (ts[i := t], m') }
      else None)"

lemma run_schedule_steps: "run_schedule D job is s = Some s' \<Longrightarrow> (once_step D job ^^ length is) s s'"
proof (induction D job "is" s rule: run_schedule.induct)
  case (2 D job i "is" ts m)
  then obtain t m' where t: "i < length ts" "task_step D job (ts ! i) m = Some (t, m')"
    "run_schedule D job is (ts[i := t], m') = Some s'"
    by (auto split: if_splits bind_splits)
  then have "once_step D job (ts, m) (ts[i := t], m')" "(once_step D job ^^ length is) (ts[i := t], m') s'"
    using 2(1) [OF t(1,2) refl] by (auto intro: once_step.intros)
  then show ?case by (metis length_Cons relpowp_Suc_I2)
qed simp

text \<open>Two tasks that ask for the same key; the second waits until the first is done.\<close>

definition example_tasks :: "(string, nat, nat) task list" where
  "example_tasks = [RegisterOrWait ''a'', RegisterOrWait ''a'']"

definition example_schedule :: "nat list" where
  "example_schedule = [0, 1, 1, 1, 0, 0, 0, 1, 1, 1]"

lemma example_run:
  "\<exists>m. (once_step alist_deps length ^^ 10) (example_tasks, once_default alist_deps) ([Finished, Received ''a'' 1], m)"
proof -
  have "\<exists>m. run_schedule alist_deps length example_schedule (example_tasks, once_default alist_deps) =
      Some ([Finished, Received ''a'' 1], m)"
    by (simp add: example_tasks_def example_schedule_def step_defs alist_deps_def once_default_def
        try_insert_waiting_def done_insert_def insert_filled_def received_def slot_get_def)
  then obtain m where "run_schedule alist_deps length example_schedule (example_tasks, once_default alist_deps) =
      Some ([Finished, Received ''a'' 1], m)" by blast
  then have "(once_step alist_deps length ^^ length example_schedule) (example_tasks, once_default alist_deps)
      ([Finished, Received ''a'' 1], m)"
    by (rule run_schedule_steps)
  moreover have "length example_schedule = 10" by (simp add: example_schedule_def)
  ultimately show ?thesis by metis
qed

lemma example_client: "list_all (client length) example_tasks"
  by (simp add: example_tasks_def client_def)

section \<open>Properties\<close>

text \<open>
  C29. In every interleaving of calls other than \<open>remove\<close>, no task panics (neither at an \<open>expect\<close> nor at the
  \<open>unreachable!\<close>), every value a task receives for a key is the result of the job of that key, and at most one
  task owns the job of a key.
\<close>

theorem once_map_safe:
  assumes "once_laws D nc wc" "list_all (client job) ts" "(once_step D job)\<^sup>*\<^sup>* (ts, once_default D) (ts', m')"
  shows "Panicked \<notin> set ts' \<and> (\<forall>k v. Received k v \<in> set ts' \<longrightarrow> v = job k) \<and>
    (\<forall>k i j. i < length ts' \<longrightarrow> j < length ts' \<longrightarrow> ts' ! i = Job k \<longrightarrow> ts' ! j = Job k \<longrightarrow> i = j)"
proof -
  have inv: "once_inv D nc wc job (ts', m')" using steps_keep [OF assms(1,3) init_inv [OF assms(1,2)]] .
  then have "task_ok D nc wc job ts' m' t" if "t \<in> set ts'" for t using that by (simp add: once_inv_def)
  then have "Panicked \<notin> set ts'" "\<forall>k v. Received k v \<in> set ts' \<longrightarrow> v = job k" by fastforce+
  then show ?thesis using once_invD(3) [OF inv] by (simp add: single_owner_def)
qed

theorem once_map_safe_witness:
  "\<exists>m. (once_step alist_deps length)\<^sup>*\<^sup>* (example_tasks, once_default alist_deps) ([Finished, Received ''a'' 1], m) \<and>
     Panicked \<notin> set [Finished :: (string, nat, nat) task, Received ''a'' 1] \<and> 1 = length ''a''"
proof -
  obtain m where "(once_step alist_deps length ^^ 10) (example_tasks, once_default alist_deps) ([Finished, Received ''a'' 1], m)"
    using example_run by blast
  then have r: "(once_step alist_deps length)\<^sup>*\<^sup>* (example_tasks, once_default alist_deps) ([Finished, Received ''a'' 1], m)"
    by (rule relpowp_imp_rtranclp)
  show ?thesis using r once_map_safe [OF alist_laws example_client r] by (intro exI [of _ m]) simp
qed



text \<open>
  C31. No wakeup is lost. Every run is finite, with a bound that depends on the calls only; when no task can
  move any more, all calls have returned, and a task that waited for a key has the result of its job.
\<close>

theorem once_map_completes:
  assumes laws: "once_laws D nc wc" and ts: "list_all (client job) ts"
    and run: "(once_step D job)\<^sup>*\<^sup>* (ts, once_default D) (ts1, m1)" "(once_step D job ^^ n) (ts1, m1) (ts2, m2)"
  shows "n \<le> system_rank (ts, once_default D) \<and>
    ((\<nexists>s. once_step D job (ts2, m2) s) \<longrightarrow>
       (\<forall>t\<in>set ts2. task_done t) \<and> (\<forall>j < length ts1. \<forall>k. waits k (ts1 ! j) \<longrightarrow> ts2 ! j = Received k (job k)))"
proof -
  have inv1: "once_inv D nc wc job (ts1, m1)" using steps_keep [OF laws run(1) init_inv [OF laws ts]] .
  have run2: "(once_step D job)\<^sup>*\<^sup>* (ts1, m1) (ts2, m2)" using relpowp_imp_rtranclp [OF run(2)] .
  have inv2: "once_inv D nc wc job (ts2, m2)" using steps_keep [OF laws run2 inv1] .
  obtain n0 where "(once_step D job ^^ n0) (ts, once_default D) (ts1, m1)" using rtranclp_imp_relpowp [OF run(1)] by blast
  then have bound: "n \<le> system_rank (ts, once_default D)" using steps_rank [OF run(2)] steps_rank by fastforce
  show ?thesis
  proof (intro conjI bound impI ballI allI)
    assume stuck: "\<nexists>s. once_step D job (ts2, m2) s"
    show d: "task_done t" if "t \<in> set ts2" for t using progress [OF laws inv2 that] stuck by blast
    show "ts2 ! j = Received k (job k)" if j: "j < length ts1" "waits k (ts1 ! j)" for j k
    proof -
      have "waits k (ts2 ! j)" using waits_steps [OF laws run2 inv1] j by simp
      moreover have j2: "j < length ts2" using steps_length [OF run2] j(1) by simp
      ultimately show ?thesis
        using d [OF nth_mem [OF j2]] once_invD(1) [OF inv2 j2] by (auto simp: task_done_def waits_def)
    qed
  qed
qed

theorem once_map_completes_witness: "(10::nat) \<le> system_rank (example_tasks, once_default alist_deps :: (_, nat, nat) once_map)"
proof -
  obtain m where "(once_step alist_deps length ^^ 10) (example_tasks, once_default alist_deps) ([Finished, Received ''a'' 1], m)"
    using example_run by blast
  then show ?thesis using once_map_completes [OF alist_laws example_client rtranclp.rtrancl_refl] by blast
qed


end
