(* ===== verification/CacheControl.thy ===== *)
theory CacheControl
  imports Prelude
begin

text \<open>
  The directives of the HTTP \<open>Cache-Control\<close> header (\<open>uv-client/src/httpcache/control.rs\<close>): the packed
  representation with presence flags, the parser over several header values, and the interpretation of
  directives. The theory shows that the parser emits every directive at most once, that a repeated or
  malformed directive forces revalidation, and that well-formed headers are read back as they were written.
\<close>

section \<open>The packed directives\<close>

type_synonym u16 = "16 word"

record cache_control =
  cc_max_age :: u64
  cc_max_stale :: u64
  cc_min_fresh :: u64
  cc_s_maxage :: u64
  cc_flags :: u16

definition FLAG_NO_CACHE :: u16 where "FLAG_NO_CACHE = push_bit 0 1"
definition FLAG_NO_STORE :: u16 where "FLAG_NO_STORE = push_bit 1 1"
definition FLAG_NO_TRANSFORM :: u16 where "FLAG_NO_TRANSFORM = push_bit 2 1"
definition FLAG_ONLY_IF_CACHED :: u16 where "FLAG_ONLY_IF_CACHED = push_bit 3 1"
definition FLAG_MUST_REVALIDATE :: u16 where "FLAG_MUST_REVALIDATE = push_bit 4 1"
definition FLAG_MUST_UNDERSTAND :: u16 where "FLAG_MUST_UNDERSTAND = push_bit 5 1"
definition FLAG_PRIVATE :: u16 where "FLAG_PRIVATE = push_bit 6 1"
definition FLAG_PROXY_REVALIDATE :: u16 where "FLAG_PROXY_REVALIDATE = push_bit 7 1"
definition FLAG_PUBLIC :: u16 where "FLAG_PUBLIC = push_bit 8 1"
definition FLAG_IMMUTABLE :: u16 where "FLAG_IMMUTABLE = push_bit 9 1"
definition FLAG_MAX_AGE :: u16 where "FLAG_MAX_AGE = push_bit 10 1"
definition FLAG_MAX_STALE :: u16 where "FLAG_MAX_STALE = push_bit 11 1"
definition FLAG_MIN_FRESH :: u16 where "FLAG_MIN_FRESH = push_bit 12 1"
definition FLAG_S_MAXAGE :: u16 where "FLAG_S_MAXAGE = push_bit 13 1"

definition cc_default :: cache_control where
  "cc_default = \<lparr>cc_max_age = 0, cc_max_stale = 0, cc_min_fresh = 0, cc_s_maxage = 0, cc_flags = 0\<rparr>"

text \<open>\<open>bitflags\<close>: a set contains a flag when all of its bits are set.\<close>

definition flag_contains :: "u16 \<Rightarrow> u16 \<Rightarrow> bool" where
  "flag_contains flags flag \<longleftrightarrow> flags AND flag = flag"

definition cc_insert :: "u16 \<Rightarrow> cache_control \<Rightarrow> cache_control" where
  "cc_insert flag cc = cc\<lparr>cc_flags := cc_flags cc OR flag\<rparr>"

definition no_cache :: "cache_control \<Rightarrow> bool" where
  "no_cache cc \<longleftrightarrow> flag_contains (cc_flags cc) FLAG_NO_CACHE"

definition no_store :: "cache_control \<Rightarrow> bool" where
  "no_store cc \<longleftrightarrow> flag_contains (cc_flags cc) FLAG_NO_STORE"

definition must_revalidate :: "cache_control \<Rightarrow> bool" where
  "must_revalidate cc \<longleftrightarrow> flag_contains (cc_flags cc) FLAG_MUST_REVALIDATE"

definition cc_private :: "cache_control \<Rightarrow> bool" where
  "cc_private cc \<longleftrightarrow> flag_contains (cc_flags cc) FLAG_PRIVATE"

definition cc_public :: "cache_control \<Rightarrow> bool" where
  "cc_public cc \<longleftrightarrow> flag_contains (cc_flags cc) FLAG_PUBLIC"

definition immutable :: "cache_control \<Rightarrow> bool" where
  "immutable cc \<longleftrightarrow> flag_contains (cc_flags cc) FLAG_IMMUTABLE"

definition max_age_seconds :: "cache_control \<Rightarrow> u64 option" where
  "max_age_seconds cc = (if flag_contains (cc_flags cc) FLAG_MAX_AGE then Some (cc_max_age cc) else None)"

definition max_stale_seconds :: "cache_control \<Rightarrow> u64 option" where
  "max_stale_seconds cc = (if flag_contains (cc_flags cc) FLAG_MAX_STALE then Some (cc_max_stale cc) else None)"

definition min_fresh_seconds :: "cache_control \<Rightarrow> u64 option" where
  "min_fresh_seconds cc = (if flag_contains (cc_flags cc) FLAG_MIN_FRESH then Some (cc_min_fresh cc) else None)"

definition s_maxage_seconds :: "cache_control \<Rightarrow> u64 option" where
  "s_maxage_seconds cc = (if flag_contains (cc_flags cc) FLAG_S_MAXAGE then Some (cc_s_maxage cc) else None)"

section \<open>Directives\<close>

record directive =
  d_name :: string
  d_value :: string

definition must_revalidate_directive :: directive where
  "must_revalidate_directive = \<lparr>d_name = ''must-revalidate'', d_value = []\<rparr>"

text \<open>\<open>str::parse::<u64>\<close> on digits: an error on the empty string and on overflow.\<close>

definition digits_value :: "string \<Rightarrow> nat" where
  "digits_value = foldl (\<lambda>n c. 10 * n + (byte_val c - 48)) 0"

definition parse_int :: "string \<Rightarrow> u64 option" where
  "parse_int value =
     (if \<not> list_all is_ascii_digit value then None
      else if value = [] \<or> 2 ^ 64 \<le> digits_value value then None
      else Some (of_nat (digits_value value)))"

definition apply_seconds ::
  "u64 option \<Rightarrow> (u64 \<Rightarrow> cache_control \<Rightarrow> cache_control) \<Rightarrow> cache_control \<Rightarrow> cache_control" where
  "apply_seconds seconds store cc =
     (case seconds of None \<Rightarrow> cc_insert FLAG_MUST_REVALIDATE cc | Some n \<Rightarrow> store n cc)"

definition apply_directive :: "cache_control \<Rightarrow> directive \<Rightarrow> cache_control" where
  "apply_directive cc ccd =
     (let name = d_name ccd; value = d_value ccd in
      if name = ''max-age'' then
        apply_seconds (parse_int value) (\<lambda>n cc. cc_insert FLAG_MAX_AGE (cc\<lparr>cc_max_age := n\<rparr>)) cc
      else if name = ''no-cache'' then cc_insert FLAG_NO_CACHE cc
      else if name = ''no-store'' then cc_insert FLAG_NO_STORE cc
      else if name = ''no-transform'' then cc_insert FLAG_NO_TRANSFORM cc
      else if name = ''max-stale'' then
        apply_seconds (if value = [] then Some u64_MAX else parse_int value)
          (\<lambda>n cc. cc_insert FLAG_MAX_STALE (cc\<lparr>cc_max_stale := n\<rparr>)) cc
      else if name = ''min-fresh'' then
        apply_seconds (parse_int value) (\<lambda>n cc. cc_insert FLAG_MIN_FRESH (cc\<lparr>cc_min_fresh := n\<rparr>)) cc
      else if name = ''only-if-cached'' then cc_insert FLAG_ONLY_IF_CACHED cc
      else if name = ''must-revalidate'' then cc_insert FLAG_MUST_REVALIDATE cc
      else if name = ''must-understand'' then cc_insert FLAG_MUST_UNDERSTAND cc
      else if name = ''private'' then cc_insert FLAG_PRIVATE cc
      else if name = ''proxy-revalidate'' then cc_insert FLAG_PROXY_REVALIDATE cc
      else if name = ''public'' then cc_insert FLAG_PUBLIC cc
      else if name = ''s-maxage'' then
        apply_seconds (parse_int value) (\<lambda>n cc. cc_insert FLAG_S_MAXAGE (cc\<lparr>cc_s_maxage := n\<rparr>)) cc
      else if name = ''immutable'' then cc_insert FLAG_IMMUTABLE cc
      else cc)"

definition cc_from_directives :: "directive list \<Rightarrow> cache_control" where
  "cc_from_directives ds = foldl apply_directive cc_default ds"

section \<open>The parser\<close>

definition is_token_byte :: "char \<Rightarrow> bool" where
  "is_token_byte c \<longleftrightarrow> c \<in> set ''!#$%&'*+-.^_`|~'' \<or> is_ascii_digit c \<or> is_ascii_uppercase c \<or> is_ascii_lowercase c"

text \<open>The parsers return the result and the rest of the header value.\<close>

definition parse_token :: "string \<Rightarrow> (string \<times> string) option" where
  "parse_token cur =
     (let token = takeWhile is_token_byte cur in
      if token = [] then None else Some (token, dropWhile is_token_byte cur))"

definition maybe_parse_equals :: "string \<Rightarrow> bool \<times> string" where
  "maybe_parse_equals cur = (case cur of c # rest \<Rightarrow> if c = CHR ''='' then (True, rest) else (False, cur) | [] \<Rightarrow> (False, cur))"

definition is_qdtext_byte :: "char \<Rightarrow> bool" where
  "is_qdtext_byte c \<longleftrightarrow>
     (let b = byte_val c in
      b = 9 \<or> b = 32 \<or> b = 0x21 \<or> 0x23 \<le> b \<and> b \<le> 0x5B \<or> 0x5D \<le> b \<and> b \<le> 0x7E \<or> 0x80 \<le> b)"

definition is_quoted_pair_byte :: "char \<Rightarrow> bool" where
  "is_quoted_pair_byte c \<longleftrightarrow>
     (let b = byte_val c in b = 9 \<or> b = 32 \<or> 0x21 \<le> b \<and> b \<le> 0x7E \<or> 0x80 \<le> b)"

text \<open>The loop after the opening quote, with the bytes read so far.\<close>

fun quoted_loop :: "string \<Rightarrow> string \<Rightarrow> (string \<times> string) option" where
  "quoted_loop val [] = None"
| "quoted_loop val (c # cur) =
     (if c = CHR 0x22 then Some (val, cur)
      else if c = CHR 0x5C then
        (case cur of
           [] \<Rightarrow> None
         | d # cur' \<Rightarrow> if is_quoted_pair_byte d then quoted_loop (val @ [d]) cur' else None)
      else if is_qdtext_byte c then quoted_loop (val @ [c]) cur
      else None)"

definition parse_quoted_string :: "string \<Rightarrow> (string \<times> string) option" where
  "parse_quoted_string cur = quoted_loop [] cur"

definition parse_value :: "string \<Rightarrow> (string \<times> string) option" where
  "parse_value cur =
     (case cur of
        [] \<Rightarrow> None
      | c # rest \<Rightarrow> if c = CHR 0x22 then parse_quoted_string rest else parse_token cur)"

definition maybe_parse_directive_delimiter :: "string \<Rightarrow> string" where
  "maybe_parse_directive_delimiter cur = (case cur of c # rest \<Rightarrow> if c = CHR '','' then rest else cur | [] \<Rightarrow> cur)"

definition skip_whitespace :: "string \<Rightarrow> string" where
  "skip_whitespace cur = dropWhile is_ascii_whitespace cur"

text \<open>The names seen so far are a list; the results are the directive to emit and the new names.\<close>

definition emit_revalidation :: "string list \<Rightarrow> directive option \<times> string list" where
  "emit_revalidation seen =
     (if ''must-revalidate'' \<in> set seen then (None, seen)
      else (Some must_revalidate_directive, ''must-revalidate'' # seen))"

definition emit_directive :: "directive \<Rightarrow> string list \<Rightarrow> directive option \<times> string list" where
  "emit_directive d seen =
     (if d_name d \<in> set seen then emit_revalidation seen else (Some d, d_name d # seen))"

text \<open>
  One round of the inner loop of \<open>next\<close> on a nonempty header value: the rest of the value and what is
  emitted.
\<close>

definition parse_round :: "string \<Rightarrow> string list \<Rightarrow> string \<times> directive option \<times> string list" where
  "parse_round cur seen =
     (let cur = skip_whitespace cur in
      case parse_token cur of
        None \<Rightarrow> ([], if cur \<noteq> [] then emit_revalidation seen else (None, seen))
      | Some (token, cur) \<Rightarrow>
          (let name = map to_ascii_lowercase token in
           case maybe_parse_equals cur of
             (False, cur) \<Rightarrow>
               (maybe_parse_directive_delimiter (skip_whitespace cur), emit_directive \<lparr>d_name = name, d_value = []\<rparr> seen)
           | (True, cur) \<Rightarrow>
               (case parse_value cur of
                  None \<Rightarrow> ([], emit_revalidation seen)
                | Some (val, cur) \<Rightarrow>
                    (maybe_parse_directive_delimiter (skip_whitespace cur),
                     emit_directive \<lparr>d_name = name, d_value = val\<rparr> seen))))"

lemma rest_shorter [simp]:
  "length (skip_whitespace cur) \<le> length cur" "length (maybe_parse_directive_delimiter cur) \<le> length cur"
  by (auto simp: skip_whitespace_def maybe_parse_directive_delimiter_def length_dropWhile_le split: list.splits)

lemma parse_token_Some:
  assumes "parse_token cur = Some (token, rest)"
  shows "token \<noteq> []" "list_all is_token_byte token" "cur = token @ rest" "length rest < length cur"
proof -
  have t: "token = takeWhile is_token_byte cur" "rest = dropWhile is_token_byte cur" "token \<noteq> []"
    using assms by (auto simp: parse_token_def Let_def split: if_splits)
  show "token \<noteq> []" by (rule t(3))
  show "list_all is_token_byte token" unfolding t(1) by (auto simp: list_all_iff dest: set_takeWhileD)
  show "cur = token @ rest" unfolding t by simp
  then show "length rest < length cur" using t(3) by (cases token) simp_all
qed

lemma quoted_loop_shorter: "quoted_loop val cur = Some (val', rest) \<Longrightarrow> length rest < length cur"
proof (induction val cur rule: quoted_loop.induct)
  case (2 val c cur)
  then show ?case by (cases cur) (fastforce split: if_splits)+
qed simp

lemma parse_value_shorter: "parse_value cur = Some (val, rest) \<Longrightarrow> length rest < length cur"
  using quoted_loop_shorter parse_token_Some(4)
  by (fastforce simp: parse_value_def parse_quoted_string_def split: list.splits if_splits)

lemma maybe_parse_equals_shorter: "maybe_parse_equals cur = (b, rest) \<Longrightarrow> length rest \<le> length cur"
  by (auto simp: maybe_parse_equals_def split: list.splits if_splits)

lemma delimiter_shorter: "length (maybe_parse_directive_delimiter (skip_whitespace cur)) \<le> length cur"
  by (rule order_trans [OF rest_shorter(2) rest_shorter(1)])

lemma parse_round_shorter:
  assumes "cur \<noteq> []"
  shows "length (fst (parse_round cur seen)) < length cur"
proof (cases "parse_token (skip_whitespace cur)")
  case None
  then show ?thesis using assms by (simp add: parse_round_def)
next
  case (Some p)
  obtain token rest where p: "p = (token, rest)" by (cases p)
  obtain b rest' where e: "maybe_parse_equals rest = (b, rest')" by (cases "maybe_parse_equals rest")
  have "length rest' < length cur"
    using parse_token_Some(4) [of "skip_whitespace cur" token rest] Some p maybe_parse_equals_shorter [OF e]
      rest_shorter(1) [of cur] by (simp del: rest_shorter)
  have "length (maybe_parse_directive_delimiter (skip_whitespace r)) \<le> length rest'"
    if "parse_value rest' = Some (v, r)" for v r
    using delimiter_shorter [of r] parse_value_shorter [OF that] by (simp del: rest_shorter)
  then have "length (fst (parse_round cur seen)) \<le> length rest' \<or> fst (parse_round cur seen) = []"
    using Some p e delimiter_shorter
    by (cases b; cases "parse_value rest'") (auto simp: parse_round_def Let_def simp del: rest_shorter)
  then show ?thesis using assms \<open>length rest' < length cur\<close> by auto
qed

text \<open>
  The directives that the parser yields: it goes through the header values from left to right. The header
  value under the cursor, the values to come, and the names seen so far are its state.
\<close>

function parse_directives :: "string \<Rightarrow> string list \<Rightarrow> string list \<Rightarrow> directive list" where
  "parse_directives cur headers seen =
     (if cur = [] then (case headers of [] \<Rightarrow> [] | h # hs \<Rightarrow> parse_directives h hs seen)
      else
        (case parse_round cur seen of
           (cur', None, seen') \<Rightarrow> parse_directives cur' headers seen'
         | (cur', Some d, seen') \<Rightarrow> d # parse_directives cur' headers seen'))"
  by pat_completeness auto

termination
  by (relation "measures [\<lambda>(cur, headers, seen). length headers, \<lambda>(cur, headers, seen). length cur]")
    (use parse_round_shorter in \<open>auto, (metis fst_conv)+\<close>)

declare parse_directives.simps [simp del]

definition parser_new :: "string list \<Rightarrow> string \<times> string list" where
  "parser_new headers = (case headers of [] \<Rightarrow> ([], []) | cur # directives \<Rightarrow> (cur, directives))"

definition parser_collect :: "string list \<Rightarrow> directive list" where
  "parser_collect headers = (case parser_new headers of (cur, directives) \<Rightarrow> parse_directives cur directives [])"

definition cc_from_headers :: "string list \<Rightarrow> cache_control" where
  "cc_from_headers headers = cc_from_directives (parser_collect headers)"

section \<open>What the header values say\<close>

text \<open>
  The header values without the treatment of repetitions: a list with \<open>None\<close> for every malformed rest of a
  value.
\<close>

definition raw_round :: "string \<Rightarrow> string \<times> directive option list" where
  "raw_round cur =
     (let cur = skip_whitespace cur in
      case parse_token cur of
        None \<Rightarrow> ([], if cur \<noteq> [] then [None] else [])
      | Some (token, cur) \<Rightarrow>
          (let name = map to_ascii_lowercase token in
           case maybe_parse_equals cur of
             (False, cur) \<Rightarrow>
               (maybe_parse_directive_delimiter (skip_whitespace cur), [Some \<lparr>d_name = name, d_value = []\<rparr>])
           | (True, cur) \<Rightarrow>
               (case parse_value cur of
                  None \<Rightarrow> ([], [None])
                | Some (val, cur) \<Rightarrow>
                    (maybe_parse_directive_delimiter (skip_whitespace cur), [Some \<lparr>d_name = name, d_value = val\<rparr>]))))"

definition emit_one :: "directive option \<Rightarrow> string list \<Rightarrow> directive option \<times> string list" where
  "emit_one r seen = (case r of None \<Rightarrow> emit_revalidation seen | Some d \<Rightarrow> emit_directive d seen)"

lemma parse_round_raw:
  "parse_round cur seen = (fst (raw_round cur), case snd (raw_round cur) of [] \<Rightarrow> (None, seen) | r # _ \<Rightarrow> emit_one r seen)"
  by (auto simp: parse_round_def raw_round_def emit_one_def Let_def split: option.splits prod.splits bool.splits)

lemma raw_round_shorter: "cur \<noteq> [] \<Longrightarrow> length (fst (raw_round cur)) < length cur"
  using parse_round_shorter [of cur "[]"] by (simp add: parse_round_raw)

lemma raw_round_single: "snd (raw_round cur) = [] \<or> (\<exists>r. snd (raw_round cur) = [r])"
  by (auto simp: raw_round_def Let_def split: option.splits prod.splits bool.splits)

function raw_value :: "string \<Rightarrow> directive option list" where
  "raw_value cur = (if cur = [] then [] else snd (raw_round cur) @ raw_value (fst (raw_round cur)))"
  by pat_completeness auto

termination
  by (relation "measure length") (use raw_round_shorter in auto)

declare raw_value.simps [simp del]

lemma raw_value_Nil [simp]: "raw_value [] = []"
  by (simp add: raw_value.simps)

fun emit_all :: "string list \<Rightarrow> directive option list \<Rightarrow> directive list" where
  "emit_all seen [] = []"
| "emit_all seen (r # rs) =
     (case emit_one r seen of
        (None, seen') \<Rightarrow> emit_all seen' rs
      | (Some d, seen') \<Rightarrow> d # emit_all seen' rs)"

lemma parse_directives_emits:
  "parse_directives cur headers seen = emit_all seen (raw_value cur @ concat (map raw_value headers))"
proof (induction cur headers seen rule: parse_directives.induct)
  case (1 cur headers seen)
  show ?case
  proof (cases "cur = []")
    case True
    then show ?thesis using 1(1) by (cases headers) (simp_all add: parse_directives.simps)
  next
    case False
    obtain cur' rs where r: "raw_round cur = (cur', rs)" by (cases "raw_round cur")
    have v: "raw_value cur = rs @ raw_value cur'" using False r by (subst raw_value.simps) simp
    consider "rs = []" | r' where "rs = [r']" using raw_round_single [of cur] r by auto
    then show ?thesis
    proof cases
      case 1
      then have p: "parse_round cur seen = (cur', None, seen)" by (simp add: parse_round_raw r)
      show ?thesis
        using 1(1) "1.IH"(2) [OF False p [symmetric] refl refl] False
        by (subst parse_directives.simps) (simp add: p v)
    next
      case (2 r')
      obtain d seen' where e: "emit_one r' seen = (d, seen')" by (cases "emit_one r' seen")
      then have p: "parse_round cur seen = (cur', d, seen')" by (simp add: parse_round_raw r 2)
      show ?thesis
        using 2 "1.IH"(2) [OF False p [symmetric] refl] "1.IH"(3) [OF False p [symmetric] refl] False
        by (subst parse_directives.simps) (cases d; simp add: p v e)
    qed
  qed
qed

lemma emit_one_cases:
  "emit_one r seen = (Some d, seen') \<Longrightarrow> d_name d \<notin> set seen \<and> seen' = d_name d # seen"
  "emit_one r seen = (None, seen') \<Longrightarrow> seen' = seen \<and> ''must-revalidate'' \<in> set seen"
  by (auto simp: emit_one_def emit_revalidation_def emit_directive_def must_revalidate_directive_def
      split: option.splits if_splits)

lemma parser_collect_emits: "parser_collect headers = emit_all [] (concat (map raw_value headers))"
  by (cases headers) (simp_all add: parser_collect_def parser_new_def parse_directives_emits)

text \<open>Every name is emitted once.\<close>

lemma emit_all_distinct:
  "distinct (map d_name (emit_all seen rs)) \<and> d_name ` set (emit_all seen rs) \<inter> set seen = {}"
proof (induction seen rs rule: emit_all.induct)
  case (2 seen r rs)
  obtain d seen' where e: "emit_one r seen = (d, seen')" by (cases "emit_one r seen")
  show ?case
  proof (cases d)
    case None
    then show ?thesis using 2(1) [OF e [symmetric] None] emit_one_cases(2) [of r seen seen'] e by simp
  next
    case (Some d')
    then show ?thesis using 2(2) [OF e [symmetric] Some] emit_one_cases(1) [of r seen d' seen'] e by auto
  qed
qed simp

definition raw_names :: "directive option list \<Rightarrow> string list" where
  "raw_names rs = map d_name (map the (filter (\<lambda>r. r \<noteq> None) rs))"

lemma raw_names_simps [simp]:
  "raw_names [] = []" "raw_names (None # rs) = raw_names rs" "raw_names (Some d # rs) = d_name d # raw_names rs"
  by (simp_all add: raw_names_def)

text \<open>A malformed part or a repetition is answered with \<open>must-revalidate\<close>, unless that was emitted before.\<close>

lemma emit_all_revalidates:
  assumes "None \<in> set rs \<or> \<not> distinct (raw_names rs) \<or> set (raw_names rs) \<inter> set seen \<noteq> {} \<or> ''must-revalidate'' \<in> set (raw_names rs)"
  shows "''must-revalidate'' \<in> set seen \<or> ''must-revalidate'' \<in> d_name ` set (emit_all seen rs)"
  using assms
proof (induction seen rs rule: emit_all.induct)
  case (2 seen r rs)
  obtain d seen' where e: "emit_one r seen = (d, seen')" by (cases "emit_one r seen")
  show ?case
  proof (cases d)
    case None
    then show ?thesis using emit_one_cases(2) [of r seen seen'] e by simp
  next
    case (Some d')
    note s = emit_one_cases(1) [of r seen d' seen']
    show ?thesis
    proof (cases "d_name d' = ''must-revalidate''")
      case True
      then show ?thesis using e Some by (auto simp: rev_image_eqI)
    next
      case False
      then obtain d'' where r: "r = Some d''" "d' = d''"
        using e Some by (auto simp: emit_one_def emit_revalidation_def emit_directive_def must_revalidate_directive_def
            split: option.splits if_splits)
      have "None \<in> set rs \<or> \<not> distinct (raw_names rs) \<or> set (raw_names rs) \<inter> set seen' \<noteq> {} \<or>
          ''must-revalidate'' \<in> set (raw_names rs)"
        using 2(3) r False s e Some by auto
      then show ?thesis using 2(2) [OF e [symmetric] Some] s e Some False by auto
    qed
  qed
qed simp

lemma emit_all_clean:
  "distinct (map d_name ds) \<Longrightarrow> d_name ` set ds \<inter> set seen = {} \<Longrightarrow> emit_all seen (map Some ds) = ds"
  by (induction ds arbitrary: seen) (auto simp: emit_one_def emit_directive_def)

section \<open>Flags\<close>

lemma flag_contains_bit: "i < 16 \<Longrightarrow> flag_contains f (push_bit i 1) \<longleftrightarrow> bit f i"
proof
  assume i: "i < 16"
  show "bit f i" if "flag_contains f (push_bit i 1)"
    using that [unfolded flag_contains_def, THEN arg_cong, of "\<lambda>w. bit w i"] i by (simp add: bit_simps)
  show "flag_contains f (push_bit i 1)" if "bit f i"
    unfolding flag_contains_def by (rule bit_word_eqI) (use that in \<open>auto simp: bit_simps\<close>)
qed

lemmas flag_defs = FLAG_NO_CACHE_def FLAG_NO_STORE_def FLAG_NO_TRANSFORM_def FLAG_ONLY_IF_CACHED_def
  FLAG_MUST_REVALIDATE_def FLAG_MUST_UNDERSTAND_def FLAG_PRIVATE_def FLAG_PROXY_REVALIDATE_def FLAG_PUBLIC_def
  FLAG_IMMUTABLE_def FLAG_MAX_AGE_def FLAG_MAX_STALE_def FLAG_MIN_FRESH_def FLAG_S_MAXAGE_def

lemmas getter_defs = no_cache_def no_store_def must_revalidate_def cc_private_def cc_public_def immutable_def
  max_age_seconds_def max_stale_seconds_def min_fresh_seconds_def s_maxage_seconds_def

lemma insert_bit: "j < 16 \<Longrightarrow> bit (cc_flags (cc_insert (push_bit j 1) cc)) i \<longleftrightarrow> bit (cc_flags cc) i \<or> i = j"
  by (auto simp: cc_insert_def bit_simps)

lemma contains_bits:
  "flag_contains f FLAG_NO_CACHE \<longleftrightarrow> bit f 0"
  "flag_contains f FLAG_NO_STORE \<longleftrightarrow> bit f 1"
  "flag_contains f FLAG_NO_TRANSFORM \<longleftrightarrow> bit f 2"
  "flag_contains f FLAG_ONLY_IF_CACHED \<longleftrightarrow> bit f 3"
  "flag_contains f FLAG_MUST_REVALIDATE \<longleftrightarrow> bit f 4"
  "flag_contains f FLAG_MUST_UNDERSTAND \<longleftrightarrow> bit f 5"
  "flag_contains f FLAG_PRIVATE \<longleftrightarrow> bit f 6"
  "flag_contains f FLAG_PROXY_REVALIDATE \<longleftrightarrow> bit f 7"
  "flag_contains f FLAG_PUBLIC \<longleftrightarrow> bit f 8"
  "flag_contains f FLAG_IMMUTABLE \<longleftrightarrow> bit f 9"
  "flag_contains f FLAG_MAX_AGE \<longleftrightarrow> bit f 10"
  "flag_contains f FLAG_MAX_STALE \<longleftrightarrow> bit f 11"
  "flag_contains f FLAG_MIN_FRESH \<longleftrightarrow> bit f 12"
  "flag_contains f FLAG_S_MAXAGE \<longleftrightarrow> bit f 13"
  unfolding flag_defs by (rule flag_contains_bit, simp)+

lemma inserted_bits:
  "bit (cc_flags (cc_insert FLAG_NO_CACHE cc)) i \<longleftrightarrow> bit (cc_flags cc) i \<or> i = 0"
  "bit (cc_flags (cc_insert FLAG_NO_STORE cc)) i \<longleftrightarrow> bit (cc_flags cc) i \<or> i = 1"
  "bit (cc_flags (cc_insert FLAG_NO_TRANSFORM cc)) i \<longleftrightarrow> bit (cc_flags cc) i \<or> i = 2"
  "bit (cc_flags (cc_insert FLAG_ONLY_IF_CACHED cc)) i \<longleftrightarrow> bit (cc_flags cc) i \<or> i = 3"
  "bit (cc_flags (cc_insert FLAG_MUST_REVALIDATE cc)) i \<longleftrightarrow> bit (cc_flags cc) i \<or> i = 4"
  "bit (cc_flags (cc_insert FLAG_MUST_UNDERSTAND cc)) i \<longleftrightarrow> bit (cc_flags cc) i \<or> i = 5"
  "bit (cc_flags (cc_insert FLAG_PRIVATE cc)) i \<longleftrightarrow> bit (cc_flags cc) i \<or> i = 6"
  "bit (cc_flags (cc_insert FLAG_PROXY_REVALIDATE cc)) i \<longleftrightarrow> bit (cc_flags cc) i \<or> i = 7"
  "bit (cc_flags (cc_insert FLAG_PUBLIC cc)) i \<longleftrightarrow> bit (cc_flags cc) i \<or> i = 8"
  "bit (cc_flags (cc_insert FLAG_IMMUTABLE cc)) i \<longleftrightarrow> bit (cc_flags cc) i \<or> i = 9"
  "bit (cc_flags (cc_insert FLAG_MAX_AGE cc)) i \<longleftrightarrow> bit (cc_flags cc) i \<or> i = 10"
  "bit (cc_flags (cc_insert FLAG_MAX_STALE cc)) i \<longleftrightarrow> bit (cc_flags cc) i \<or> i = 11"
  "bit (cc_flags (cc_insert FLAG_MIN_FRESH cc)) i \<longleftrightarrow> bit (cc_flags cc) i \<or> i = 12"
  "bit (cc_flags (cc_insert FLAG_S_MAXAGE cc)) i \<longleftrightarrow> bit (cc_flags cc) i \<or> i = 13"
  unfolding flag_defs by (rule insert_bit, simp)+

text \<open>The boolean directives with their bits, and the directives with seconds, their bits and fields.\<close>

definition flag_names :: "(string \<times> nat) list" where
  "flag_names = [(''no-cache'', 0), (''no-store'', 1), (''no-transform'', 2), (''only-if-cached'', 3), (''must-revalidate'', 4),
     (''must-understand'', 5), (''private'', 6), (''proxy-revalidate'', 7), (''public'', 8), (''immutable'', 9)]"

definition seconds_fields :: "(string \<times> nat \<times> (cache_control \<Rightarrow> u64)) list" where
  "seconds_fields = [(''max-age'', 10, cc_max_age), (''max-stale'', 11, cc_max_stale), (''min-fresh'', 12, cc_min_fresh),
     (''s-maxage'', 13, cc_s_maxage)]"

definition seconds_value :: "string \<Rightarrow> string \<Rightarrow> u64 option" where
  "seconds_value name v = (if name = ''max-stale'' \<and> v = [] then Some u64_MAX else parse_int v)"

lemma cc_insert_fields [simp]:
  "cc_max_age (cc_insert f cc) = cc_max_age cc" "cc_max_stale (cc_insert f cc) = cc_max_stale cc"
  "cc_min_fresh (cc_insert f cc) = cc_min_fresh cc" "cc_s_maxage (cc_insert f cc) = cc_s_maxage cc"
  by (simp_all add: cc_insert_def)

definition store_seconds :: "string \<Rightarrow> u64 \<Rightarrow> cache_control \<Rightarrow> cache_control" where
  "store_seconds name n cc =
     (if name = ''max-age'' then cc\<lparr>cc_max_age := n\<rparr> else if name = ''max-stale'' then cc\<lparr>cc_max_stale := n\<rparr>
      else if name = ''min-fresh'' then cc\<lparr>cc_min_fresh := n\<rparr> else cc\<lparr>cc_s_maxage := n\<rparr>)"

lemma apply_flag:
  assumes "(d_name d, i) \<in> set flag_names"
  shows "apply_directive cc d = cc_insert (push_bit i 1) cc"
proof -
  consider "d_name d = ''no-cache'' \<and> i = 0" | "d_name d = ''no-store'' \<and> i = 1" | "d_name d = ''no-transform'' \<and> i = 2"
    | "d_name d = ''only-if-cached'' \<and> i = 3" | "d_name d = ''must-revalidate'' \<and> i = 4" | "d_name d = ''must-understand'' \<and> i = 5"
    | "d_name d = ''private'' \<and> i = 6" | "d_name d = ''proxy-revalidate'' \<and> i = 7" | "d_name d = ''public'' \<and> i = 8"
    | "d_name d = ''immutable'' \<and> i = 9"
    using assms by (auto simp: flag_names_def)
  then show ?thesis by cases (simp_all add: apply_directive_def flag_defs)
qed

lemma apply_seconds_name:
  assumes "(d_name d, i, field) \<in> set seconds_fields"
  shows "apply_directive cc d = (case seconds_value (d_name d) (d_value d) of
      None \<Rightarrow> cc_insert (push_bit 4 1) cc | Some n \<Rightarrow> cc_insert (push_bit i 1) (store_seconds (d_name d) n cc))"
proof -
  consider "d_name d = ''max-age'' \<and> i = 10" | "d_name d = ''max-stale'' \<and> i = 11" | "d_name d = ''min-fresh'' \<and> i = 12"
    | "d_name d = ''s-maxage'' \<and> i = 13"
    using assms by (auto simp: seconds_fields_def)
  then show ?thesis
    by cases (simp_all add: apply_directive_def apply_seconds_def seconds_value_def store_seconds_def flag_defs split: option.split)
qed

lemma apply_other:
  assumes "d_name d \<notin> fst ` set flag_names" "d_name d \<notin> fst ` set seconds_fields"
  shows "apply_directive cc d = cc"
  using assms by (simp add: apply_directive_def flag_names_def seconds_fields_def)

lemma flag_table:
  "\<forall>x\<in>set flag_names. (\<forall>y\<in>set flag_names. snd x = snd y \<longleftrightarrow> fst x = fst y) \<and>
     (snd x = 4 \<longleftrightarrow> fst x = ''must-revalidate'') \<and> snd x < 10"
  by code_simp

lemma seconds_table:
  assumes "(n, i, f) \<in> set seconds_fields"
  shows "n \<notin> fst ` set flag_names"
proof -
  have m: "n \<in> set (map fst seconds_fields)" using assms by force
  have "\<forall>x\<in>set (map fst seconds_fields). x \<notin> fst ` set flag_names" by code_simp
  then show ?thesis using m by (rule bspec)
qed

lemma tables:
  "(n, i) \<in> set flag_names \<Longrightarrow> (n', i') \<in> set flag_names \<Longrightarrow> i = i' \<longleftrightarrow> n = n'"
  "(n, i) \<in> set flag_names \<Longrightarrow> (i = 4 \<longleftrightarrow> n = ''must-revalidate'') \<and> i < 10"
  using flag_table by force+

lemma seconds_tables:
  "(n, i, f) \<in> set seconds_fields \<Longrightarrow> (n', i', f') \<in> set seconds_fields \<Longrightarrow> i = i' \<longleftrightarrow> n = n'"
  "(n, i, f) \<in> set seconds_fields \<Longrightarrow> (n, i', f') \<in> set seconds_fields \<Longrightarrow> f = f'"
  "(n, i, f) \<in> set seconds_fields \<Longrightarrow> i \<noteq> 4 \<and> 10 \<le> i \<and> i < 16 \<and> n \<noteq> ''must-revalidate''"
  by (auto simp: seconds_fields_def)

lemma mixed_tables: "(n, i) \<in> set flag_names \<Longrightarrow> (n', i', f) \<in> set seconds_fields \<Longrightarrow> i \<noteq> i' \<and> n \<noteq> n'"
  using tables(2) [of n i] seconds_tables(3) [of n' i' f] seconds_table [of n' i' f] by force

lemma seconds_cases:
  assumes "(n, i, f) \<in> set seconds_fields"
  obtains "n = ''max-age'' \<and> f = cc_max_age" | "n = ''max-stale'' \<and> f = cc_max_stale"
    | "n = ''min-fresh'' \<and> f = cc_min_fresh" | "n = ''s-maxage'' \<and> f = cc_s_maxage"
  using assms by (auto simp: seconds_fields_def)

lemma field_effects:
  assumes "(n, i, f) \<in> set seconds_fields"
  shows "f (cc_insert b cc) = f cc"
    "n' \<in> fst ` set seconds_fields \<Longrightarrow> f (store_seconds n' v cc) = (if n = n' then v else f cc)"
proof -
  show "f (cc_insert b cc) = f cc" using assms by (cases rule: seconds_cases) simp_all
  show "f (store_seconds n' v cc) = (if n = n' then v else f cc)" if "n' \<in> fst ` set seconds_fields"
  proof -
    obtain i' f' where m: "(n', i', f') \<in> set seconds_fields" using \<open>n' \<in> fst ` set seconds_fields\<close> by force
    show ?thesis
      using assms by (cases rule: seconds_cases; cases rule: seconds_cases [OF m]) (simp_all add: store_seconds_def)
  qed
qed

lemma store_seconds_flags [simp]: "cc_flags (store_seconds n v cc) = cc_flags cc"
  by (simp add: store_seconds_def)

text \<open>
  With distinct names the packed directives are the directives: a boolean directive is set when its name
  occurs, and the seconds are those of the directive with the name, as far as they are a number.
\<close>

definition find_value :: "string \<Rightarrow> directive list \<Rightarrow> string option" where
  "find_value name ds = map_option d_value (find (\<lambda>d. d_name d = name) ds)"

definition seconds_of :: "string \<Rightarrow> directive list \<Rightarrow> u64 option" where
  "seconds_of name ds = Option.bind (find_value name ds) (seconds_value name)"

definition has_name :: "string \<Rightarrow> directive list \<Rightarrow> bool" where
  "has_name name ds \<longleftrightarrow> name \<in> d_name ` set ds"

lemma has_name_snoc [simp]: "has_name name (ds @ [d]) \<longleftrightarrow> has_name name ds \<or> d_name d = name"
  by (auto simp: has_name_def)

lemma find_value_snoc:
  "find_value name (ds @ [d]) =
     (if has_name name ds then find_value name ds else if d_name d = name then Some (d_value d) else None)"
  by (induction ds) (auto simp: find_value_def has_name_def)

lemma find_value_None: "\<not> has_name name ds \<Longrightarrow> find_value name ds = None"
  by (induction ds) (auto simp: find_value_def has_name_def)

lemma seconds_of_None: "\<not> has_name name ds \<Longrightarrow> seconds_of name ds = None"
  by (simp add: seconds_of_def find_value_None)

lemma seconds_of_snoc:
  assumes "\<not> has_name (d_name d) ds"
  shows "seconds_of name (ds @ [d]) = (if d_name d = name then seconds_value name (d_value d) else seconds_of name ds)"
  using assms find_value_None [of name ds] by (auto simp: seconds_of_def find_value_snoc)

definition bad_seconds :: "directive list \<Rightarrow> bool" where
  "bad_seconds ds \<longleftrightarrow> (\<exists>n\<in>fst ` set seconds_fields. has_name n ds \<and> seconds_of n ds = None)"

lemma bad_seconds_snoc:
  assumes "\<not> has_name (d_name d) ds"
  shows "bad_seconds (ds @ [d]) \<longleftrightarrow>
    bad_seconds ds \<or> d_name d \<in> fst ` set seconds_fields \<and> seconds_value (d_name d) (d_value d) = None"
proof -
  have iff: "has_name n (ds @ [d]) \<and> seconds_of n (ds @ [d]) = None \<longleftrightarrow>
      has_name n ds \<and> seconds_of n ds = None \<or> n = d_name d \<and> seconds_value n (d_value d) = None" for n
    using assms by (auto simp: seconds_of_snoc [OF assms])
  have one: "(\<exists>n\<in>A. P n \<or> n = x \<and> Q n) \<longleftrightarrow> (\<exists>n\<in>A. P n) \<or> x \<in> A \<and> Q x" for A P Q and x :: string
    by blast
  show ?thesis unfolding bad_seconds_def iff by (rule one)
qed

definition packs :: "cache_control \<Rightarrow> directive list \<Rightarrow> bool" where
  "packs cc ds \<longleftrightarrow>
     (\<forall>n i. (n, i) \<in> set flag_names \<longrightarrow> i \<noteq> 4 \<longrightarrow> (bit (cc_flags cc) i \<longleftrightarrow> has_name n ds)) \<and>
     (\<forall>n i f. (n, i, f) \<in> set seconds_fields \<longrightarrow> seconds_of n ds = (if bit (cc_flags cc) i then Some (f cc) else None)) \<and>
     (bit (cc_flags cc) 4 \<longleftrightarrow> has_name ''must-revalidate'' ds \<or> bad_seconds ds)"

lemma packsD:
  assumes "packs cc ds"
  shows "(n, i) \<in> set flag_names \<Longrightarrow> i \<noteq> 4 \<Longrightarrow> bit (cc_flags cc) i \<longleftrightarrow> has_name n ds"
    "(n, i, f) \<in> set seconds_fields \<Longrightarrow> seconds_of n ds = (if bit (cc_flags cc) i then Some (f cc) else None)"
    "bit (cc_flags cc) 4 \<longleftrightarrow> has_name ''must-revalidate'' ds \<or> bad_seconds ds"
  using assms unfolding packs_def by blast+

lemma packs_flag:
  assumes p: "packs cc ds" and new: "\<not> has_name (d_name d) ds" and m: "(d_name d, j) \<in> set flag_names"
  shows "packs (apply_directive cc d) (ds @ [d])"
proof -
  have j: "j < 16" "j = 4 \<longleftrightarrow> d_name d = ''must-revalidate''" using tables(2) [OF m] by auto
  have ne: "d_name d \<noteq> n" "j \<noteq> i" if "(n, i, f) \<in> set seconds_fields" for n i f using mixed_tables [OF m that] by auto
  show ?thesis
    unfolding packs_def apply_flag [OF m] insert_bit [OF j(1)]
  proof (intro conjI allI impI)
    fix n i
    assume n: "(n, i) \<in> set flag_names" "i \<noteq> 4"
    show "bit (cc_flags cc) i \<or> i = j \<longleftrightarrow> has_name n (ds @ [d])"
      using packsD(1) [OF p n] tables(1) [OF n(1) m] by auto
  next
    fix n i f
    assume f: "(n, i, f) \<in> set seconds_fields"
    show "seconds_of n (ds @ [d]) = (if bit (cc_flags cc) i \<or> i = j then Some (f (cc_insert (push_bit j 1) cc)) else None)"
      using packsD(2) [OF p f] ne [OF f] field_effects(1) [OF f] by (simp add: seconds_of_snoc [OF new])
  next
    have "d_name d \<notin> fst ` set seconds_fields" using ne(1) by force
    then show "bit (cc_flags cc) 4 \<or> 4 = j \<longleftrightarrow> has_name ''must-revalidate'' (ds @ [d]) \<or> bad_seconds (ds @ [d])"
      using packsD(3) [OF p] j(2) by (auto simp: bad_seconds_snoc [OF new])
  qed
qed

lemma packs_seconds:
  assumes p: "packs cc ds" and new: "\<not> has_name (d_name d) ds" and m: "(d_name d, j, g) \<in> set seconds_fields"
  shows "packs (apply_directive cc d) (ds @ [d])"
proof -
  have mem: "d_name d \<in> fst ` set seconds_fields" using m by force
  have j: "j < 16" "j \<noteq> 4" "d_name d \<noteq> ''must-revalidate''" using seconds_tables(3) [OF m] by auto
  have ne: "d_name d \<noteq> n" "j \<noteq> i" if "(n, i) \<in> set flag_names" for n i using mixed_tables [OF that m] by auto
  have off: "\<not> bit (cc_flags cc) j" using packsD(2) [OF p m] seconds_of_None [OF new] by (auto split: if_splits)
  show ?thesis
  proof (cases "seconds_value (d_name d) (d_value d)")
    case None
    have a: "apply_directive cc d = cc_insert (push_bit 4 1) cc" by (simp add: apply_seconds_name [OF m] None)
    have four: "(4::nat) < 16" by simp
    show ?thesis
      unfolding packs_def a insert_bit [OF four]
    proof (intro conjI allI impI)
      show "bit (cc_flags cc) i \<or> i = 4 \<longleftrightarrow> has_name n (ds @ [d])" if "(n, i) \<in> set flag_names" "i \<noteq> 4" for n i
        using packsD(1) [OF p that] ne(1) [OF that(1)] that(2) by simp
      show "seconds_of n (ds @ [d]) = (if bit (cc_flags cc) i \<or> i = 4 then Some (f (cc_insert (push_bit 4 1) cc)) else None)"
        if f: "(n, i, f) \<in> set seconds_fields" for n i f
        using packsD(2) [OF p f] field_effects(1) [OF f] seconds_tables(1) [OF f m] seconds_tables(3) [OF f] off None
        by (auto simp: seconds_of_snoc [OF new])
      show "bit (cc_flags cc) 4 \<or> 4 = 4 \<longleftrightarrow> has_name ''must-revalidate'' (ds @ [d]) \<or> bad_seconds (ds @ [d])"
        using mem None by (simp add: bad_seconds_snoc [OF new])
    qed
  next
    case (Some v)
    have a: "apply_directive cc d = cc_insert (push_bit j 1) (store_seconds (d_name d) v cc)"
      by (simp add: apply_seconds_name [OF m] Some)
    show ?thesis
      unfolding packs_def a insert_bit [OF j(1)] store_seconds_flags
    proof (intro conjI allI impI)
      show "bit (cc_flags cc) i \<or> i = j \<longleftrightarrow> has_name n (ds @ [d])" if "(n, i) \<in> set flag_names" "i \<noteq> 4" for n i
        using packsD(1) [OF p that] ne [OF that(1)] by auto
      show "seconds_of n (ds @ [d]) = (if bit (cc_flags cc) i \<or> i = j
          then Some (f (cc_insert (push_bit j 1) (store_seconds (d_name d) v cc))) else None)"
        if f: "(n, i, f) \<in> set seconds_fields" for n i f
        using packsD(2) [OF p f] field_effects(1) [OF f] field_effects(2) [OF f mem] seconds_tables(1) [OF f m] Some
        by (auto simp: seconds_of_snoc [OF new])
      show "bit (cc_flags cc) 4 \<or> 4 = j \<longleftrightarrow> has_name ''must-revalidate'' (ds @ [d]) \<or> bad_seconds (ds @ [d])"
        using packsD(3) [OF p] j Some by (simp add: bad_seconds_snoc [OF new])
    qed
  qed
qed

lemma packs_other:
  assumes p: "packs cc ds" and new: "\<not> has_name (d_name d) ds"
    and m: "d_name d \<notin> fst ` set flag_names" "d_name d \<notin> fst ` set seconds_fields"
  shows "packs (apply_directive cc d) (ds @ [d])"
proof -
  have "d_name d \<noteq> n" if "(n, i) \<in> set flag_names" for n i using m(1) that by force
  moreover have "d_name d \<noteq> n" if "(n, i, f) \<in> set seconds_fields" for n i f using m(2) that by force
  moreover have "d_name d \<noteq> ''must-revalidate''" using m(1) by (auto simp: flag_names_def)
  ultimately show ?thesis
    using packsD [OF p] m(2) unfolding packs_def apply_other [OF m]
    by (auto simp: seconds_of_snoc [OF new] bad_seconds_snoc [OF new])
qed

lemma packs_directives:
  assumes "distinct (map d_name ds)"
  shows "packs (cc_from_directives ds) ds"
  using assms
proof (induction ds rule: rev_induct)
  case Nil
  show ?case
    by (auto simp: packs_def cc_from_directives_def cc_default_def has_name_def seconds_of_None bad_seconds_def)
next
  case (snoc d ds)
  then have p: "packs (cc_from_directives ds) ds" and new: "\<not> has_name (d_name d) ds" by (auto simp: has_name_def)
  have "packs (apply_directive (cc_from_directives ds) d) (ds @ [d])"
    using packs_flag [OF p new] packs_seconds [OF p new] packs_other [OF p new] by force
  then show ?case by (simp add: cc_from_directives_def)
qed

section \<open>What headers are read as\<close>

text \<open>
  The directives that header values spell, with the malformed parts left out, and whether the values are
  free of malformed parts and of repetitions.
\<close>

definition spelled :: "string list \<Rightarrow> directive option list" where
  "spelled headers = concat (map raw_value headers)"

definition directives_of :: "directive option list \<Rightarrow> directive list" where
  "directives_of rs = map the (filter (\<lambda>r. r \<noteq> None) rs)"

definition clean :: "directive option list \<Rightarrow> bool" where
  "clean rs \<longleftrightarrow> None \<notin> set rs \<and> distinct (raw_names rs)"

definition doubtful :: "directive option list \<Rightarrow> bool" where
  "doubtful rs \<longleftrightarrow> None \<in> set rs \<or> \<not> distinct (raw_names rs)"

lemma directives_of_simps [simp]:
  "directives_of [] = []" "directives_of (None # rs) = directives_of rs"
  "directives_of (Some d # rs) = d # directives_of rs" "directives_of (map Some ds) = ds"
  by (simp_all add: directives_of_def filter_map o_def)

lemma raw_names_directives: "raw_names rs = map d_name (directives_of rs)"
  by (simp add: raw_names_def directives_of_def)

lemma clean_directives: "clean rs \<Longrightarrow> rs = map Some (directives_of rs)"
proof (induction rs)
  case (Cons r rs)
  then show ?case by (cases r) (auto simp: clean_def)
qed simp

lemma find_value_simps [simp]:
  "find_value n [] = None"
  "find_value n (d # ds) = (if d_name d = n then Some (d_value d) else find_value n ds)"
  by (simp_all add: find_value_def)

lemma has_name_find: "has_name n ds \<longleftrightarrow> find_value n ds \<noteq> None"
  by (induction ds) (auto simp: has_name_def)

text \<open>The first directive with a name is the one that counts.\<close>

lemma emit_all_find:
  assumes "n \<noteq> ''must-revalidate''"
  shows "find_value n (emit_all seen rs) = (if n \<in> set seen then None else find_value n (directives_of rs))"
proof (induction seen rs rule: emit_all.induct)
  case (2 seen r rs)
  obtain d seen' where e: "emit_one r seen = (d, seen')" by (cases "emit_one r seen")
  show ?case
  proof (cases d)
    case None
    then have "r = None \<or> (\<exists>x. r = Some x \<and> d_name x \<in> set seen)"
      using e by (cases r) (auto simp: emit_one_def emit_directive_def split: if_splits)
    then show ?thesis using None 2(1) [OF e [symmetric] None] emit_one_cases(2) [of r seen seen'] e by auto
  next
    case (Some d')
    note s = emit_one_cases(1) [of r seen d' seen']
    have m: "d_name must_revalidate_directive \<noteq> n" using assms by (simp add: must_revalidate_directive_def)
    have "r = Some d' \<or> d' = must_revalidate_directive \<and> (r = None \<or> (\<exists>x. r = Some x \<and> d_name x \<in> set seen))"
      using e Some by (cases r) (auto simp: emit_one_def emit_revalidation_def emit_directive_def split: if_splits)
    then show ?thesis using Some 2(2) [OF e [symmetric] Some] s e m by auto
  qed
qed simp

lemma headers_packed: "packs (cc_from_headers headers) (emit_all [] (spelled headers))"
  using packs_directives [of "emit_all [] (spelled headers)"] emit_all_distinct [of "[]" "spelled headers"]
  by (simp add: cc_from_headers_def parser_collect_emits spelled_def)

lemma emitted_name:
  assumes "n \<noteq> ''must-revalidate''"
  shows "has_name n (emit_all [] rs) \<longleftrightarrow> has_name n (directives_of rs)"
    "seconds_of n (emit_all [] rs) = seconds_of n (directives_of rs)"
  using emit_all_find [OF assms, of "[]" rs] by (simp_all add: has_name_find seconds_of_def)

lemma bad_seconds_emitted: "bad_seconds (emit_all [] rs) \<longleftrightarrow> bad_seconds (directives_of rs)"
proof -
  have "n \<noteq> ''must-revalidate''" if "n \<in> fst ` set seconds_fields" for n
    using that seconds_tables(3) by force
  then show ?thesis unfolding bad_seconds_def by (metis emitted_name)
qed

lemma header_flag:
  assumes "(n, i) \<in> set flag_names" "i \<noteq> 4"
  shows "bit (cc_flags (cc_from_headers headers)) i \<longleftrightarrow> has_name n (directives_of (spelled headers))"
proof -
  have "n \<noteq> ''must-revalidate''" using tables(2) [OF assms(1)] assms(2) by simp
  then show ?thesis using packsD(1) [OF headers_packed assms] emitted_name(1) by simp
qed

lemma header_seconds:
  assumes "(n, i, f) \<in> set seconds_fields"
  shows "(if bit (cc_flags (cc_from_headers headers)) i then Some (f (cc_from_headers headers)) else None) =
    seconds_of n (directives_of (spelled headers))"
proof -
  have "n \<noteq> ''must-revalidate''" using seconds_tables(3) [OF assms] by simp
  then show ?thesis using packsD(2) [OF headers_packed assms] emitted_name(2) by simp
qed

lemma table_members:
  "(''no-cache'', 0) \<in> set flag_names" "(''no-store'', 1) \<in> set flag_names" "(''private'', 6) \<in> set flag_names"
  "(''public'', 8) \<in> set flag_names" "(''immutable'', 9) \<in> set flag_names"
  "(''max-age'', 10, cc_max_age) \<in> set seconds_fields" "(''max-stale'', 11, cc_max_stale) \<in> set seconds_fields"
  "(''min-fresh'', 12, cc_min_fresh) \<in> set seconds_fields" "(''s-maxage'', 13, cc_s_maxage) \<in> set seconds_fields"
  by (simp_all add: flag_names_def seconds_fields_def)

lemma header_revalidation:
  "must_revalidate (cc_from_headers headers) \<longleftrightarrow>
    has_name ''must-revalidate'' (emit_all [] (spelled headers)) \<or> bad_seconds (directives_of (spelled headers))"
  using packsD(3) [OF headers_packed] by (simp add: must_revalidate_def contains_bits bad_seconds_emitted)

lemma emitted_revalidation:
  "has_name ''must-revalidate'' (emit_all [] rs) \<longleftrightarrow> \<not> clean rs \<or> has_name ''must-revalidate'' (directives_of rs)"
proof (cases "clean rs")
  case True
  then have "distinct (map d_name (directives_of rs))" by (simp add: clean_def raw_names_directives)
  then have "emit_all [] rs = directives_of rs"
    using emit_all_clean [of "directives_of rs" "[]"] clean_directives [OF True] by simp
  then show ?thesis using True by simp
next
  case False
  then show ?thesis using emit_all_revalidates [of rs "[]"] by (auto simp: clean_def has_name_def)
qed

section \<open>Properties of the directives\<close>

text \<open>
  C33. Reading \<open>Cache-Control\<close> headers, however many and however malformed: each boolean directive is set
  exactly when some header value spells its name (in any case), and each number of seconds is the one of the
  first directive with that name, when it is a decimal number below \<open>2^64\<close> (a bare \<open>max-stale\<close> counts as
  the largest number) and is absent otherwise.
\<close>

theorem cache_control_directives:
  "let cc = cc_from_headers headers; ds = directives_of (spelled headers) in
   (no_cache cc \<longleftrightarrow> has_name ''no-cache'' ds) \<and> (no_store cc \<longleftrightarrow> has_name ''no-store'' ds) \<and>
   (cc_private cc \<longleftrightarrow> has_name ''private'' ds) \<and> (cc_public cc \<longleftrightarrow> has_name ''public'' ds) \<and>
   (immutable cc \<longleftrightarrow> has_name ''immutable'' ds) \<and>
   max_age_seconds cc = seconds_of ''max-age'' ds \<and> max_stale_seconds cc = seconds_of ''max-stale'' ds \<and>
   min_fresh_seconds cc = seconds_of ''min-fresh'' ds \<and> s_maxage_seconds cc = seconds_of ''s-maxage'' ds"
  using header_flag [OF table_members(1)] header_flag [OF table_members(2)] header_flag [OF table_members(3)]
    header_flag [OF table_members(4)] header_flag [OF table_members(5)] header_seconds [OF table_members(6)]
    header_seconds [OF table_members(7)] header_seconds [OF table_members(8)] header_seconds [OF table_members(9)]
  unfolding Let_def getter_defs contains_bits by simp

text \<open>
  C34. Doubtful headers are not trusted: \<open>must-revalidate\<close> holds exactly when it is spelled, or some part of
  a header value is malformed, or some directive is repeated, or the seconds of \<open>max-age\<close>, \<open>max-stale\<close>,
  \<open>min-fresh\<close> or \<open>s-maxage\<close> are no number.
\<close>

theorem cache_control_revalidates:
  "must_revalidate (cc_from_headers headers) \<longleftrightarrow>
     has_name ''must-revalidate'' (directives_of (spelled headers)) \<or>
     doubtful (spelled headers) \<or>
     (\<exists>n\<in>{''max-age'', ''max-stale'', ''min-fresh'', ''s-maxage''}.
        has_name n (directives_of (spelled headers)) \<and> seconds_of n (directives_of (spelled headers)) = None)"
proof -
  have "fst ` set seconds_fields = {''max-age'', ''max-stale'', ''min-fresh'', ''s-maxage''}" by (auto simp: seconds_fields_def)
  moreover have "doubtful rs \<longleftrightarrow> \<not> clean rs" for rs by (auto simp: doubtful_def clean_def)
  ultimately show ?thesis by (simp only: header_revalidation emitted_revalidation bad_seconds_def) blast
qed

section \<open>Rendered directives are read back\<close>

text \<open>A directive as a server writes it: a bare name, a token after the equals sign, or a quoted string.\<close>

definition quote_byte :: "char \<Rightarrow> string" where
  "quote_byte c = (if c = CHR 0x22 \<or> c = CHR 0x5C then [CHR 0x5C, c] else [c])"

definition render_directive :: "directive \<Rightarrow> string" where
  "render_directive d =
     d_name d @
     (if d_value d = [] then []
      else if list_all is_token_byte (d_value d) then CHR ''='' # d_value d
      else CHR ''='' # CHR 0x22 # concat (map quote_byte (d_value d)) @ [CHR 0x22])"

fun render :: "directive list \<Rightarrow> string" where
  "render [] = []"
| "render [d] = render_directive d"
| "render (d # ds) = render_directive d @ '', '' @ render ds"

definition writable :: "directive \<Rightarrow> bool" where
  "writable d \<longleftrightarrow>
     d_name d \<noteq> [] \<and> list_all (\<lambda>c. is_token_byte c \<and> \<not> is_ascii_uppercase c) (d_name d) \<and>
     list_all is_quoted_pair_byte (d_value d)"

lemma token_bytes:
  "\<not> is_token_byte CHR '',''" "\<not> is_token_byte CHR ''=''" "\<not> is_token_byte CHR 0x22" "\<not> is_token_byte CHR '' ''"
  by code_simp+

lemma token_not_space: "is_token_byte c \<Longrightarrow> \<not> is_ascii_whitespace c"
  by (auto simp: is_token_byte_def is_ascii_whitespace_def is_ascii_digit_def is_ascii_uppercase_def is_ascii_lowercase_def
      byte_val_def)

lemma quoted_loop_quotes:
  "list_all is_quoted_pair_byte v \<Longrightarrow>
    quoted_loop acc (concat (map quote_byte v) @ CHR 0x22 # rest) = Some (acc @ v, rest)"
proof (induction v arbitrary: acc)
  case (Cons c v)
  have b: "byte_val c = 0x22 \<longleftrightarrow> c = CHR 0x22" "byte_val c = 0x5C \<longleftrightarrow> c = CHR 0x5C"
    using of_char_eq_iff [where 'a = nat, of c "CHR 0x22"] of_char_eq_iff [where 'a = nat, of c "CHR 0x5C"]
    by (simp_all add: byte_val_def)
  have q: "is_qdtext_byte c" if "c \<noteq> CHR 0x22" "c \<noteq> CHR 0x5C"
    using Cons.prems b that by (auto simp: is_quoted_pair_byte_def is_qdtext_byte_def Let_def)
  show ?case using Cons q by (auto simp: quote_byte_def)
qed simp

lemma parse_token_app:
  assumes "list_all is_token_byte t" "t \<noteq> []" "rest = [] \<or> \<not> is_token_byte (hd rest)"
  shows "parse_token (t @ rest) = Some (t, rest)"
proof -
  have "takeWhile is_token_byte (t @ rest) = t" "dropWhile is_token_byte (t @ rest) = rest"
    using assms by (cases rest; auto simp: list_all_iff takeWhile_append dropWhile_append)+
  then show ?thesis using assms(2) by (simp add: parse_token_def Let_def)
qed

lemma parse_value_rendered:
  assumes v: "v \<noteq> []" "list_all is_quoted_pair_byte v" and rest: "rest = [] \<or> hd rest = CHR '',''"
  shows "parse_value ((if list_all is_token_byte v then v else CHR 0x22 # concat (map quote_byte v) @ [CHR 0x22]) @ rest) =
    Some (v, rest)"
proof (cases "list_all is_token_byte v")
  case True
  then have "hd v \<noteq> CHR 0x22" using v(1) token_bytes(3) by (cases v) auto
  then have "parse_value (v @ rest) = parse_token (v @ rest)" using v(1) by (cases v) (auto simp: parse_value_def)
  then show ?thesis using True parse_token_app [OF True v(1), of rest] rest token_bytes(1) by auto
next
  case False
  then show ?thesis using quoted_loop_quotes [OF v(2), of "[]" rest] by (simp add: parse_value_def parse_quoted_string_def)
qed

lemma raw_round_rendered:
  assumes w: "writable d" and rest: "rest = [] \<or> hd rest = CHR '',''"
  shows "raw_round (render_directive d @ rest) = (maybe_parse_directive_delimiter rest, [Some d])"
    "raw_round (CHR '' '' # render_directive d @ rest) = (maybe_parse_directive_delimiter rest, [Some d])"
proof -
  let ?tail = "drop (length (d_name d)) (render_directive d) @ rest"
  have name: "d_name d \<noteq> []" "list_all is_token_byte (d_name d)" "map to_ascii_lowercase (d_name d) = d_name d"
    using w by (auto simp: writable_def list_all_iff to_ascii_lowercase_def intro: map_idI)
  have r: "render_directive d @ rest = d_name d @ ?tail" by (simp add: render_directive_def)
  have ws: "skip_whitespace rest = rest"
    using rest by (cases rest) (auto simp: skip_whitespace_def is_ascii_whitespace_def byte_val_def)
  have skip: "skip_whitespace (d_name d @ x) = d_name d @ x" for x
    using name token_not_space by (cases "d_name d") (auto simp: skip_whitespace_def)
  have skip': "skip_whitespace (CHR '' '' # x) = skip_whitespace x" for x
    by (simp add: skip_whitespace_def is_ascii_whitespace_def byte_val_def)
  have "?tail = [] \<or> \<not> is_token_byte (hd ?tail)" using rest token_bytes by (auto simp: render_directive_def)
  then have tok: "parse_token (d_name d @ ?tail) = Some (d_name d, ?tail)" by (rule parse_token_app [OF name(2,1)])
  have "raw_round (d_name d @ ?tail) = (maybe_parse_directive_delimiter rest, [Some d])"
  proof (cases "d_value d = []")
    case True
    then have t: "?tail = rest" by (simp add: render_directive_def)
    have "maybe_parse_equals rest = (False, rest)" using rest by (cases rest) (auto simp: maybe_parse_equals_def)
    then show ?thesis using tok True by (simp add: raw_round_def skip name(3) t ws)
  next
    case False
    define v where "v = (if list_all is_token_byte (d_value d) then d_value d
        else CHR 0x22 # concat (map quote_byte (d_value d)) @ [CHR 0x22])"
    have t: "?tail = CHR ''='' # v @ rest" using False by (simp add: render_directive_def v_def)
    have "parse_value (v @ rest) = Some (d_value d, rest)"
      unfolding v_def using w by (intro parse_value_rendered [OF False _ rest]) (simp add: writable_def)
    then show ?thesis using tok by (simp add: raw_round_def skip name(3) t ws maybe_parse_equals_def)
  qed
  then show "raw_round (render_directive d @ rest) = (maybe_parse_directive_delimiter rest, [Some d])"
    "raw_round (CHR '' '' # render_directive d @ rest) = (maybe_parse_directive_delimiter rest, [Some d])"
    unfolding r by (simp_all add: raw_round_def skip' skip)
qed

lemma raw_value_rendered:
  "list_all writable ds \<Longrightarrow> raw_value (render ds) = map Some ds \<and> raw_value (CHR '' '' # render ds) = map Some ds"
proof (induction ds rule: render.induct)
  case 1
  show ?case by code_simp
next
  case (2 d)
  have "render_directive d \<noteq> []" using 2 by (simp add: render_directive_def writable_def)
  then show ?case
    using 2 raw_round_rendered [of d "[]"] by (simp add: raw_value.simps [of "render_directive d"]
        raw_value.simps [of "CHR '' '' # render_directive d"] maybe_parse_directive_delimiter_def)
next
  case (3 d d' ds)
  let ?rest = "CHR '','' # CHR '' '' # render (d' # ds)"
  have "render_directive d \<noteq> []" using 3 by (simp add: render_directive_def writable_def)
  then show ?case
    using 3 raw_round_rendered [of d ?rest] by (simp add: raw_value.simps [of "render_directive d @ ?rest"]
        raw_value.simps [of "CHR '' '' # render_directive d @ ?rest"] maybe_parse_directive_delimiter_def)
qed

text \<open>
  C35. Directives written as a server writes them are read back, whatever header values they are spread
  over: names of lower-case token bytes, values as tokens or, where they have other bytes, as quoted strings
  with the quotes and backslashes escaped.
\<close>

theorem rendered_directives_parse:
  assumes "\<forall>ds\<in>set dss. list_all writable ds" "distinct (map d_name (concat dss))"
  shows "parser_collect (map render dss) = concat dss"
proof -
  have "map raw_value (map render dss) = map (map Some) dss"
    using assms(1) raw_value_rendered by auto
  then have "concat (map raw_value (map render dss)) = map Some (concat dss)" by (simp only: map_concat)
  then show ?thesis
    using emit_all_clean [OF assms(2), of "[]"] by (simp add: parser_collect_emits)
qed

theorem rendered_directives_parse_witness:
  "let dss = [[\<lparr>d_name = ''max-age'', d_value = ''60''\<rparr>, \<lparr>d_name = ''private'', d_value = ''set cookie''\<rparr>],
      [\<lparr>d_name = ''immutable'', d_value = []\<rparr>]] in
   parser_collect (map render dss) = concat dss \<and> render (hd dss) = ''max-age=60, private='' @ [CHR 0x22] @ ''set cookie'' @ [CHR 0x22]"
  unfolding Let_def by (intro conjI rendered_directives_parse) code_simp+

end
