(* ===== verification/Spec2Isabelle.thy ===== *)
theory Spec2Isabelle
  imports SpecifierText VersionRanges MarkerPython MarkerExtras OnceMap CacheControl
begin

text \<open>
  A verification library for uv, the Python package manager of \<open>astral-sh/uv-dev\<close>. It covers four parts of
  the program: PEP 440 versions, specifiers and ranges (\<open>crates/uv-pep440\<close>), environment markers as interned
  decision diagrams (\<open>crates/uv-pep508/src/marker\<close>), the map that lets concurrent tasks share the result of
  one job (\<open>crates/uv-once-map\<close>), and the reading of HTTP cache directives
  (\<open>crates/uv-client/src/httpcache/control.rs\<close>). Specifiers rest on versions, ranges on specifiers, and the
  edges of marker nodes on ranges; the other two parts stand alone.

  \<^bold>\<open>Shared vocabulary.\<close> \<open>Prelude\<close>: 64-bit words with checked arithmetic, \<open>Ordering\<close> with \<open>then_with\<close>, ASCII bytes,
  results with errors and panics (\<open>res\<close>, \<open>ensures\<close>), and the contract \<open>keyed_cmp\<close> of a comparison that is given
  by a key, which is interpreted on the orders of versions, specifiers, bounds and strings.

  \<^bold>\<open>Versions\<close> (\<open>crates/uv-pep440/src/version.rs\<close>).

  \<^item> \<open>Version\<close>: \<open>VersionSmall\<close> (a 64-bit word) and \<open>VersionFull\<close>, every getter and setter, \<open>make_full\<close>, and
    \<open>bump\<close>. Lemmas: every setter keeps the packed word well formed and refines the update of one field of
    the full version (locale \<open>version_setter\<close>).
  \<^item> \<open>VersionOrder\<close>: \<open>sortable_tuple\<close>, \<open>compare_release\<close>, \<open>Ord\<close>, \<open>PartialEq\<close>, \<open>Hash\<close>. Lemmas: the comparison
    of packed words is the component-wise order, which is a total preorder given by a key; equal versions
    hash equally.
  \<^item> \<open>VersionParse\<close>: the parser and \<open>Display\<close>. Every index, slice and unwrap of the source is a possible
    panic of the model. Lemmas: the invariant of the parser, and that no panic is reached.
  \<^item> \<open>VersionText\<close>: runs of the parser on printed text: the fast path equals the general path, and
    printing followed by parsing gives the version back.
  \<^item> \<open>VersionKeys\<close>: the key of a version as epoch, trimmed release and suffix, prefix matching as an
    interval of releases.

  \<^bold>\<open>Specifiers and ranges\<close> (\<open>version_specifier.rs\<close>, \<open>version_ranges.rs\<close>).

  \<^item> \<open>VersionSpecifier\<close>: operators, \<open>VersionSpecifier\<close>, \<open>VersionSpecifiers\<close> and \<open>TildeVersionSpecifier\<close> with
    their constructors, membership, parsing and printing.
  \<^item> \<open>VersionContains\<close>: what \<open>contains\<close> accepts, operator by operator.
  \<^item> \<open>SpecifierText\<close>: parsing never panics, printing and parsing are inverse, sorting keeps membership, and
    equality, order and hash agree with each other and, but for wildcards, with membership.
  \<^item> \<open>VersionRanges\<close>: the conversion of specifiers to ranges, release-only ranges, the canonical form, lower
    and upper bounds. Lemmas: a range contains what the specifiers accept. The type \<open>Ranges\<close> of the crate
    \<open>version-ranges\<close> is a parameter with the laws \<open>ranges_laws\<close>.

  \<^bold>\<open>Markers\<close> (\<open>marker/algebra.rs\<close>, \<open>marker/tree.rs\<close>, \<open>marker/lowering.rs\<close>, \<open>marker/environment.rs\<close>).

  \<^item> \<open>MarkerAlgebra\<close>: node ids with a complement bit, variables and their order, edges, the interner and its
    operations. \<open>MarkerTree\<close>: environments, the kind of a tree, evaluation, the operations of \<open>MarkerTree\<close>.
    \<open>MarkerExpression\<close>: expressions and their translation to nodes.
  \<^item> \<open>MarkerSemantics\<close>: the truth value that an id denotes, the laws \<open>deps_laws\<close> of the range types, the
    invariant of the interner. \<open>MarkerInterner\<close>: operations on edges and \<open>create_node\<close>. \<open>MarkerConjunction\<close>:
    disjointness, conjunction and the known exclusions. \<open>MarkerBoolean\<close>: the public operations return, keep
    the interner in order and compute the boolean operations.
  \<^item> \<open>MarkerExtras\<close>: evaluation when only the active extras are known bounds the evaluation in an environment.
  \<^item> \<open>MarkerPython\<close>: the translation of \<open>python_version\<close> to \<open>python_full_version\<close> keeps the meaning of a
    specifier, for every operator but one.
  \<^item> \<open>MarkerSegments\<close>: lists of segments, an instance of the range types that computes.

  \<^bold>\<open>Once map.\<close> \<open>OnceMap\<close>: every access to the concurrent map, a notification or a mutex is an atomic step of a
  task, and the tasks interleave in any order (\<open>once_step\<close>). Lemmas: one owner per job, no panic, every run
  is finite and ends with all waiters served. The crate \<open>papaya\<close> and \<open>tokio::sync::Notify\<close> are parameters with
  the laws \<open>once_laws\<close>.

  \<^bold>\<open>Cache directives.\<close> \<open>CacheControl\<close>: the packed \<open>CacheControl\<close>, its flags, the parser of header values and
  the interpretation of directives. Lemmas: what is set is what the headers spell, doubtful headers force
  revalidation, and rendered directives are read back.

  \<^bold>\<open>Conventions.\<close> \<open>u64\<close> is \<open>64 word\<close>; additions wrap as in a release build, and \<open>checked_add\<close> and
  \<open>checked_mul\<close> return \<open>None\<close> on overflow. Text is ASCII; header values are bytes. A panic is \<open>None\<close> where the
  code returns a plain value and \<open>Inl Panic\<close> where it returns a \<open>Result\<close>.

  \<^bold>\<open>Loops and fuel.\<close> Loops are structural recursion or \<open>function\<close>s with a termination proof, but for the
  recursion over marker nodes: it follows ids through the interner's table, which is finite but only by the
  invariant that a node is created after its children. \<open>evaluate_fuel\<close>, \<open>evaluate_extras_fuel\<close>,
  \<open>evaluate_only_extras_fuel\<close>, \<open>disjointness_fuel\<close>, \<open>conjunction_fuel\<close> and \<open>and_fuel\<close> therefore carry fuel, and the
  operations give the first call one more than the sum of the ids of its arguments. A child has a smaller
  id than its parent, so every call lowers the sum, and the lemmas \<open>evaluate_fuel_enough\<close>,
  \<open>extras_fuel_enough\<close>, \<open>only_extras_fuel_enough\<close>, \<open>disjointness_fuel_sound\<close>, \<open>conjunction_fuel_computes\<close> and
  \<open>and_fuel_computes\<close> show that the operations return.

  \<^bold>\<open>Not modelled.\<close> Serde and rkyv implementations, \<open>Debug\<close>, log output and most error messages; of
  \<open>uv-pep508\<close> the requirement parser, the marker parser, the simplifier that prints a tree as text, and
  verbatim URLs; of \<open>uv-client\<close> everything but the directives, that is the decision whether a cached response
  is fresh and the clients themselves; and the remaining crates, most of which are I/O around the file
  system, the network and subprocesses.
\<close>

end
